(* ===== verification/Blp_Prelude.thy ===== *)
theory Blp_Prelude
  imports Main "HOL-Library.Word"
begin

text \<open>
  Shared vocabulary of the development.  It fixes the types every component uses
  (C++ strings as byte strings, exceptions as values, positions in buffers), the
  operations of \<^verbatim>\<open>std::string\<close> that the sources call (\<open>substr\<close>, \<open>find\<close>), the memory
  layout of unsigned integers with the byte-order macros of \<^verbatim>\<open><endian.h>\<close>, and a locale
  for invariants of transition systems that the concurrent components instantiate.
\<close>

section \<open>Types\<close>

text \<open>A \<^verbatim>\<open>char\<close> of the program is one byte; \<^verbatim>\<open>std::string\<close> is a list of them.\<close>

type_synonym u8 = "8 word"
type_synonym u16 = "16 word"
type_synonym u32 = "32 word"
type_synonym u64 = "64 word"

text \<open>The exceptions the modelled code can raise, as values.\<close>

datatype cxx_exn =
    Invalid_argument
  | Out_of_range
  | Length_error
  | Runtime_error string

type_synonym 'a exn_or = "cxx_exn + 'a"

text \<open>Collections used by the component proofs.\<close>

named_theorems buf_simps \<open>reading a buffer at a position\<close>
named_theorems num_simps \<open>printing and reading decimal numbers\<close>
named_theorems byte_simps \<open>memory layout and byte order\<close>

section \<open>Strings\<close>

abbreviation (input) CR :: char where "CR \<equiv> CHR 0x0D"
abbreviation (input) LF :: char where "LF \<equiv> CHR 0x0A"
abbreviation (input) TAB :: char where "TAB \<equiv> CHR 0x09"

abbreviation (input) crlf :: string where "crlf \<equiv> [CHR 0x0D, CHR 0x0A]"

text \<open>
  \<^verbatim>\<open>std::string(buf + pos, n)\<close> and \<^verbatim>\<open>s.substr(pos, n)\<close>: at most \<open>n\<close> characters from \<open>pos\<close>.
  The callers only use positions inside the string.
\<close>

definition substr :: "string \<Rightarrow> nat \<Rightarrow> nat \<Rightarrow> string" where
  "substr s pos n = take n (drop pos s)"

text \<open>\<^verbatim>\<open>s.find(c)\<close>: the position of the first \<open>c\<close>; \<open>None\<close> is \<^verbatim>\<open>std::string::npos\<close>.\<close>

fun str_find :: "char \<Rightarrow> string \<Rightarrow> nat option" where
  "str_find c [] = None"
| "str_find c (x # xs) = (if x = c then Some 0 else map_option Suc (str_find c xs))"

lemma str_find_None_iff: "str_find c s = None \<longleftrightarrow> c \<notin> set s"
  by (induction s) auto

lemma str_find_append:
  "c \<notin> set s \<Longrightarrow> str_find c (s @ c # t) = Some (length s)"
  by (induction s) auto



lemma str_find_SomeD:
  "str_find c s = Some i \<Longrightarrow> i < length s \<and> s ! i = c \<and> c \<notin> set (take i s)"
  by (induction s arbitrary: i) (auto split: if_splits)

lemma str_find_split:
  "c \<in> set s \<Longrightarrow> \<exists>i. str_find c s = Some i"
  using str_find_None_iff by (cases "str_find c s") auto

lemma substr_append [buf_simps]:
  "substr (xs @ ys @ zs) (length xs) (length ys) = ys"
  by (simp add: substr_def)

lemma length_substr [simp]: "length (substr s p n) = min n (length s - p)"
  by (auto simp: substr_def)

lemma substr_extend: "p + n \<le> length s \<Longrightarrow> substr (s @ t) p n = substr s p n"
  by (simp add: substr_def)

text \<open>C strings end at the first NUL byte (\<^verbatim>\<open>c_str()\<close> printed with \<^verbatim>\<open>%s\<close>).\<close>

definition c_str :: "string \<Rightarrow> string" where
  "c_str s = takeWhile (\<lambda>c. c \<noteq> CHR 0x00) s"

section \<open>Lists\<close>

lemma nth_append_prefix [buf_simps]: "i < length xs \<Longrightarrow> (xs @ ys) ! i = xs ! i"
  by (simp add: nth_append)

lemma take_drop_length: "xs = take n xs @ drop (length (take n xs)) xs"
  by (metis append_eq_conv_conj append_take_drop_id)

lemma sum_list_map_length_concat [simp]:
  "sum_list (map length xss) = length (concat xss)"
  by (simp add: length_concat)

section \<open>Memory layout of unsigned integers\<close>

text \<open>
  The host's byte order is a parameter: the wire format must not depend on it, and where it
  does, the model shows it.  \<open>mem_bytes en n w\<close> is the \<open>n\<close>-byte object representation of \<open>w\<close>
  on the host.
\<close>

datatype endian = Little | Big

fun le_bytes :: "nat \<Rightarrow> nat \<Rightarrow> u8 list" where
  "le_bytes 0 x = []"
| "le_bytes (Suc n) x = of_nat (x mod 256) # le_bytes n (x div 256)"

fun le_value :: "u8 list \<Rightarrow> nat" where
  "le_value [] = 0"
| "le_value (b # bs) = unat b + 256 * le_value bs"

definition mem_bytes :: "endian \<Rightarrow> nat \<Rightarrow> 'a::len word \<Rightarrow> u8 list" where
  "mem_bytes en n w =
     (case en of Little \<Rightarrow> le_bytes n (unat w) | Big \<Rightarrow> rev (le_bytes n (unat w)))"

definition mem_value :: "endian \<Rightarrow> u8 list \<Rightarrow> 'a::len word" where
  "mem_value en bs =
     of_nat (case en of Little \<Rightarrow> le_value bs | Big \<Rightarrow> le_value (rev bs))"

text \<open>\<^verbatim>\<open>htobe64\<close>, \<^verbatim>\<open>be64toh\<close>, \<^verbatim>\<open>htonl\<close>, \<^verbatim>\<open>ntohl\<close>, \<^verbatim>\<open>htons\<close>: swap on a little-endian host.\<close>

definition bswap :: "nat \<Rightarrow> 'a::len word \<Rightarrow> 'a word" where
  "bswap n w = of_nat (le_value (rev (le_bytes n (unat w))))"

definition host_be :: "endian \<Rightarrow> nat \<Rightarrow> 'a::len word \<Rightarrow> 'a word" where
  "host_be en n w = (case en of Little \<Rightarrow> bswap n w | Big \<Rightarrow> w)"

lemma length_le_bytes [simp]: "length (le_bytes n x) = n"
  by (induction n arbitrary: x) auto

lemma length_mem_bytes [simp]: "length (mem_bytes en n w) = n"
  by (simp add: mem_bytes_def split: endian.splits)

lemma unat_u8_bound: "unat (b :: u8) < 256"
  using unsigned_less [of b] by simp

lemma le_value_bound: "le_value bs < 256 ^ length bs"
proof (induction bs)
  case (Cons b bs)
  with unat_u8_bound [of b] show ?case by simp
qed simp

lemma le_value_le_bytes [byte_simps]: "le_value (le_bytes n x) = x mod 256 ^ n"
proof (induction n arbitrary: x)
  case (Suc n)
  have "unat (of_nat (x mod 256) :: u8) = x mod 256"
    by (simp add: unat_of_nat)
  with Suc show ?case
    by (simp add: mod_mult2_eq)
qed simp

lemma le_bytes_le_value [byte_simps]: "length bs = n \<Longrightarrow> le_bytes n (le_value bs) = bs"
proof (induction bs arbitrary: n)
  case (Cons b bs)
  have "unat b < 256" by (rule unat_u8_bound)
  with Cons show ?case by auto
qed simp

lemma le_bytes_zero: "le_bytes n 0 = replicate n 0"
  by (induction n) auto

lemma le_value_zeros: "le_value (replicate n 0 @ bs) = 256 ^ n * le_value bs"
  by (induction n) auto

text \<open>
  The layout laws: reading back what was stored gives the value, and converting to network
  order before storing gives the big-endian bytes on every host.
\<close>

lemma mem_value_mem_bytes:
  fixes w :: "'a::len word"
  assumes "LENGTH('a) = 8 * n"
  shows "mem_value en (mem_bytes en n w) = w"
proof -
  have "unat w < 256 ^ n"
    using unsigned_less [of w] assms by (simp add: power_mult)
  then show ?thesis
    by (simp add: mem_value_def mem_bytes_def byte_simps split: endian.splits)
qed

lemma unat_bswap:
  fixes w :: "'a::len word"
  assumes "LENGTH('a) = 8 * n"
  shows "unat (bswap n w) = le_value (rev (le_bytes n (unat w)))"
proof -
  have "le_value (rev (le_bytes n (unat w))) < 2 ^ LENGTH('a)"
    using le_value_bound [of "rev (le_bytes n (unat w))"] assms by (simp add: power_mult)
  then show ?thesis
    by (simp add: bswap_def unat_of_nat)
qed

lemma mem_bytes_host_be:
  fixes w :: "'a::len word"
  assumes "LENGTH('a) = 8 * n"
  shows "mem_bytes en n (host_be en n w) = rev (le_bytes n (unat w))"
  by (simp add: mem_bytes_def host_be_def unat_bswap [OF assms] byte_simps split: endian.splits)

lemma host_be_mem_value:
  fixes w :: "'a::len word"
  assumes "LENGTH('a) = 8 * n"
  shows "host_be en n (mem_value en (rev (le_bytes n (unat w)))) = w"
proof (cases en)
  case Little
  have "le_value (rev (le_bytes n (unat w))) < 2 ^ LENGTH('a)"
    using le_value_bound [of "rev (le_bytes n (unat w))"] assms by (simp add: power_mult)
  moreover have "unat w < 256 ^ n"
    using unsigned_less [of w] assms by (simp add: power_mult)
  ultimately show ?thesis
    using Little
    by (simp add: host_be_def mem_value_def bswap_def unat_of_nat byte_simps)
next
  case Big
  have "unat w < 256 ^ n"
    using unsigned_less [of w] assms by (simp add: power_mult)
  with Big show ?thesis
    by (simp add: host_be_def mem_value_def byte_simps)
qed

text \<open>Reading network-order bytes gives the big-endian value on every host.\<close>

lemma unat_host_be_mem_value:
  assumes "LENGTH('a) = 8 * n" and "length bs = n"
  shows "unat (host_be en n (mem_value en bs :: 'a::len word)) = le_value (rev bs)"
proof -
  have b: "le_value bs < 2 ^ LENGTH('a)" "le_value (rev bs) < 2 ^ LENGTH('a)"
    using le_value_bound [of bs] le_value_bound [of "rev bs"] assms by (simp_all add: power_mult)
  show ?thesis
  proof (cases en)
    case Little
    have "le_bytes n (unat (of_nat (le_value bs) :: 'a word)) = bs"
      using b(1) assms(2) by (simp add: unat_of_nat byte_simps)
    with Little show ?thesis by (simp add: host_be_def mem_value_def unat_bswap [OF assms(1)])
  next
    case Big
    with b(2) show ?thesis by (simp add: host_be_def mem_value_def unat_of_nat)
  qed
qed

section \<open>The bytes of a string\<close>

definition bytes_of :: "string \<Rightarrow> u8 list" where
  "bytes_of s = map (\<lambda>c. of_nat (of_char c)) s"

definition string_of :: "u8 list \<Rightarrow> string" where
  "string_of bs = map (\<lambda>b. char_of (unat b)) bs"

lemma length_bytes_of [simp]: "length (bytes_of s) = length s" "length (string_of bs) = length bs"
  by (simp_all add: bytes_of_def string_of_def)

lemma string_of_bytes_of [byte_simps]: "string_of (bytes_of s) = s"
  by (simp add: string_of_def bytes_of_def unat_of_nat o_def)

lemma bytes_of_string_of [byte_simps]: "bytes_of (string_of bs) = bs"
proof -
  have "of_nat (of_char (char_of (unat b))) = b" for b :: u8
    using unat_u8_bound [of b] by (simp add: of_char_of)
  then show ?thesis by (simp add: string_of_def bytes_of_def o_def map_idI)
qed

section \<open>Invariants of transition systems\<close>

text \<open>
  The concurrent components are given by a step relation from a set of initial states.  The
  interface asks for what one step promises; the client lemma is that every reachable state
  satisfies the invariant.
\<close>

locale transition_invariant =
  fixes start :: "'s \<Rightarrow> bool"
    and step :: "'s \<Rightarrow> 's \<Rightarrow> bool"
    and inv :: "'s \<Rightarrow> bool"
  assumes start_inv: "start s \<Longrightarrow> inv s"
    and step_inv: "inv s \<Longrightarrow> step s t \<Longrightarrow> inv t"
begin

lemma steps_inv: "step\<^sup>*\<^sup>* s t \<Longrightarrow> inv s \<Longrightarrow> inv t"
  by (induction rule: rtranclp_induct) (auto intro: step_inv)

lemma reachable_inv: "start s \<Longrightarrow> step\<^sup>*\<^sup>* s t \<Longrightarrow> inv t"
  by (blast intro: start_inv steps_inv)

end

text \<open>
  A system that keeps an invariant simulates an abstract one when every step from a state with the
  invariant is matched by steps of the abstract system on the abstractions; then so is every run.
\<close>

locale simulation = transition_invariant +
  fixes astep :: "'a \<Rightarrow> 'a \<Rightarrow> bool"
    and abs :: "'s \<Rightarrow> 'a"
  assumes step_sim: "inv s \<Longrightarrow> step s t \<Longrightarrow> astep\<^sup>*\<^sup>* (abs s) (abs t)"
begin

lemma steps_sim: "step\<^sup>*\<^sup>* s t \<Longrightarrow> inv s \<Longrightarrow> astep\<^sup>*\<^sup>* (abs s) (abs t)"
proof (induction rule: rtranclp_induct)
  case (step t u)
  then show ?case using steps_inv [OF step.hyps(1)] step_sim by (blast intro: rtranclp_trans)
qed simp

lemma run_sim: "start s \<Longrightarrow> step\<^sup>*\<^sup>* s t \<Longrightarrow> astep\<^sup>*\<^sup>* (abs s) (abs t) \<and> inv t"
  by (blast intro: start_inv steps_sim reachable_inv)

end


end
