(* ===== verification/Ring_Buffer.thy ===== *)
theory Ring_Buffer
  imports Blp_Prelude
begin

text \<open>
  The bounded buffer of \<^verbatim>\<open>src/src/common/ring_buffer.h\<close> and \<^verbatim>\<open>ring_buffer.cpp\<close>.  Each operation runs
  under the object's mutex and is one function on the record of its fields.  A buffer of capacity
  zero makes the code index an empty vector and divide by zero; that is the result \<open>None\<close>.  The
  interface \<open>bounded_fifo\<close> is the contract: a queue that drops its oldest element when it is full.
\<close>

record 'a ring =
  rb_buffer :: "'a list"
  rb_capacity :: nat
  rb_head :: nat
  rb_tail :: nat
  rb_size :: nat

definition RingBuffer :: "'a \<Rightarrow> nat \<Rightarrow> 'a ring" where
  "RingBuffer dflt capacity =
     \<lparr>rb_buffer = replicate capacity dflt, rb_capacity = capacity, rb_head = 0, rb_tail = 0, rb_size = 0\<rparr>"

definition rb_push :: "'a \<Rightarrow> 'a ring \<Rightarrow> 'a ring option" where
  "rb_push item rb =
     (if rb_capacity rb = 0 \<or> length (rb_buffer rb) \<le> rb_tail rb then None
      else
        let rb1 = rb\<lparr>rb_buffer := (rb_buffer rb)[rb_tail rb := item],
                     rb_tail := (rb_tail rb + 1) mod rb_capacity rb\<rparr>
        in Some (if rb_size rb1 < rb_capacity rb1 then rb1\<lparr>rb_size := rb_size rb1 + 1\<rparr>
                 else rb1\<lparr>rb_head := (rb_head rb1 + 1) mod rb_capacity rb1\<rparr>))"

definition rb_pop :: "'a ring \<Rightarrow> ('a option \<times> 'a ring) option" where
  "rb_pop rb =
     (if rb_size rb = 0 then Some (None, rb)
      else if rb_capacity rb = 0 \<or> length (rb_buffer rb) \<le> rb_head rb then None
      else Some (Some (rb_buffer rb ! rb_head rb),
             rb\<lparr>rb_head := (rb_head rb + 1) mod rb_capacity rb, rb_size := rb_size rb - 1\<rparr>))"

definition rb_length :: "'a ring \<Rightarrow> nat" where "rb_length rb = rb_size rb"

definition rb_empty :: "'a ring \<Rightarrow> bool" where "rb_empty rb \<longleftrightarrow> rb_size rb = 0"

section \<open>The contract\<close>

text \<open>Sequences of operations on any queue.\<close>

fun push_all :: "('a \<Rightarrow> 'q \<Rightarrow> 'q option) \<Rightarrow> 'a list \<Rightarrow> 'q \<Rightarrow> 'q option" where
  "push_all f [] q = Some q"
| "push_all f (x # xs) q = (case f x q of None \<Rightarrow> None | Some q' \<Rightarrow> push_all f xs q')"

fun pop_n :: "('q \<Rightarrow> ('a option \<times> 'q) option) \<Rightarrow> nat \<Rightarrow> 'q \<Rightarrow> ('a list \<times> 'q) option" where
  "pop_n f 0 q = Some ([], q)"
| "pop_n f (Suc n) q =
     (case f q of
        None \<Rightarrow> None
      | Some (None, q') \<Rightarrow> Some ([], q')
      | Some (Some x, q') \<Rightarrow> map_option (\<lambda>(xs, q''). (x # xs, q'')) (pop_n f n q'))"

locale bounded_fifo =
  fixes fpush :: "'a \<Rightarrow> 'q \<Rightarrow> 'q option"
    and fpop :: "'q \<Rightarrow> ('a option \<times> 'q) option"
    and contents :: "'q \<Rightarrow> 'a list"
    and cap :: "'q \<Rightarrow> nat"
    and ok :: "'q \<Rightarrow> bool"
  assumes push_ok: "ok q \<Longrightarrow> \<exists>q'. fpush x q = Some q' \<and> ok q' \<and> cap q' = cap q
      \<and> contents q' = (if length (contents q) < cap q then contents q else tl (contents q)) @ [x]"
    and pop_ok: "ok q \<Longrightarrow> \<exists>q'. fpop q = Some (if contents q = [] then None else Some (hd (contents q)), q')
      \<and> ok q' \<and> cap q' = cap q \<and> contents q' = tl (contents q)"
    and size_ok: "ok q \<Longrightarrow> length (contents q) \<le> cap q \<and> 0 < cap q"
begin

text \<open>After any sequence of pushes the queue holds the newest elements, in order.\<close>

lemma push_all_newest:
  "ok q \<Longrightarrow> \<exists>q'. push_all fpush xs q = Some q' \<and> ok q' \<and> cap q' = cap q
     \<and> contents q' = drop (length (contents q @ xs) - cap q) (contents q @ xs)"
proof (induction xs arbitrary: q)
  case Nil
  with size_ok show ?case by simp
next
  case (Cons x xs)
  from push_ok [OF Cons.prems] obtain q1 where q1: "fpush x q = Some q1" "ok q1" "cap q1 = cap q"
    "contents q1 = (if length (contents q) < cap q then contents q else tl (contents q)) @ [x]"
    by blast
  from Cons.IH [OF q1(2)] obtain q' where q': "push_all fpush xs q1 = Some q'" "ok q'" "cap q' = cap q"
    "contents q' = drop (length (contents q1 @ xs) - cap q) (contents q1 @ xs)"
    using q1(3) by auto
  have "contents q' = drop (length (contents q @ x # xs) - cap q) (contents q @ x # xs)"
  proof (cases "length (contents q) < cap q")
    case True
    with q1 q' show ?thesis by simp
  next
    case False
    with size_ok [OF Cons.prems] obtain y ys where c: "contents q = y # ys" "cap q = Suc (length ys)"
      by (cases "contents q") auto
    with q1 q' False show ?thesis by simp
  qed
  with q1 q' show ?case by simp
qed

lemma pop_n_oldest:
  "ok q \<Longrightarrow> n \<le> length (contents q) \<Longrightarrow>
   \<exists>q'. pop_n fpop n q = Some (take n (contents q), q') \<and> ok q' \<and> contents q' = drop n (contents q)"
proof (induction n arbitrary: q)
  case (Suc n)
  from Suc.prems(2) obtain y ys where c: "contents q = y # ys" by (cases "contents q") auto
  with pop_ok [OF Suc.prems(1)] obtain q1 where q1: "fpop q = Some (Some y, q1)" "ok q1" "contents q1 = ys"
    by auto
  from Suc.IH [OF q1(2)] q1 c Suc.prems(2) obtain q' where
    "pop_n fpop n q1 = Some (take n ys, q')" "ok q'" "contents q' = drop n ys" by auto
  with q1 c show ?case by simp
qed simp

end

section \<open>The ring buffer implements it\<close>

definition rb_contents :: "'a ring \<Rightarrow> 'a list" where
  "rb_contents rb = map (\<lambda>i. rb_buffer rb ! ((rb_head rb + i) mod rb_capacity rb)) [0..<rb_size rb]"

definition rb_ok :: "'a ring \<Rightarrow> bool" where
  "rb_ok rb \<longleftrightarrow> 0 < rb_capacity rb \<and> length (rb_buffer rb) = rb_capacity rb
     \<and> rb_head rb < rb_capacity rb \<and> rb_size rb \<le> rb_capacity rb
     \<and> rb_tail rb = (rb_head rb + rb_size rb) mod rb_capacity rb"

lemma length_rb_contents [simp]: "length (rb_contents rb) = rb_size rb"
  by (simp add: rb_contents_def)

lemma mod_add_inj:
  fixes a i j n :: nat
  assumes "i < n" and "j < n" and "(a + i) mod n = (a + j) mod n"
  shows "i = j"
proof (rule ccontr)
  assume "i \<noteq> j"
  then obtain d where "0 < d" "d < n" "n dvd d"
    using assms mod_eq_dvd_iff_nat [of "a + i" "a + j" n] mod_eq_dvd_iff_nat [of "a + j" "a + i" n]
    by (cases "i < j") (metis add_diff_cancel_left diff_le_self le_less_trans less_imp_le_nat
        nat_add_left_cancel_le zero_less_diff linorder_neqE_nat)+
  then show False by (auto dest: dvd_imp_le)
qed

lemma rb_push_contents:
  assumes "rb_ok rb"
  shows "\<exists>rb'. rb_push x rb = Some rb' \<and> rb_ok rb' \<and> rb_capacity rb' = rb_capacity rb
    \<and> rb_contents rb' = (if rb_size rb < rb_capacity rb then rb_contents rb else tl (rb_contents rb)) @ [x]"
proof -
  let ?n = "rb_capacity rb" and ?h = "rb_head rb" and ?m = "rb_size rb" and ?b = "rb_buffer rb"
  from assms have ok: "0 < ?n" "length ?b = ?n" "?h < ?n" "?m \<le> ?n" "rb_tail rb = (?h + ?m) mod ?n"
    by (auto simp: rb_ok_def)
  then have t: "(?h + ?m) mod ?n < ?n" by simp
  show ?thesis
  proof (cases "?m < ?n")
    case True
    have other: "(?h + i) mod ?n \<noteq> (?h + ?m) mod ?n" if "i < ?m" for i
      using that True mod_add_inj [of i ?n ?m ?h] by auto
    have same: "?b[(?h + ?m) mod ?n := x] ! ((?h + i) mod ?n) = ?b ! ((?h + i) mod ?n)" if "i < ?m" for i
      using other [OF that] by simp
    have "\<not> ?n \<le> (?h + ?m) mod ?n" using t by simp
    with ok True same show ?thesis
      by (simp add: rb_push_def rb_ok_def rb_contents_def Let_def mod_Suc_eq)
  next
    case False
    with ok have full: "?m = ?n" by simp
    then have tail: "rb_tail rb = ?h" using ok by simp
    have last: "(Suc ?h + (?n - 1)) mod ?n = ?h" using ok by simp
    have other: "(Suc ?h + i) mod ?n \<noteq> ?h" if "i < ?n - 1" for i
    proof
      assume "(Suc ?h + i) mod ?n = ?h"
      with last have "(Suc ?h + i) mod ?n = (Suc ?h + (?n - 1)) mod ?n" by simp
      from mod_add_inj [OF _ _ this] that ok show False by simp
    qed
    have "tl (rb_contents rb) = map (\<lambda>i. ?b ! ((Suc ?h + i) mod ?n)) [0..<?n - 1]"
      using full ok by (intro nth_equalityI) (auto simp: rb_contents_def nth_tl)
    moreover have "[0..<?n] = [0..<?n - 1] @ [?n - 1]" using ok(1) by (metis Suc_diff_1 upt_Suc_append zero_le)
    moreover have "(Suc ?h mod ?n + i) mod ?n = (Suc ?h + i) mod ?n" for i by (simp add: mod_add_left_eq)
    moreover have "?b[?h := x] ! ((Suc ?h + i) mod ?n) = ?b ! ((Suc ?h + i) mod ?n)" if "i < ?n - 1" for i
      using other [OF that] by simp
    ultimately have "map (\<lambda>i. ?b[?h := x] ! ((Suc ?h mod ?n + i) mod ?n)) [0..<?n] = tl (rb_contents rb) @ [x]"
      using ok last by (simp del: upt_Suc)
    then show ?thesis
      using ok full tail False
      by (auto simp: rb_push_def rb_ok_def Let_def rb_contents_def [of "_\<lparr>rb_head := _\<rparr>"])
  qed
qed

lemma rb_pop_contents:
  assumes "rb_ok rb"
  shows "\<exists>rb'. rb_pop rb = Some (if rb_contents rb = [] then None else Some (hd (rb_contents rb)), rb')
    \<and> rb_ok rb' \<and> rb_capacity rb' = rb_capacity rb \<and> rb_contents rb' = tl (rb_contents rb)"
proof (cases "rb_size rb")
  case 0
  then have "rb_contents rb = []" by (simp add: rb_contents_def)
  with 0 assms show ?thesis by (simp add: rb_pop_def)
next
  case (Suc m)
  let ?n = "rb_capacity rb" and ?h = "rb_head rb"
  from assms Suc have ok: "0 < ?n" "length (rb_buffer rb) = ?n" "?h < ?n" "Suc m \<le> ?n"
    "rb_tail rb = (?h + Suc m) mod ?n"
    by (auto simp: rb_ok_def)
  have c: "rb_contents rb = rb_buffer rb ! ?h # map (\<lambda>i. rb_buffer rb ! ((Suc ?h + i) mod ?n)) [0..<m]"
    using ok by (simp add: rb_contents_def Suc upt_conv_Cons map_Suc_upt [symmetric] del: upt_Suc)
  have "(Suc ?h mod ?n + i) mod ?n = (Suc ?h + i) mod ?n" for i by (simp add: mod_add_left_eq)
  with ok c show ?thesis
    by (simp add: rb_pop_def rb_ok_def Suc rb_contents_def [of "_\<lparr>rb_head := _, rb_size := _\<rparr>"])
qed

interpretation ring: bounded_fifo rb_push rb_pop rb_contents rb_capacity rb_ok
proof unfold_locales
  fix q :: "'a ring"
  assume "rb_ok q"
  then show "length (rb_contents q) \<le> rb_capacity q \<and> 0 < rb_capacity q" by (simp add: rb_ok_def)
qed (simp_all add: rb_push_contents rb_pop_contents)

lemma RingBuffer_ok: "0 < capacity \<Longrightarrow> rb_ok (RingBuffer dflt capacity)"
  by (simp add: rb_ok_def RingBuffer_def)

lemma RingBuffer_contents [simp]: "rb_contents (RingBuffer dflt capacity) = []"
  by (simp add: rb_contents_def RingBuffer_def)

section \<open>Properties\<close>

text \<open>
  C26: a ring buffer of positive capacity keeps the newest elements: after pushing any sequence onto a
  new buffer it holds the last \<open>capacity\<close> of them, its size is their number, and popping returns them
  oldest first.
\<close>

theorem ring_keeps_newest:
  assumes "0 < capacity"
  shows "\<exists>rb rb'. push_all rb_push xs (RingBuffer dflt capacity) = Some rb
    \<and> rb_length rb = min capacity (length xs)
    \<and> pop_n rb_pop (rb_length rb) rb = Some (drop (length xs - capacity) xs, rb') \<and> rb_empty rb'"
proof -
  note new = RingBuffer_ok [OF assms, of dflt]
  from ring.push_all_newest [OF new, of xs] obtain rb where
    rb: "push_all rb_push xs (RingBuffer dflt capacity) = Some rb" "rb_ok rb"
    "rb_contents rb = drop (length xs - capacity) xs"
    by (auto simp: RingBuffer_def)
  then have len: "rb_length rb = min capacity (length xs)"
    using length_rb_contents [of rb] by (simp add: rb_length_def)
  from ring.pop_n_oldest [OF rb(2), of "rb_length rb"] rb(3) obtain rb' where
    "pop_n rb_pop (rb_length rb) rb = Some (drop (length xs - capacity) xs, rb')" "rb_contents rb' = []"
    using length_rb_contents [of rb] by (auto simp: rb_length_def)
  with rb len show ?thesis
    using length_rb_contents [of rb'] by (auto simp: rb_empty_def)
qed

theorem ring_keeps_newest_witness:
  "\<exists>rb rb'. push_all rb_push [1, 2, 3] (RingBuffer (0 :: nat) 2) = Some rb
    \<and> rb_length rb = min 2 3 \<and> pop_n rb_pop (rb_length rb) rb = Some ([2, 3], rb') \<and> rb_empty rb'"
  using ring_keeps_newest [of 2 "[1, 2, 3]" "0 :: nat"] by (simp add: numeral_2_eq_2)

end
