(* ===== verification/Cxx_Numbers.thy ===== *)
theory Cxx_Numbers
  imports Blp_Prelude
begin

text \<open>
  The conversions between numbers and strings of the C++ standard library that the program
  calls: \<^verbatim>\<open>std::to_string\<close>, \<^verbatim>\<open>std::stoi\<close>, \<^verbatim>\<open>std::stol\<close>, \<^verbatim>\<open>std::stoll\<close> and \<^verbatim>\<open>std::stoull\<close>
  on a platform with 32-bit \<^verbatim>\<open>int\<close> and 64-bit \<^verbatim>\<open>long\<close>.  The readers skip white space, take an
  optional sign and the longest run of digits, ignore whatever follows, raise
  \<open>Invalid_argument\<close> when there is no digit and \<open>Out_of_range\<close> when the value does not fit.
  The unsigned reader negates modulo \<open>2 ^ 64\<close> after a minus sign, which is how the storage
  layer's \<open>-1\<close> marker reads as the largest 64-bit value.
\<close>

section \<open>Printing\<close>

definition digit_char :: "nat \<Rightarrow> char" where
  "digit_char d = char_of (48 + d)"

fun to_string :: "nat \<Rightarrow> string" where
  "to_string n = (if n < 10 then [digit_char n] else to_string (n div 10) @ [digit_char (n mod 10)])"

declare to_string.simps [simp del]

section \<open>Reading\<close>

text \<open>\<^verbatim>\<open>isspace\<close> and \<^verbatim>\<open>isdigit\<close> in the C locale.\<close>

definition is_space :: "char \<Rightarrow> bool" where
  "is_space c \<longleftrightarrow> of_char c = (32 :: nat) \<or> (9 \<le> (of_char c :: nat) \<and> (of_char c :: nat) \<le> 13)"

definition is_digit :: "char \<Rightarrow> bool" where
  "is_digit c \<longleftrightarrow> 48 \<le> (of_char c :: nat) \<and> (of_char c :: nat) \<le> 57"

definition digit_value :: "char \<Rightarrow> nat" where
  "digit_value c = of_char c - 48"

definition digits_value :: "string \<Rightarrow> nat" where
  "digits_value s = foldl (\<lambda>a c. 10 * a + digit_value c) 0 s"

text \<open>The part \<^verbatim>\<open>strtol\<close> and its kin share: sign and magnitude, or no conversion.\<close>

definition read_number :: "string \<Rightarrow> (bool \<times> nat) option" where
  "read_number s =
     (let s1 = dropWhile is_space s;
          neg = (s1 \<noteq> [] \<and> hd s1 = CHR ''-'');
          s2 = (if s1 \<noteq> [] \<and> (hd s1 = CHR ''-'' \<or> hd s1 = CHR ''+'') then tl s1 else s1);
          ds = takeWhile is_digit s2
      in if ds = [] then None else Some (neg, digits_value ds))"

definition sto_signed :: "nat \<Rightarrow> string \<Rightarrow> int exn_or" where
  "sto_signed bits s =
     (case read_number s of
        None \<Rightarrow> Inl Invalid_argument
      | Some (neg, m) \<Rightarrow>
          (let v = (if neg then - int m else int m)
           in if - (2 ^ (bits - 1)) \<le> v \<and> v < 2 ^ (bits - 1) then Inr v else Inl Out_of_range))"

definition stoi :: "string \<Rightarrow> int exn_or" where "stoi = sto_signed 32"
definition stol :: "string \<Rightarrow> int exn_or" where "stol = sto_signed 64"
definition stoll :: "string \<Rightarrow> int exn_or" where "stoll = sto_signed 64"

definition stoull :: "string \<Rightarrow> u64 exn_or" where
  "stoull s =
     (case read_number s of
        None \<Rightarrow> Inl Invalid_argument
      | Some (neg, m) \<Rightarrow>
          (if m < 2 ^ 64 then Inr (if neg then - of_nat m else of_nat m) else Inl Out_of_range))"

section \<open>What printing and reading promise each other\<close>

lemma of_char_digit_char: "d < 10 \<Longrightarrow> (of_char (digit_char d) :: nat) = 48 + d"
  by (simp add: digit_char_def)

lemma is_digit_digit_char [num_simps]: "d < 10 \<Longrightarrow> is_digit (digit_char d)"
  by (simp add: is_digit_def of_char_digit_char)

lemma digit_value_digit_char [num_simps]: "d < 10 \<Longrightarrow> digit_value (digit_char d) = d"
  by (simp add: digit_value_def of_char_digit_char)

lemma digits_value_snoc [num_simps]:
  "digits_value (s @ [c]) = 10 * digits_value s + digit_value c"
  by (simp add: digits_value_def)

lemma to_string_digits [num_simps]: "c \<in> set (to_string n) \<Longrightarrow> is_digit c"
proof (induction n rule: to_string.induct)
  case (1 n)
  then show ?case
    by (cases "n < 10") (auto simp: to_string.simps [of n] num_simps)
qed

lemma to_string_nonempty [simp]: "to_string n \<noteq> []"
  by (subst to_string.simps) simp

lemma digits_value_to_string [num_simps]: "digits_value (to_string n) = n"
proof (induction n rule: to_string.induct)
  case (1 n)
  show ?case
  proof (cases "n < 10")
    case True
    then show ?thesis
      by (simp add: to_string.simps [of n] digits_value_def num_simps)
  next
    case False
    with 1 have "digits_value (to_string (n div 10)) = n div 10" by simp
    with False show ?thesis
      by (simp add: to_string.simps [of n] num_simps)
  qed
qed

lemma digit_not_special:
  "is_digit c \<Longrightarrow> \<not> is_space c \<and> c \<noteq> CHR ''-'' \<and> c \<noteq> CHR ''+'' \<and> c \<noteq> CR \<and> c \<noteq> LF \<and> c \<noteq> TAB"
  by (auto simp: is_digit_def is_space_def)

lemma to_string_no_special:
  "CR \<notin> set (to_string n)" "LF \<notin> set (to_string n)" "TAB \<notin> set (to_string n)"
  using to_string_digits digit_not_special by blast+

text \<open>
  A printed number reads back, whatever follows it, as long as that does not start with
  another digit.
\<close>

lemma read_number_to_string [num_simps]:
  assumes "t = [] \<or> \<not> is_digit (hd t)"
  shows "read_number (to_string n @ t) = Some (False, n)"
proof -
  obtain c cs where eq: "to_string n = c # cs"
    by (cases "to_string n") auto
  then have c: "is_digit c" and "\<forall>x\<in>set (c # cs). is_digit x"
    using to_string_digits by (metis list.set_intros(1), metis)
  then have tw: "takeWhile is_digit ((c # cs) @ t) = c # cs"
    using assms by (cases t) (auto simp: takeWhile_append)
  from c have nsp: "\<not> is_space c" "c \<noteq> CHR ''-''" "c \<noteq> CHR ''+''"
    using digit_not_special by blast+
  have "digits_value (c # cs) = n"
    using digits_value_to_string [of n] eq by simp
  with nsp tw show ?thesis
    by (simp add: read_number_def eq)
qed

lemma sto_signed_to_string:
  "(t = [] \<or> \<not> is_digit (hd t)) \<Longrightarrow> n < 2 ^ (bits - 1) \<Longrightarrow>
   sto_signed bits (to_string n @ t) = Inr (int n)"
proof -
  assume t: "t = [] \<or> \<not> is_digit (hd t)" and n: "n < 2 ^ (bits - 1)"
  from n have "int n < 2 ^ (bits - 1)"
    by simp
  moreover have "- (2 ^ (bits - 1)) \<le> int n"
    by (rule order_trans [of _ 0]) simp_all
  ultimately show ?thesis
    by (simp add: sto_signed_def read_number_to_string [OF t] Let_def)
qed

lemma stoi_to_string: "n < 2 ^ 31 \<Longrightarrow> stoi (to_string n) = Inr (int n)"
  using sto_signed_to_string [of "[]" n 32] by (simp add: stoi_def)

lemma stol_to_string: "n < 2 ^ 63 \<Longrightarrow> stol (to_string n) = Inr (int n)"
  using sto_signed_to_string [of "[]" n 64] by (simp add: stol_def)

lemma stoull_to_string:
  "t = [] \<or> \<not> is_digit (hd t) \<Longrightarrow> stoull (to_string (unat w) @ t) = Inr w"
  using unsigned_less [of w] by (simp add: stoull_def num_simps)

lemma stoull_minus_one: "stoull ''-1'' = Inr (- 1)"
  by (simp add: stoull_def read_number_def is_space_def is_digit_def digits_value_def digit_value_def)

lemma sto_signed_bounds:
  "sto_signed bits s = Inr v \<Longrightarrow> - (2 ^ (bits - 1)) \<le> v \<and> v < 2 ^ (bits - 1)"
  by (auto simp: sto_signed_def Let_def split: option.splits if_splits)

lemma sto_signed_Nil: "sto_signed bits [] = Inl Invalid_argument"
  by (simp add: sto_signed_def read_number_def)

end
