(* ===== verification/Sequence_Number.thy ===== *)
theory Sequence_Number
  imports Cxx_Numbers
begin

text \<open>
  The counter of \<^verbatim>\<open>src/src/common/sequence_number.h\<close> and \<^verbatim>\<open>sequence_number.cpp\<close>: a 64-bit atomic
  whose increments wrap, its decimal form, and the strict reader \<^verbatim>\<open>seq_to_uint64_t\<close>.
\<close>

type_synonym sequence_number = u64

definition SequenceNumber :: sequence_number where "SequenceNumber = 0"

definition seq_current :: "sequence_number \<Rightarrow> u64" where "seq_current s = s"

text \<open>\<^verbatim>\<open>fetch_add\<close> returns the value before the increment.\<close>

definition seq_next :: "sequence_number \<Rightarrow> u64 \<times> sequence_number" where
  "seq_next s = (s, s + 1)"

text \<open>
  The zero-padded form is built in a stream that is not used; what is returned is the plain
  decimal form of the old value.
\<close>

definition next_as_string :: "sequence_number \<Rightarrow> string \<times> sequence_number" where
  "next_as_string s =
     (let val = s;
          oss = replicate (20 - length (to_string (unat val))) (CHR ''0'') @ to_string (unat val)
      in (to_string (unat val), s + 1))"

definition seq_to_uint64_t :: "string \<Rightarrow> u64 exn_or" where
  "seq_to_uint64_t str =
     (if 20 < length str then Inl Invalid_argument
      else if \<not> list_all is_digit str then Inl Invalid_argument
      else if str = [] \<or> 2 ^ 64 \<le> digits_value str then Inl Invalid_argument
      else Inr (of_nat (digits_value str)))"

fun seq_run :: "nat \<Rightarrow> sequence_number \<Rightarrow> u64 list \<times> sequence_number" where
  "seq_run 0 s = ([], s)"
| "seq_run (Suc n) s =
     (case seq_next s of (v, s') \<Rightarrow> case seq_run n s' of (vs, s'') \<Rightarrow> (v # vs, s''))"

lemma seq_run_eq: "seq_run n s = (map (\<lambda>i. s + of_nat i) [0..<n], s + of_nat n)"
proof (induction n arbitrary: s)
  case (Suc n)
  have "map (\<lambda>i. s + of_nat i) [0..<Suc n] = s # map (\<lambda>i. s + 1 + of_nat i) [0..<n]"
    by (simp add: upt_conv_Cons map_Suc_upt [symmetric] add.assoc del: upt_Suc)
  then show ?case by (simp add: Suc seq_next_def add.assoc del: upt_Suc)
qed simp

lemma length_to_string: "n < 10 ^ k \<Longrightarrow> 0 < k \<Longrightarrow> length (to_string n) \<le> k"
proof (induction n arbitrary: k rule: to_string.induct)
  case (1 n)
  show ?case
  proof (cases "n < 10")
    case True
    with "1.prems" show ?thesis by (simp add: to_string.simps [of n])
  next
    case False
    with "1.prems" have "k \<noteq> 1" by auto
    with "1.prems"(2) obtain j where j: "k = Suc j" "0 < j" by (cases k) auto
    with "1.prems" have "n div 10 < 10 ^ j" by (auto intro: less_mult_imp_div_less)
    with "1.IH" [OF False this] j False show ?thesis by (simp add: to_string.simps [of n])
  qed
qed

lemma unat_u64_bound: "unat (w :: u64) < 2 ^ 64"
proof -
  have "unat w < 2 ^ LENGTH(64)" by (rule unsigned_less)
  then show ?thesis by simp
qed

lemma unat_u64_digits: "length (to_string (unat (w :: u64))) \<le> 20"
proof -
  have "unat w < 2 ^ 64" by (rule unat_u64_bound)
  then have "unat w < 10 ^ 20" by simp
  then show ?thesis by (rule length_to_string) simp
qed

section \<open>Properties\<close>

text \<open>
  C27: the reader accepts what \<^verbatim>\<open>next_as_string\<close> prints, for all values, and returns the value; any
  accepted string has one to twenty digits and denotes the result exactly.  Up to \<open>2 ^ 64\<close> calls of
  \<^verbatim>\<open>next\<close> return pairwise different values, counting up from the current one.
\<close>

theorem sequence_round_trip:
  "seq_to_uint64_t (fst (next_as_string s)) = Inr s
   \<and> snd (next_as_string s) = s + 1
   \<and> (seq_to_uint64_t str = Inr v \<longrightarrow>
        str \<noteq> [] \<and> length str \<le> 20 \<and> list_all is_digit str \<and> unat v = digits_value str)
   \<and> (n \<le> 2 ^ 64 \<longrightarrow> distinct (fst (seq_run n s)) \<and> (\<forall>i < n. fst (seq_run n s) ! i = s + of_nat i))"
proof -
  have "list_all is_digit (to_string (unat s))" using to_string_digits by (auto simp: list_all_iff)
  moreover have "unat s < 2 ^ 64" by (rule unat_u64_bound)
  ultimately have "seq_to_uint64_t (fst (next_as_string s)) = Inr s"
    using unat_u64_digits [of s] by (simp add: seq_to_uint64_t_def next_as_string_def num_simps)
  moreover have "distinct (fst (seq_run n s))" if "n \<le> 2 ^ 64"
  proof -
    have "inj_on (\<lambda>i. s + of_nat i) {0..<n}"
      using that by (auto simp: inj_on_def word_of_nat_eq_iff take_bit_nat_eq_self)
    then show ?thesis by (simp add: seq_run_eq distinct_map)
  qed
  moreover have "unat v = digits_value str" if "seq_to_uint64_t str = Inr v"
    using that by (auto simp: seq_to_uint64_t_def unat_of_nat split: if_splits)
  ultimately show ?thesis
    by (auto simp: seq_run_eq next_as_string_def seq_to_uint64_t_def split: if_splits)
qed

theorem sequence_round_trip_witness:
  "seq_to_uint64_t (fst (next_as_string 1234)) = Inr 1234 \<and> distinct (fst (seq_run 5 7))"
  using sequence_round_trip [of 1234] sequence_round_trip [of 7 "[]" 0 5] by simp

end
