(* ===== verification/Socket_IO.thy ===== *)
theory Socket_IO
  imports Blp_Prelude
begin

text \<open>
  The socket helpers of \<^verbatim>\<open>src/src/common/socket_utils.cpp\<close>.  A connection is a record of the bytes
  handed to the kernel and the bytes that arrive before the peer closes.  How many bytes a call of
  \<^verbatim>\<open>send\<close> or \<^verbatim>\<open>recv\<close> transfers, and which call fails, is chosen by an arbitrary network \<open>net\<close>; the
  theory shows that the loops transfer exactly what they were given, in order, for all choices, and
  what is left behind when a call fails.  The functions that create sockets keep the set of open
  descriptors.
\<close>

section \<open>Connections\<close>

record net =
  net_send :: "nat \<Rightarrow> nat option"
  net_recv :: "nat \<Rightarrow> nat option"

record sock =
  sock_tx :: "u8 list"
  sock_sends :: nat
  sock_rx :: "u8 list"
  sock_recvs :: nat

text \<open>
  One system call: \<open>None\<close> is a negative result; the choice \<open>Some k\<close> a call that transfers \<open>k\<close> bytes
  as far as there are that many, and at least one if there is one.  A \<^verbatim>\<open>recv\<close> of no bytes is the end
  of the stream.
\<close>

definition sys_send :: "net \<Rightarrow> u8 list \<Rightarrow> sock \<Rightarrow> nat option \<times> sock" where
  "sys_send net data s =
     (case net_send net (sock_sends s) of
        None \<Rightarrow> (None, s\<lparr>sock_sends := Suc (sock_sends s)\<rparr>)
      | Some k \<Rightarrow>
          let n = min (length data) (max 1 k)
          in (Some n, s\<lparr>sock_tx := sock_tx s @ take n data, sock_sends := Suc (sock_sends s)\<rparr>))"

definition sys_recv :: "net \<Rightarrow> nat \<Rightarrow> sock \<Rightarrow> u8 list option \<times> sock" where
  "sys_recv net len s =
     (case net_recv net (sock_recvs s) of
        None \<Rightarrow> (None, s\<lparr>sock_recvs := Suc (sock_recvs s)\<rparr>)
      | Some k \<Rightarrow>
          let n = min len (max 1 k)
          in (Some (take n (sock_rx s)), s\<lparr>sock_rx := drop n (sock_rx s), sock_recvs := Suc (sock_recvs s)\<rparr>))"

function send_loop :: "net \<Rightarrow> u8 list \<Rightarrow> nat \<Rightarrow> sock \<Rightarrow> bool \<times> sock" where
  "send_loop net data sent s =
     (if sent < length data then
        (case sys_send net (drop sent data) s of
           (None, s') \<Rightarrow> (False, s')
         | (Some n, s') \<Rightarrow> if n = 0 then (False, s') else send_loop net data (sent + n) s')
      else (True, s))"
  by pat_completeness auto
termination
  by (relation "measure (\<lambda>(net, data, sent, s). length data - sent)") auto

definition send_all :: "net \<Rightarrow> u8 list \<Rightarrow> sock \<Rightarrow> bool \<times> sock" where
  "send_all net data s = send_loop net data 0 s"

text \<open>
  \<^verbatim>\<open>recv_all\<close> fills a buffer of the given length in place; on failure the part received so far stays
  in the buffer and the rest keeps what was there.
\<close>

function recv_loop :: "net \<Rightarrow> u8 list \<Rightarrow> nat \<Rightarrow> sock \<Rightarrow> bool \<times> u8 list \<times> sock" where
  "recv_loop net buf received s =
     (if received < length buf then
        (case sys_recv net (length buf - received) s of
           (None, s') \<Rightarrow> (False, buf, s')
         | (Some chunk, s') \<Rightarrow>
             if chunk = [] then (False, buf, s')
             else recv_loop net (take received buf @ chunk @ drop (received + length chunk) buf)
                    (received + length chunk) s')
      else (True, buf, s))"
  by pat_completeness auto
termination
  by (relation "measure (\<lambda>(net, buf, received, s). length buf - received)")
    (auto simp: min_def simp flip: length_greater_0_conv)

definition recv_all :: "net \<Rightarrow> u8 list \<Rightarrow> sock \<Rightarrow> bool \<times> u8 list \<times> sock" where
  "recv_all net buffer s = recv_loop net buffer 0 s"

declare send_loop.simps [simp del] recv_loop.simps [simp del]

section \<open>What the loops transfer\<close>

lemma send_loop_spec:
  assumes "send_loop net data sent s = (ok, s')" and "sent \<le> length data"
  shows "\<exists>n. sent \<le> n \<and> n \<le> length data \<and> sock_tx s' = sock_tx s @ drop sent (take n data)
    \<and> (ok \<longleftrightarrow> n = length data) \<and> sock_rx s' = sock_rx s \<and> sock_recvs s' = sock_recvs s
    \<and> ((\<forall>i. net_send net i \<noteq> None) \<longrightarrow> ok)"
  using assms
proof (induction net data sent s rule: send_loop.induct)
  case (1 net data sent s)
  show ?case
  proof (cases "sent < length data")
    case False
    with "1.prems" show ?thesis
      by (intro exI [of _ sent]) (auto simp: send_loop.simps [of net data sent])
  next
    case less: True
    show ?thesis
    proof (cases "net_send net (sock_sends s)")
      case None
      with "1.prems" less show ?thesis
        by (intro exI [of _ sent]) (auto simp: send_loop.simps [of net data sent] sys_send_def)
    next
      case (Some k)
      define n where "n = min (length data - sent) (max 1 k)"
      define s1 where "s1 = s\<lparr>sock_tx := sock_tx s @ take n (drop sent data), sock_sends := Suc (sock_sends s)\<rparr>"
      have sys: "sys_send net (drop sent data) s = (Some n, s1)"
        using Some by (simp add: sys_send_def n_def s1_def Let_def)
      have n: "0 < n" "sent + n \<le> length data" using less by (auto simp: n_def)
      have "send_loop net data (sent + n) s1 = (ok, s')"
        using "1.prems"(1) less n by (simp add: send_loop.simps [of net data sent] sys)
      from "1.IH" [OF less sys [symmetric] refl _ this n(2)] n obtain m where m:
        "sent + n \<le> m" "m \<le> length data" "sock_tx s' = sock_tx s1 @ drop (sent + n) (take m data)"
        "ok \<longleftrightarrow> m = length data" "sock_rx s' = sock_rx s" "sock_recvs s' = sock_recvs s"
        "(\<forall>i. net_send net i \<noteq> None) \<longrightarrow> ok"
        by (auto simp: s1_def)
      have "take n (drop sent data) @ drop (sent + n) (take m data) = drop sent (take m data)"
      proof -
        have "take n (drop sent data) = take n (drop sent (take m data))"
          using m(1) by (simp add: take_drop min_def)
        then show ?thesis
          by (metis append_take_drop_id drop_drop add.commute)
      qed
      with m n show ?thesis by (intro exI [of _ m]) (auto simp: s1_def)
    qed
  qed
qed


text \<open>
  A buffer filled up to position \<open>n\<close>, from \<open>received\<close> on, with the first bytes of \<open>rx\<close>; both
  receiving loops compose from such pieces.
\<close>

definition filled :: "'b list \<Rightarrow> nat \<Rightarrow> 'b list \<Rightarrow> nat \<Rightarrow> 'b list \<Rightarrow> 'b list \<Rightarrow> bool" where
  "filled buf received rx n buf' rx' \<longleftrightarrow> received \<le> n \<and> n \<le> length buf \<and> n - received \<le> length rx
     \<and> buf' = take received buf @ take (n - received) rx @ drop n buf \<and> rx' = drop (n - received) rx"

lemma filled_none: "received \<le> length buf \<Longrightarrow> filled buf received rx received buf rx"
  by (simp add: filled_def)

lemma filled_chunk:
  assumes "received < length buf" and "c = take (min (length buf - received) j) rx"
    and "filled (take received buf @ c @ drop (received + length c) buf) (received + length c) (drop (length c) rx) n buf' rx'"
  shows "filled buf received rx n buf' rx'"
proof -
  let ?buf = "take received buf @ c @ drop (received + length c) buf"
  have c: "received + length c \<le> length buf" "length c \<le> length rx" "take (length c) rx = c"
    using assms(1,2) by (auto simp: min_def)
  then have n: "received + length c \<le> n" "n \<le> length buf" using assms(3) by (auto simp: filled_def)
  have "c @ take (n - (received + length c)) (drop (length c) rx) = take (n - received) rx"
    using c(3) n(1) take_add [of "length c" "n - (received + length c)" rx] by simp
  moreover have "take (received + length c) ?buf = take received buf @ c" "drop n ?buf = drop n buf"
    using assms(1) n(1) c(1) by auto
  ultimately show ?thesis using assms(3) c(2) n by (auto simp: filled_def)
qed

lemma recv_loop_spec:
  assumes "recv_loop net buf received s = (ok, buf', s')" and "received \<le> length buf"
  shows "\<exists>n. filled buf received (sock_rx s) n buf' (sock_rx s') \<and> (ok \<longleftrightarrow> n = length buf)
    \<and> sock_tx s' = sock_tx s \<and> sock_sends s' = sock_sends s
    \<and> ((\<forall>i. net_recv net i \<noteq> None) \<longrightarrow> n = min (length buf) (received + length (sock_rx s)))"
  using assms
proof (induction net buf received s rule: recv_loop.induct)
  case (1 net buf received s)
  show ?case
  proof (cases "received < length buf")
    case False
    with "1.prems" show ?thesis
      by (intro exI [of _ received]) (auto simp: recv_loop.simps [of net buf received] filled_none)
  next
    case less: True
    show ?thesis
    proof (cases "net_recv net (sock_recvs s)")
      case None
      with "1.prems" less show ?thesis
        by (intro exI [of _ received])
          (auto simp: recv_loop.simps [of net buf received] sys_recv_def filled_none dest: spec [of _ "sock_recvs s"])
    next
      case (Some k)
      define c where "c = take (min (length buf - received) (max 1 k)) (sock_rx s)"
      define s1 where "s1 = s\<lparr>sock_rx := drop (length c) (sock_rx s), sock_recvs := Suc (sock_recvs s)\<rparr>"
      have sys: "sys_recv net (length buf - received) s = (Some c, s1)"
        using Some by (auto simp: sys_recv_def c_def s1_def Let_def min_def)
      show ?thesis
      proof (cases "c = []")
        case True
        then have "sock_rx s = []" using less by (auto simp: c_def)
        with True "1.prems" less show ?thesis
          by (intro exI [of _ received]) (auto simp: recv_loop.simps [of net buf received] sys s1_def filled_none)
      next
        case False
        have c: "received + length c \<le> length buf" "length c \<le> length (sock_rx s)" using less by (auto simp: c_def min_def)
        have "recv_loop net (take received buf @ c @ drop (received + length c) buf) (received + length c) s1 = (ok, buf', s')"
          using "1.prems"(1) less False by (simp add: recv_loop.simps [of net buf received] sys)
        from "1.IH" [OF less sys [symmetric] refl False this] c less obtain n where
          n: "filled (take received buf @ c @ drop (received + length c) buf) (received + length c) (sock_rx s1) n buf' (sock_rx s')"
          "ok \<longleftrightarrow> n = length buf" "sock_tx s' = sock_tx s" "sock_sends s' = sock_sends s"
          "(\<forall>i. net_recv net i \<noteq> None) \<longrightarrow> n = min (length buf) (received + length (sock_rx s))"
          by (auto simp: s1_def)
        from filled_chunk [OF less c_def] n(1) have "filled buf received (sock_rx s) n buf' (sock_rx s')"
          by (simp add: s1_def)
        with n(2-) show ?thesis by blast
      qed
    qed
  qed
qed

text \<open>
  The contract of the two loops, as the callers use it: bytes appear on the wire in order, up to the
  point of a failure, and a receiver fills its buffer from the front of what arrived.  \<open>good\<close> says
  that no call of the network fails.
\<close>

locale byte_channel =
  fixes tx :: "'c \<Rightarrow> 'b list"
    and rx :: "'c \<Rightarrow> 'b list"
    and send :: "'b list \<Rightarrow> 'c \<Rightarrow> bool \<times> 'c"
    and recv :: "'b list \<Rightarrow> 'c \<Rightarrow> bool \<times> 'b list \<times> 'c"
    and good_send :: bool
    and good_recv :: bool
  assumes send_law: "send data c = (ok, c') \<Longrightarrow>
      rx c' = rx c \<and> (\<exists>n \<le> length data. tx c' = tx c @ take n data \<and> (ok \<longleftrightarrow> n = length data))"
    and recv_law: "recv buf c = (ok, buf', c') \<Longrightarrow>
      tx c' = tx c \<and> (\<exists>n \<le> length buf. n \<le> length (rx c) \<and> buf' = take n (rx c) @ drop n buf
        \<and> rx c' = drop n (rx c) \<and> (ok \<longleftrightarrow> n = length buf)
        \<and> (good_recv \<longrightarrow> n = min (length buf) (length (rx c))))"
    and send_good: "good_send \<Longrightarrow> fst (send data c)"

text \<open>A chain of sends, each of which returns \<^verbatim>\<open>false\<close> from the caller when it fails.\<close>

fun send_seq :: "('b list \<Rightarrow> 'c \<Rightarrow> bool \<times> 'c) \<Rightarrow> 'b list list \<Rightarrow> 'c \<Rightarrow> bool \<times> 'c" where
  "send_seq send [] c = (True, c)"
| "send_seq send (d # ds) c =
     (case send d c of (False, c') \<Rightarrow> (False, c') | (True, c') \<Rightarrow> send_seq send ds c')"

context byte_channel
begin

lemma send_seq_law:
  assumes "send_seq send ds c = (ok, c')"
  shows "rx c' = rx c
    \<and> (\<exists>n \<le> length (concat ds). tx c' = tx c @ take n (concat ds) \<and> (ok \<longrightarrow> n = length (concat ds)))"
  using assms
proof (induction ds arbitrary: c)
  case (Cons d ds)
  obtain b c1 where 1: "send d c = (b, c1)" by (cases "send d c")
  from send_law [OF 1] obtain n where n:
    "rx c1 = rx c" "n \<le> length d" "tx c1 = tx c @ take n d" "b \<longleftrightarrow> n = length d" by auto
  show ?case
  proof (cases b)
    case True
    with Cons.prems 1 have "send_seq send ds c1 = (ok, c')" by simp
    from Cons.IH [OF this] obtain m where
      "rx c' = rx c1" "m \<le> length (concat ds)" "tx c' = tx c1 @ take m (concat ds)"
      "ok \<longrightarrow> m = length (concat ds)" by auto
    with n True show ?thesis by (intro conjI exI [of _ "length d + m"]) auto
  next
    case False
    with Cons.prems 1 n show ?thesis by (intro conjI exI [of _ n]) auto
  qed
qed auto

lemma send_seq_good:
  assumes good_send
  shows "fst (send_seq send ds c) \<and> tx (snd (send_seq send ds c)) = tx c @ concat ds
    \<and> rx (snd (send_seq send ds c)) = rx c"
proof -
  have "fst (send_seq send ds c)" for c
  proof (induction ds arbitrary: c)
    case (Cons d ds)
    with send_good [OF assms, of d c] show ?case by (cases "send d c") auto
  qed simp
  moreover obtain ok c' where r: "send_seq send ds c = (ok, c')" by (cases "send_seq send ds c")
  ultimately have "ok" by (metis fst_conv)
  with send_seq_law [OF r] r show ?thesis by auto
qed

lemma recv_full:
  assumes good_recv and "length buf \<le> length (rx c)"
  shows "\<exists>c'. recv buf c = (True, take (length buf) (rx c), c') \<and> rx c' = drop (length buf) (rx c)
    \<and> tx c' = tx c"
proof -
  obtain ok buf' c' where r: "recv buf c = (ok, buf', c')" by (cases "recv buf c") auto
  from recv_law [OF r] assms show ?thesis by (auto simp: r min_def)
qed

lemma recv_short:
  assumes good_recv and "length (rx c) < length buf"
  shows "\<exists>c'. recv buf c = (False, rx c @ drop (length (rx c)) buf, c') \<and> rx c' = [] \<and> tx c' = tx c"
proof -
  obtain ok buf' c' where r: "recv buf c = (ok, buf', c')" by (cases "recv buf c") auto
  from recv_law [OF r] assms show ?thesis by (auto simp: r min_def)
qed

end

interpretation tcp: byte_channel sock_tx sock_rx "send_all net" "recv_all net"
  "\<forall>i. net_send net i \<noteq> None" "\<forall>i. net_recv net i \<noteq> None" for net
proof (unfold_locales)
  fix data s ok s'
  assume "send_all net data s = (ok, s')"
  from send_loop_spec [OF this [unfolded send_all_def]]
  show "sock_rx s' = sock_rx s
    \<and> (\<exists>n\<le>length data. sock_tx s' = sock_tx s @ take n data \<and> (ok \<longleftrightarrow> n = length data))" by auto
next
  fix buf s ok buf' s'
  assume "recv_all net buf s = (ok, buf', s')"
  from recv_loop_spec [OF this [unfolded recv_all_def]]
  show "sock_tx s' = sock_tx s \<and> (\<exists>n\<le>length buf. n \<le> length (sock_rx s)
      \<and> buf' = take n (sock_rx s) @ drop n buf \<and> sock_rx s' = drop n (sock_rx s)
      \<and> (ok \<longleftrightarrow> n = length buf)
      \<and> ((\<forall>i. net_recv net i \<noteq> None) \<longrightarrow> n = min (length buf) (length (sock_rx s))))"
    unfolding filled_def by auto
next
  fix data s
  assume "\<forall>i. net_send net i \<noteq> None"
  with send_loop_spec [of net data 0 s] show "fst (send_all net data s)"
    by (cases "send_all net data s") (auto simp: send_all_def)
qed


section \<open>The reader with a time limit\<close>

text \<open>
  \<^verbatim>\<open>recv_all_with_event\<close> has a body for macOS (kqueue) and one for Linux (epoll).  On a non-blocking
  socket a call of \<^verbatim>\<open>recv\<close> may also report that it would block; the wait that follows ends with a
  timeout, an error or an event.  Nothing bounds the number of rounds, so the outcomes of the calls
  are a list, and \<open>None\<close> means that the loop is still running when the list ends.
\<close>

datatype platform = Apple | Linux

datatype wait_result = Wait_timeout | Wait_error | Wait_readable | Wait_other

datatype recv_outcome = Rc_bytes nat | Rc_again wait_result | Rc_error

fun recv_event_loop ::
  "platform \<Rightarrow> recv_outcome list \<Rightarrow> u8 list \<Rightarrow> nat \<Rightarrow> u8 list \<Rightarrow> (bool \<times> u8 list \<times> u8 list) option" where
  "recv_event_loop pf outs buf received rx =
     (if \<not> received < length buf then Some (True, buf, rx)
      else case outs of
        [] \<Rightarrow> None
      | Rc_bytes k # outs' \<Rightarrow>
          let chunk = take (min (length buf - received) (max 1 k)) rx
          in if chunk = [] then Some (False, buf, rx)
             else recv_event_loop pf outs'
                    (take received buf @ chunk @ drop (received + length chunk) buf)
                    (received + length chunk) (drop (length chunk) rx)
      | Rc_again Wait_timeout # outs' \<Rightarrow> Some (False, buf, rx)
      | Rc_again Wait_error # outs' \<Rightarrow> Some (False, buf, rx)
      | Rc_again Wait_readable # outs' \<Rightarrow> recv_event_loop pf outs' buf received rx
      | Rc_again Wait_other # outs' \<Rightarrow>
          (case pf of Apple \<Rightarrow> Some (False, buf, rx) | Linux \<Rightarrow> recv_event_loop pf outs' buf received rx)
      | Rc_error # outs' \<Rightarrow> Some (False, buf, rx))"

declare recv_event_loop.simps [simp del]

text \<open>
  The whole function: the result of the loop, with the number of event descriptors it leaves open.
  The macOS body closes its queue on every path; the Linux body never closes the epoll descriptor and
  does not look at whether it got one, so that without one every wait ends with an error.  (The Linux
  body declares \<^verbatim>\<open>epoll_fd\<close> a second time beside the parameter; the model is of the body with the
  inner declaration.)
\<close>

definition without_queue :: "recv_outcome \<Rightarrow> recv_outcome" where
  "without_queue out = (case out of Rc_again _ \<Rightarrow> Rc_again Wait_error | _ \<Rightarrow> out)"

definition recv_all_with_event ::
  "platform \<Rightarrow> bool \<Rightarrow> bool \<Rightarrow> recv_outcome list \<Rightarrow> u8 list \<Rightarrow> u8 list \<Rightarrow> ((bool \<times> u8 list \<times> u8 list) \<times> nat) option" where
  "recv_all_with_event pf queue_ok register_ok outs buffer rx =
     (case pf of
        Apple \<Rightarrow>
          if \<not> queue_ok \<or> \<not> register_ok then Some ((False, buffer, rx), 0)
          else map_option (\<lambda>r. (r, 0)) (recv_event_loop Apple outs buffer 0 rx)
      | Linux \<Rightarrow>
          map_option (\<lambda>r. (r, if queue_ok then 1 else 0))
            (recv_event_loop Linux (if queue_ok then outs else map without_queue outs) buffer 0 rx))"

lemma recv_event_loop_done:
  "\<not> received < length buf \<Longrightarrow> recv_event_loop pf outs buf received rx = Some (True, buf, rx)"
  by (subst recv_event_loop.simps) simp

lemma recv_event_loop_bytes:
  assumes "received < length buf" and "c = take (min (length buf - received) (max 1 k)) rx"
  shows "recv_event_loop pf (Rc_bytes k # outs) buf received rx =
    (if c = [] then Some (False, buf, rx)
     else recv_event_loop pf outs (take received buf @ c @ drop (received + length c) buf)
            (received + length c) (drop (length c) rx))"
  using assms(1) unfolding assms(2) by (subst recv_event_loop.simps) (simp only: Let_def if_True not_True_eq_False
    if_False list.case recv_outcome.case)

lemma recv_event_loop_other:
  assumes "received < length buf"
  shows "recv_event_loop pf [] buf received rx = None"
    and "recv_event_loop pf (Rc_error # outs) buf received rx = Some (False, buf, rx)"
    and "recv_event_loop pf (Rc_again w # outs) buf received rx =
      (if w = Wait_readable \<or> w = Wait_other \<and> pf = Linux then recv_event_loop pf outs buf received rx
       else Some (False, buf, rx))"
  using assms by (subst recv_event_loop.simps; simp split: wait_result.split platform.split)+

lemma recv_event_loop_spec:
  assumes "recv_event_loop pf outs buf received rx = Some (ok, buf', rx')" and "received \<le> length buf"
  shows "\<exists>n. filled buf received rx n buf' rx' \<and> (ok \<longleftrightarrow> n = length buf)"
  using assms
proof (induction outs arbitrary: buf received rx)
  case Nil
  then show ?case
    by (intro exI [of _ received])
      (cases "received < length buf"; auto simp: recv_event_loop_done recv_event_loop_other filled_none)
next
  case (Cons out outs)
  show ?case
  proof (cases "received < length buf")
    case False
    with Cons.prems show ?thesis by (intro exI [of _ received]) (auto simp: recv_event_loop_done filled_none)
  next
    case less: True
    show ?thesis
    proof (cases "\<exists>k. out = Rc_bytes k \<and> rx \<noteq> []")
      case False
      with less have "recv_event_loop pf (out # outs) buf received rx \<in>
          {recv_event_loop pf outs buf received rx, Some (False, buf, rx)}"
        by (cases out) (simp_all add: recv_event_loop_bytes [where c = "[]"] recv_event_loop_other)
      with Cons less show ?thesis by (auto intro: exI [of _ received] simp: filled_none)
    next
      case True
      then obtain k where k: "out = Rc_bytes k" "rx \<noteq> []" by blast
      define c where "c = take (min (length buf - received) (max 1 k)) rx"
      have c: "c \<noteq> []" "received + length c \<le> length buf" using less k by (auto simp: c_def min_def)
      have "recv_event_loop pf outs (take received buf @ c @ drop (received + length c) buf) (received + length c)
          (drop (length c) rx) = Some (ok, buf', rx')"
        using Cons.prems(1) k c(1) recv_event_loop_bytes [OF less c_def, of pf outs] by simp
      from Cons.IH [OF this] c(2) filled_chunk [OF less c_def] show ?thesis by auto
    qed
  qed
qed

text \<open>Enough productive outcomes end the loop with a full buffer.\<close>

definition productive :: "recv_outcome \<Rightarrow> bool" where
  "productive out \<longleftrightarrow> (case out of Rc_bytes _ \<Rightarrow> True | _ \<Rightarrow> False)"

definition patient :: "recv_outcome \<Rightarrow> bool" where
  "patient out \<longleftrightarrow> (case out of Rc_bytes _ \<Rightarrow> True | Rc_again Wait_readable \<Rightarrow> True | _ \<Rightarrow> False)"

lemma recv_event_loop_full:
  assumes "list_all patient outs" and "length buf \<le> received + length (filter productive outs)"
    and "length buf \<le> received + length rx"
  shows "\<exists>buf' rx'. recv_event_loop pf outs buf received rx = Some (True, buf', rx')"
  using assms
proof (induction outs arbitrary: buf received rx)
  case Nil
  then show ?case by (simp add: recv_event_loop_done)
next
  case (Cons out outs)
  show ?case
  proof (cases "received < length buf")
    case False
    then show ?thesis by (simp add: recv_event_loop_done)
  next
    case less: True
    from Cons.prems(1) consider k where "out = Rc_bytes k" | "out = Rc_again Wait_readable"
      by (auto simp: patient_def split: recv_outcome.splits wait_result.splits)
    then show ?thesis
    proof cases
      case 1
      define c where "c = take (min (length buf - received) (max 1 k)) rx"
      define buf1 where "buf1 = take received buf @ c @ drop (received + length c) buf"
      have rx: "rx \<noteq> []" using less Cons.prems(3) by auto
      have c: "c \<noteq> []" "received + length c \<le> length buf" "length c \<le> length rx"
        using less rx by (auto simp: c_def min_def)
      then obtain j where j: "length c = Suc j" by (cases c) auto
      have p: "productive out" using 1 by (simp add: productive_def)
      have len: "length buf1 = length buf" using c by (simp add: buf1_def)
      have "\<exists>buf' rx'. recv_event_loop pf outs buf1 (received + length c) (drop (length c) rx) = Some (True, buf', rx')"
        using Cons.prems c len p j by (intro Cons.IH) auto
      then show ?thesis
        using 1 c(1) recv_event_loop_bytes [OF less c_def, of pf outs] by (simp flip: buf1_def)
    next
      case 2
      with Cons less show ?thesis
        by (auto simp: recv_event_loop_other productive_def)
    qed
  qed
qed


section \<open>Creating sockets\<close>

text \<open>
  The outcome of the system calls is an argument; \<open>fds\<close> is the list of the descriptors the process
  has open.  \<^verbatim>\<open>inet_pton\<close> stores nothing when the text is not a dotted address, and its result is not
  looked at, so the address stays zero.  A negative result of \<^verbatim>\<open>accept\<close> is handed to the caller.
\<close>

record sockaddr_in =
  sin_port :: u16
  sin_addr :: u32

record socket_calls =
  sc_socket :: "int option"
  sc_bind :: "sockaddr_in \<Rightarrow> bool"
  sc_listen :: bool
  sc_accept :: int
  sc_inet_pton :: "string \<Rightarrow> u32 option"
  sc_connect :: "sockaddr_in \<Rightarrow> bool"

definition create_server_socket :: "endian \<Rightarrow> socket_calls \<Rightarrow> u16 \<Rightarrow> int list \<Rightarrow> int exn_or \<times> int list" where
  "create_server_socket en sc port fds =
     (case sc_socket sc of
        None \<Rightarrow> (Inl (Runtime_error ''socket() failed''), fds)
      | Some fd \<Rightarrow>
          let addr = \<lparr>sin_port = host_be en 2 port, sin_addr = 0\<rparr>
          in if \<not> sc_bind sc addr then (Inl (Runtime_error ''bind() failed''), fd # fds)
             else if \<not> sc_listen sc then (Inl (Runtime_error ''listen() failed''), fd # fds)
             else (Inr fd, fd # fds))"

definition accept_client :: "socket_calls \<Rightarrow> int list \<Rightarrow> int \<times> int list" where
  "accept_client sc fds = (sc_accept sc, if sc_accept sc < 0 then fds else sc_accept sc # fds)"

definition create_client_socket ::
  "endian \<Rightarrow> socket_calls \<Rightarrow> string \<Rightarrow> u16 \<Rightarrow> int list \<Rightarrow> int exn_or \<times> int list" where
  "create_client_socket en sc ip port fds =
     (case sc_socket sc of
        None \<Rightarrow> (Inl (Runtime_error ''socket() failed''), fds)
      | Some fd \<Rightarrow>
          let addr0 = \<lparr>sin_port = host_be en 2 port, sin_addr = 0\<rparr>;
              addr = (case sc_inet_pton sc (c_str ip) of None \<Rightarrow> addr0 | Some a \<Rightarrow> addr0\<lparr>sin_addr := a\<rparr>)
          in if \<not> sc_connect sc addr then (Inl (Runtime_error ''connect() failed''), fd # fds)
             else (Inr fd, fd # fds))"

section \<open>Properties\<close>

text \<open>
  C23: however the kernel splits the transfers, \<^verbatim>\<open>send_all\<close> puts a prefix of the data on the wire, and
  all of it when it returns true; \<^verbatim>\<open>recv_all\<close> fills its buffer with the bytes that arrived first and
  consumes exactly those, leaves the rest of the buffer alone when it fails, and returns true when
  the buffer is full.  When no call fails, \<^verbatim>\<open>send_all\<close> succeeds and \<^verbatim>\<open>recv_all\<close> succeeds exactly when
  enough bytes arrive.
\<close>

theorem socket_loops_exact:
  assumes "send_all net data s = (ok, s')" and "recv_all net buf c = (ok', buf', c')"
  shows "(\<exists>n \<le> length data. sock_tx s' = sock_tx s @ take n data \<and> (ok \<longleftrightarrow> n = length data))
    \<and> sock_rx s' = sock_rx s \<and> sock_tx c' = sock_tx c
    \<and> ((\<forall>i. net_send net i \<noteq> None) \<longrightarrow> ok)
    \<and> (\<exists>n \<le> length buf. n \<le> length (sock_rx c) \<and> buf' = take n (sock_rx c) @ drop n buf
      \<and> sock_rx c' = drop n (sock_rx c) \<and> (ok' \<longleftrightarrow> n = length buf))
    \<and> ((\<forall>i. net_recv net i \<noteq> None) \<longrightarrow> (ok' \<longleftrightarrow> length buf \<le> length (sock_rx c)))"
  using tcp.send_law [OF assms(1)] tcp.send_good [of net data s] tcp.recv_law [OF assms(2)] assms(1)
  by auto

definition example_net :: net where
  "example_net = \<lparr>net_send = (\<lambda>i. Some (Suc i)), net_recv = (\<lambda>i. Some 2)\<rparr>"

theorem socket_loops_exact_witness:
  "send_all example_net [1, 2, 3, 4] \<lparr>sock_tx = [9], sock_sends = 0, sock_rx = [], sock_recvs = 0\<rparr>
     = (True, \<lparr>sock_tx = [9, 1, 2, 3, 4], sock_sends = 3, sock_rx = [], sock_recvs = 0\<rparr>)
   \<and> recv_all example_net [0, 0, 0] \<lparr>sock_tx = [], sock_sends = 0, sock_rx = [7, 8, 9, 10], sock_recvs = 0\<rparr>
     = (True, [7, 8, 9], \<lparr>sock_tx = [], sock_sends = 0, sock_rx = [10], sock_recvs = 2\<rparr>)
   \<and> (length [0, 0, 0 :: u8] \<le> length [7, 8, 9, 10 :: u8])"
proof -
  have s: "send_all example_net [1, 2, 3, 4] \<lparr>sock_tx = [9], sock_sends = 0, sock_rx = [], sock_recvs = 0\<rparr>
     = (True, \<lparr>sock_tx = [9, 1, 2, 3, 4], sock_sends = 3, sock_rx = [], sock_recvs = 0\<rparr>)"
    by (simp add: send_all_def send_loop.simps sys_send_def example_net_def Let_def)
  have r: "recv_all example_net [0, 0, 0] \<lparr>sock_tx = [], sock_sends = 0, sock_rx = [7, 8, 9, 10], sock_recvs = 0\<rparr>
     = (True, [7, 8, 9], \<lparr>sock_tx = [], sock_sends = 0, sock_rx = [10], sock_recvs = 2\<rparr>)"
    by (simp add: recv_all_def recv_loop.simps sys_recv_def example_net_def Let_def)
  from socket_loops_exact [OF s r] s r show ?thesis by (simp add: example_net_def)
qed



text \<open>
  The functions that create sockets, on every branch: the port is in network order on every
  host, a failure raises, and a failure after \<^verbatim>\<open>socket()\<close> leaves the new descriptor open.  A client
  given a text that is not a dotted address connects to the zero address.
\<close>

theorem socket_creation:
  assumes "create_server_socket en sc port fds = (r, fds')"
    and "create_client_socket en sc ip port fds = (rc, fds'')"
  shows "(sc_socket sc = None \<longrightarrow> r = Inl (Runtime_error ''socket() failed'') \<and> fds' = fds
       \<and> rc = r \<and> fds'' = fds)
     \<and> (\<forall>fd. sc_socket sc = Some fd \<longrightarrow> fds' = fd # fds \<and> fds'' = fd # fds
          \<and> (r = Inr fd \<longleftrightarrow> sc_listen sc \<and> (\<exists>a. mem_bytes en 2 (sin_port a) = rev (le_bytes 2 (unat port))
               \<and> sin_addr a = 0 \<and> sc_bind sc a))
          \<and> (rc = Inr fd \<longleftrightarrow> (\<exists>a. mem_bytes en 2 (sin_port a) = rev (le_bytes 2 (unat port))
               \<and> sin_addr a = (case sc_inet_pton sc (c_str ip) of None \<Rightarrow> 0 | Some x \<Rightarrow> x) \<and> sc_connect sc a)))"
proof -
  have port: "mem_bytes en 2 (sin_port a) = rev (le_bytes 2 (unat port)) \<longleftrightarrow> sin_port a = host_be en 2 port" for a
  proof -
    have "sin_port a = mem_value en (mem_bytes en 2 (sin_port a))" by (simp add: mem_value_mem_bytes)
    then show ?thesis using mem_bytes_host_be [of 2 en port] mem_value_mem_bytes [of 2 en "host_be en 2 port"]
      by (auto simp del: le_bytes.simps)
  qed
  have eq: "(\<exists>a. sin_port a = p \<and> sin_addr a = x \<and> P a) \<longleftrightarrow> P \<lparr>sin_port = p, sin_addr = x\<rparr>" for p x P
    by (metis sockaddr_in.select_convs sockaddr_in.surjective unit.exhaust)
  show ?thesis
  proof (cases "sc_socket sc")
    case None
    with assms show ?thesis by (simp add: create_server_socket_def create_client_socket_def)
  next
    case (Some fd)
    have "fds' = fd # fds" "r = Inr fd \<longleftrightarrow> sc_listen sc \<and> sc_bind sc \<lparr>sin_port = host_be en 2 port, sin_addr = 0\<rparr>"
      using assms(1) Some by (simp_all add: create_server_socket_def Let_def split: if_splits) auto
    moreover have "fds'' = fd # fds" "rc = Inr fd \<longleftrightarrow> sc_connect sc \<lparr>sin_port = host_be en 2 port,
        sin_addr = (case sc_inet_pton sc (c_str ip) of None \<Rightarrow> 0 | Some x \<Rightarrow> x)\<rparr>"
      using assms(2) Some
      by (cases "sc_inet_pton sc (c_str ip)"; simp add: create_client_socket_def Let_def split: if_splits; auto)+
    ultimately show ?thesis unfolding port eq using Some by simp
  qed
qed

theorem socket_creation_witness:
  "create_server_socket Little \<lparr>sc_socket = Some 5, sc_bind = (\<lambda>a. False), sc_listen = True,
      sc_accept = 6, sc_inet_pton = (\<lambda>s. None), sc_connect = (\<lambda>a. True)\<rparr> 6480 []
    = (Inl (Runtime_error ''bind() failed''), [5])"
proof -
  define sc where "sc = \<lparr>sc_socket = Some 5, sc_bind = (\<lambda>a. False), sc_listen = True,
      sc_accept = 6, sc_inet_pton = (\<lambda>s. None), sc_connect = (\<lambda>a. True)\<rparr>"
  obtain r fds where c: "create_server_socket Little sc 6480 [] = (r, fds)"
    by (cases "create_server_socket Little sc 6480 []")
  obtain rc fds'' where "create_client_socket Little sc [] 6480 [] = (rc, fds'')"
    by (cases "create_client_socket Little sc [] 6480 []")
  from socket_creation [OF c this] have "fds = [5]" by (simp add: sc_def)
  with c show ?thesis by (simp add: sc_def create_server_socket_def)
qed

end
