(* ===== verification/Resp.thy ===== *)
theory Resp
  imports Cxx_Numbers
begin

text \<open>
  The frame format of the append-only file: \<^verbatim>\<open>Aof::serializeToRESP\<close>, \<^verbatim>\<open>Aof::findCRLF\<close> and
  \<^verbatim>\<open>Aof::tryParseRESPArray\<close> of \<^verbatim>\<open>src/src/common/aof.cpp\<close>.  The parser's out-parameters are
  returned as a triple (the \<^verbatim>\<open>bool\<close> result, \<open>parts\<close>, \<open>consumed\<close>); the exception of
  \<^verbatim>\<open>parts.reserve\<close> on a negative count, which no handler encloses, is the \<open>Inl\<close> case.
  The theory proves the round trip, that a verdict on a prefix of the stream is never revised
  when more bytes arrive, and from the two that no proper prefix of a frame parses.  These laws
  are the interface \<open>frame_codec\<close>, on which the log readers rest.
\<close>

section \<open>Writing a frame\<close>

definition bulk :: "string \<Rightarrow> string" where
  "bulk p = CHR ''$'' # to_string (length p) @ crlf @ p @ crlf"

definition serializeToRESP :: "string list \<Rightarrow> string" where
  "serializeToRESP parts =
     CHR ''*'' # to_string (length parts) @ crlf @ concat (map bulk parts)"

section \<open>Reading a frame\<close>

text \<open>The scan for the line end, from position \<open>i\<close> on.\<close>

function findCRLF :: "string \<Rightarrow> nat \<Rightarrow> nat option" where
  "findCRLF buf i =
     (if i + 1 < length buf
      then if buf ! i = CR \<and> buf ! (i + 1) = LF then Some i else findCRLF buf (i + 1)
      else None)"
  by pat_completeness auto
termination
  by (relation "measure (\<lambda>(buf, i). length buf - i)") auto

declare findCRLF.simps [simp del]

text \<open>The lambda \<^verbatim>\<open>need\<close>: are \<open>n\<close> more bytes available at \<open>pos\<close>?\<close>

definition need :: "string \<Rightarrow> nat \<Rightarrow> nat \<Rightarrow> bool" where
  "need buf pos n \<longleftrightarrow> pos + n \<le> length buf"

text \<open>The loop over the bulk strings; \<open>n\<close> is the number of iterations left.\<close>

fun parse_bulks :: "string \<Rightarrow> nat \<Rightarrow> nat \<Rightarrow> string list \<Rightarrow> bool \<times> string list \<times> nat" where
  "parse_bulks buf 0 pos parts = (True, parts, pos)"
| "parse_bulks buf (Suc n) pos parts =
     (if \<not> need buf pos 1 then (False, parts, 0)
      else if buf ! pos \<noteq> CHR ''$'' then (False, parts, 0)
      else case findCRLF buf (pos + 1) of
        None \<Rightarrow> (False, parts, 0)
      | Some rn2 \<Rightarrow>
          (case stol (substr buf (pos + 1) (rn2 - (pos + 1))) of
             Inl _ \<Rightarrow> (False, parts, 0)
           | Inr slen \<Rightarrow>
               if slen < 0 then parse_bulks buf n (rn2 + 2) (parts @ [[]])
               else if \<not> need buf (rn2 + 2) (nat slen + 2) then (False, parts, 0)
               else
                 let parts' = parts @ [substr buf (rn2 + 2) (nat slen)];
                     pos' = rn2 + 2 + nat slen
                 in if \<not> need buf pos' 2 then (False, parts', 0)
                    else if buf ! pos' \<noteq> CR \<or> buf ! (pos' + 1) \<noteq> LF then (False, parts', 0)
                    else parse_bulks buf n (pos' + 2) parts'))"

definition tryParseRESPArray :: "string \<Rightarrow> (bool \<times> string list \<times> nat) exn_or" where
  "tryParseRESPArray buf =
     (if \<not> need buf 0 1 then Inr (False, [], 0)
      else if buf ! 0 \<noteq> CHR ''*'' then Inr (False, [], 0)
      else case findCRLF buf 1 of
        None \<Rightarrow> Inr (False, [], 0)
      | Some rn \<Rightarrow>
          (case stoi (substr buf 1 (rn - 1)) of
             Inl _ \<Rightarrow> Inr (False, [], 0)
           | Inr num \<Rightarrow>
               if num < 0 then Inl Length_error
               else Inr (parse_bulks buf (nat num) (rn + 2) [])))"

section \<open>The line scan\<close>

lemma findCRLF_SomeD:
  "findCRLF buf i = Some r \<Longrightarrow> i \<le> r \<and> r + 1 < length buf \<and> buf ! r = CR \<and> buf ! (r + 1) = LF"
  by (induction buf i rule: findCRLF.induct)
    (subst (asm) findCRLF.simps, force split: if_splits)

lemma findCRLF_extend:
  "findCRLF buf i = Some r \<Longrightarrow> findCRLF (buf @ ext) i = Some r"
proof (induction buf i rule: findCRLF.induct)
  case (1 buf i)
  from "1.prems" have i: "i + 1 < length buf"
    by (subst (asm) findCRLF.simps) (simp split: if_splits)
  show ?case
  proof (cases "buf ! i = CR \<and> buf ! (i + 1) = LF")
    case True
    with "1.prems" i have "r = i"
      by (subst (asm) findCRLF.simps) simp
    with i True show ?thesis
      by (subst findCRLF.simps) (simp add: nth_append)
  next
    case False
    with "1.prems" i have "findCRLF buf (i + 1) = Some r"
      by (subst (asm) findCRLF.simps) (auto split: if_splits)
    with "1.IH" i False have "findCRLF (buf @ ext) (i + 1) = Some r" by simp
    with i False show ?thesis
      by (auto simp: findCRLF.simps [of "buf @ ext" i] nth_append)
  qed
qed

text \<open>Where no carriage return precedes the line end, the scan finds exactly that line end.\<close>

lemma findCRLF_line [buf_simps]:
  "CR \<notin> set ds \<Longrightarrow> findCRLF (xs @ ds @ CR # LF # ys) (length xs) = Some (length xs + length ds)"
proof (induction ds arbitrary: xs)
  case Nil
  show ?case by (subst findCRLF.simps) (simp add: nth_append)
next
  case (Cons d ds)
  have "findCRLF ((xs @ [d]) @ ds @ CR # LF # ys) (length (xs @ [d])) =
      Some (length (xs @ [d]) + length ds)"
    using Cons.prems by (intro Cons.IH) simp
  with Cons.prems show ?case
    by (subst findCRLF.simps) (auto simp: nth_append)
qed

section \<open>Verdicts are stable and bounded\<close>

text \<open>
  One accepted bulk string: the loop moves on from a later position inside the buffer, and it
  does the same on every extension of the buffer.
\<close>

lemma parse_bulks_Suc_accepts:
  assumes "parse_bulks buf (Suc n) pos parts = (True, ps, c)"
  obtains p pos' where "pos < pos'" and "pos' \<le> length buf"
    and "parse_bulks buf n pos' (parts @ [p]) = (True, ps, c)"
    and "\<And>ext. parse_bulks (buf @ ext) (Suc n) pos parts = parse_bulks (buf @ ext) n pos' (parts @ [p])"
proof -
  from assms obtain rn2 slen where need1: "pos + 1 \<le> length buf" "buf ! pos = CHR ''$''"
    and rn2: "findCRLF buf (pos + 1) = Some rn2"
    and slen: "stol (substr buf (pos + 1) (rn2 - (pos + 1))) = Inr slen"
    by (auto simp: need_def split: if_splits option.splits sum.splits)
  from findCRLF_SomeD [OF rn2] have b: "pos + 1 \<le> rn2" "rn2 + 1 < length buf" by auto
  note ext_rn2 = findCRLF_extend [OF rn2]
  have ext_str: "substr (buf @ ext) (pos + 1) (rn2 - (pos + 1)) = substr buf (pos + 1) (rn2 - (pos + 1))"
    for ext using b by (intro substr_extend) simp
  show thesis
  proof (cases "slen < 0")
    case True
    have "parse_bulks buf n (rn2 + 2) (parts @ [[]]) = (True, ps, c)"
      using assms need1 rn2 slen True by (simp add: need_def)
    moreover have "parse_bulks (buf @ ext) (Suc n) pos parts
        = parse_bulks (buf @ ext) n (rn2 + 2) (parts @ [[]])" for ext
      using need1 ext_rn2 ext_str slen True by (simp add: need_def nth_append)
    ultimately show thesis using b by (intro that) auto
  next
    case False
    define p where "p = substr buf (rn2 + 2) (nat slen)"
    define pos' where "pos' = rn2 + 2 + nat slen"
    have fits: "pos' + 2 \<le> length buf" "buf ! pos' = CR" "buf ! (pos' + 1) = LF"
      and rest: "parse_bulks buf n (pos' + 2) (parts @ [p]) = (True, ps, c)"
      using assms need1 rn2 slen False
      by (auto simp: need_def Let_def p_def pos'_def split: if_splits)
    have "substr (buf @ ext) (rn2 + 2) (nat slen) = p" for ext
      using fits unfolding p_def pos'_def by (intro substr_extend) simp
    then have "parse_bulks (buf @ ext) (Suc n) pos parts
        = parse_bulks (buf @ ext) n (pos' + 2) (parts @ [p])" for ext
      using need1 ext_rn2 ext_str slen False fits
      by (simp add: need_def Let_def nth_append pos'_def)
    with rest fits b show thesis by (intro that [of "pos' + 2" p]) (auto simp: pos'_def)
  qed
qed

lemma parse_bulks_bounds:
  "parse_bulks buf n pos parts = (True, ps, c) \<Longrightarrow> pos \<le> length buf \<Longrightarrow>
     pos \<le> c \<and> c \<le> length buf \<and> length ps = length parts + n"
proof (induction n arbitrary: pos parts)
  case (Suc n)
  from Suc.prems(1) show ?case
    by (rule parse_bulks_Suc_accepts) (use Suc.IH in fastforce)
qed simp

lemma parse_bulks_extend:
  "parse_bulks buf n pos parts = (True, ps, c) \<Longrightarrow>
   parse_bulks (buf @ ext) n pos parts = (True, ps, c)"
proof (induction n arbitrary: pos parts)
  case (Suc n)
  from Suc.prems show ?case
    by (rule parse_bulks_Suc_accepts) (use Suc.IH in simp)
qed simp

text \<open>What a call of the parser can return, in the terms its callers use.\<close>

lemma tryParse_cases:
  assumes "tryParseRESPArray buf = r"
  obtains (reject) "r = Inr (False, [], 0)"
  | (raise) rn num where "findCRLF buf 1 = Some rn" "buf \<noteq> []" "buf ! 0 = CHR ''*''"
      "stoi (substr buf 1 (rn - 1)) = Inr num" "num < 0" "r = Inl Length_error"
  | (bulks) rn num where "findCRLF buf 1 = Some rn" "buf \<noteq> []" "buf ! 0 = CHR ''*''"
      "stoi (substr buf 1 (rn - 1)) = Inr num" "0 \<le> num"
      "r = Inr (parse_bulks buf (nat num) (rn + 2) [])"
  using assms unfolding tryParseRESPArray_def
  by (auto simp: need_def Suc_le_eq split: if_splits option.splits sum.splits)

lemma tryParse_consumed:
  assumes "tryParseRESPArray buf = Inr (True, parts, consumed)"
  shows "0 < consumed" and "consumed \<le> length buf"
proof -
  from assms have "0 < consumed \<and> consumed \<le> length buf"
  proof (cases rule: tryParse_cases)
    case (bulks rn num)
    from findCRLF_SomeD [OF bulks(1)] have "rn + 2 \<le> length buf" by simp
    with bulks parse_bulks_bounds [of buf "nat num" "rn + 2" "[]" parts consumed]
    show ?thesis by simp
  qed simp_all
  then show "0 < consumed" "consumed \<le> length buf" by simp_all
qed

lemma tryParse_reject_consumed:
  "tryParseRESPArray buf = Inr (False, parts, consumed) \<Longrightarrow> consumed = 0"
proof -
  have *: "parse_bulks buf n pos ps = (False, parts, consumed) \<Longrightarrow> consumed = 0" for n pos ps
    by (induction buf n pos ps rule: parse_bulks.induct)
      (auto simp: Let_def split: if_splits option.splits sum.splits)
  assume "tryParseRESPArray buf = Inr (False, parts, consumed)"
  then show ?thesis
    by (cases rule: tryParse_cases) (auto dest: * sym)
qed

lemma tryParse_extend_Inr:
  assumes "tryParseRESPArray buf = Inr (True, parts, consumed)"
  shows "tryParseRESPArray (buf @ ext) = Inr (True, parts, consumed)"
  using assms
proof (cases rule: tryParse_cases)
  case (bulks rn num)
  have "substr (buf @ ext) 1 (rn - 1) = substr buf 1 (rn - 1)"
    using findCRLF_SomeD [OF bulks(1)] by (intro substr_extend) simp
  moreover from bulks have "parse_bulks (buf @ ext) (nat num) (rn + 2) [] = (True, parts, consumed)"
    by (intro parse_bulks_extend) simp
  ultimately show ?thesis
    using bulks findCRLF_extend [OF bulks(1), of ext]
    by (simp add: tryParseRESPArray_def need_def nth_append Suc_le_eq)
qed simp_all

lemma tryParse_extend_Inl:
  assumes "tryParseRESPArray buf = Inl e"
  shows "tryParseRESPArray (buf @ ext) = Inl e"
  using assms
proof (cases rule: tryParse_cases)
  case (raise rn num)
  have "substr (buf @ ext) 1 (rn - 1) = substr buf 1 (rn - 1)"
    using findCRLF_SomeD [OF raise(1)] by (intro substr_extend) simp
  with raise findCRLF_extend [OF raise(1), of ext] show ?thesis
    by (simp add: tryParseRESPArray_def need_def nth_append Suc_le_eq)
qed simp_all

section \<open>Round trip\<close>

text \<open>The commands a frame can carry: the counts must fit the types the parser reads them into.\<close>

definition resp_ok :: "string list \<Rightarrow> bool" where
  "resp_ok parts \<longleftrightarrow> length parts < 2 ^ 31 \<and> list_all (\<lambda>p. length p < 2 ^ 63) parts"

lemma parse_bulks_concat:
  "list_all (\<lambda>p. length p < 2 ^ 63) parts \<Longrightarrow>
   parse_bulks (pre @ concat (map bulk parts) @ post) (length parts) (length pre) acc =
     (True, acc @ parts, length pre + length (concat (map bulk parts)))"
proof (induction parts arbitrary: pre acc)
  case (Cons p parts)
  let ?ds = "to_string (length p)"
  define rest where "rest = concat (map bulk parts) @ post"
  let ?buf = "pre @ concat (map bulk (p # parts)) @ post"
  let ?pos = "length pre + 1 + length ?ds + 2"
  have buf1: "?buf = (pre @ ''$'') @ ?ds @ CR # LF # (p @ crlf @ rest)"
    and buf2: "?buf = (pre @ ''$'' @ ?ds @ crlf) @ p @ crlf @ rest"
    and buf3: "?buf = (pre @ ''$'' @ ?ds @ crlf @ p) @ CR # LF # rest"
    and buf4: "?buf = (pre @ bulk p) @ concat (map bulk parts) @ post"
    by (simp_all add: bulk_def rest_def)
  have at0: "?buf ! length pre = CHR ''$''"
    unfolding buf1 by (simp add: nth_append)
  have fc: "findCRLF ?buf (length pre + 1) = Some (length pre + 1 + length ?ds)"
    unfolding buf1 using findCRLF_line [of ?ds "pre @ ''$''" "p @ crlf @ rest"] to_string_no_special
    by simp
  have ls: "substr ?buf (length pre + 1) (length ?ds) = ?ds"
    unfolding buf1 using substr_append [of "pre @ ''$''" ?ds] by simp
  have ps: "substr ?buf ?pos (length p) = p"
    unfolding buf2 using substr_append [of "pre @ ''$'' @ ?ds @ crlf" p "crlf @ rest"] by simp
  have at1: "?buf ! (?pos + length p) = CR" "?buf ! (?pos + length p + 1) = LF"
    unfolding buf3 by (simp_all add: nth_append)
  have len: "?pos + length p + 2 \<le> length ?buf" unfolding buf2 by simp
  have nxt: "?pos + length p + 2 = length (pre @ bulk p)" by (simp add: bulk_def)
  from Cons.prems have "stol ?ds = Inr (int (length p))" by (simp add: stol_to_string)
  then have "parse_bulks ?buf (length (p # parts)) (length pre) acc
      = parse_bulks ?buf (length parts) (?pos + length p + 2) (acc @ [p])"
    using at0 fc ls ps at1 len by (simp add: need_def Let_def)
  also have "\<dots> = (True, (acc @ [p]) @ parts, length (pre @ bulk p) + length (concat (map bulk parts)))"
    unfolding nxt unfolding buf4 using Cons.prems by (intro Cons.IH) simp
  finally show ?case by simp
qed simp

lemma tryParse_serialize:
  assumes "resp_ok parts"
  shows "tryParseRESPArray (serializeToRESP parts @ rest)
    = Inr (True, parts, length (serializeToRESP parts))"
proof -
  let ?ds = "to_string (length parts)"
  let ?buf = "serializeToRESP parts @ rest"
  have buf: "?buf = ''*'' @ ?ds @ CR # LF # (concat (map bulk parts) @ rest)"
    and buf': "?buf = (''*'' @ ?ds @ crlf) @ concat (map bulk parts) @ rest"
    by (simp_all add: serializeToRESP_def)
  have fc: "findCRLF ?buf 1 = Some (1 + length ?ds)"
    unfolding buf using findCRLF_line [of ?ds "''*''"] to_string_no_special by simp
  have ns: "substr ?buf 1 (length ?ds) = ?ds"
    unfolding buf using substr_append [of "''*''" ?ds] by simp
  have "stoi ?ds = Inr (int (length parts))"
    using assms by (simp add: resp_ok_def stoi_to_string)
  moreover have "parse_bulks ?buf (length parts) (length (''*'' @ ?ds @ crlf)) []
      = (True, [] @ parts, length (''*'' @ ?ds @ crlf) + length (concat (map bulk parts)))"
    unfolding buf' using assms by (intro parse_bulks_concat) (simp add: resp_ok_def)
  ultimately show ?thesis
    using fc ns by (simp add: tryParseRESPArray_def need_def serializeToRESP_def)
qed

section \<open>The interface to the log readers\<close>

text \<open>
  A frame codec: what the readers of a stream of frames need to know of the frame format.
  \<open>dec\<close> returns the frame at the front of the buffer and its size, or nothing when it is not
  complete.
\<close>

locale frame_codec =
  fixes enc :: "'f \<Rightarrow> 'b list"
    and dec :: "'b list \<Rightarrow> ('f \<times> nat) option"
    and ok :: "'f \<Rightarrow> bool"
  assumes dec_enc: "ok f \<Longrightarrow> dec (enc f @ rest) = Some (f, length (enc f))"
    and dec_extend: "dec buf = Some (f, n) \<Longrightarrow> dec (buf @ ext) = Some (f, n)"
    and dec_size: "dec buf = Some (f, n) \<Longrightarrow> 0 < n \<and> n \<le> length buf"
begin

lemma enc_nonempty: "ok f \<Longrightarrow> enc f \<noteq> []"
  using dec_enc [of f "[]"] dec_size [of "enc f" f "length (enc f)"] by auto

lemma dec_proper_prefix:
  assumes "ok f" and "n < length (enc f)"
  shows "dec (take n (enc f)) = None"
proof (rule ccontr)
  assume "dec (take n (enc f)) \<noteq> None"
  then obtain g m where d: "dec (take n (enc f)) = Some (g, m)" by auto
  from dec_extend [OF d, of "drop n (enc f)"] have "dec (enc f) = Some (g, m)" by simp
  with dec_enc [OF assms(1), of "[]"] have "m = length (enc f)" by simp
  with dec_size [OF d] assms(2) show False by simp
qed

lemma enc_prefix_free:
  assumes "ok f" and "ok g" and "enc g = enc f @ ext"
  shows "f = g"
  using dec_enc [OF assms(1), of ext] dec_enc [OF assms(2), of "[]"] assms(3) by simp

lemma dec_partial_stream:
  assumes "ok f" and "n < length (enc f)" and "take m (take n (enc f)) = buf"
  shows "dec buf = None"
  using dec_proper_prefix [of f "min m n"] assms by (simp add: min.commute)

end

definition resp_dec :: "string \<Rightarrow> (string list \<times> nat) option" where
  "resp_dec buf =
     (case tryParseRESPArray buf of Inr (True, parts, consumed) \<Rightarrow> Some (parts, consumed) | _ \<Rightarrow> None)"

lemma resp_dec_Some_iff:
  "resp_dec buf = Some (parts, n) \<longleftrightarrow> tryParseRESPArray buf = Inr (True, parts, n)"
  by (auto simp: resp_dec_def split: sum.splits prod.splits bool.splits)

interpretation resp: frame_codec serializeToRESP resp_dec resp_ok
  by unfold_locales
    (simp_all add: resp_dec_Some_iff tryParse_serialize tryParse_extend_Inr tryParse_consumed)

text \<open>
  On a proper prefix of a frame the parser asks for more data: it neither accepts nor raises.
\<close>

lemma tryParse_proper_prefix:
  assumes "resp_ok c" and "n < length (serializeToRESP c)"
  shows "\<exists>ps. tryParseRESPArray (take n (serializeToRESP c)) = Inr (False, ps, 0)"
proof (cases "tryParseRESPArray (take n (serializeToRESP c))")
  case (Inl e)
  from tryParse_extend_Inl [OF Inl, of "drop n (serializeToRESP c)"]
  show ?thesis using tryParse_serialize [OF assms(1), of "[]"] by simp
next
  case (Inr r)
  obtain b ps m where r: "r = (b, ps, m)" by (cases r) auto
  from resp.dec_proper_prefix [OF assms] Inr r have "\<not> b"
    by (auto simp: resp_dec_def split: bool.splits)
  with Inr r tryParse_reject_consumed show ?thesis by auto
qed

section \<open>Properties\<close>

text \<open>
  C11: parsing what \<^verbatim>\<open>serializeToRESP\<close> wrote, followed by anything, returns exactly the parts that
  were written and consumes exactly the frame, for every command whose counts fit an \<^verbatim>\<open>int\<close> and a
  \<^verbatim>\<open>long\<close>.
\<close>

theorem resp_round_trip:
  assumes "resp_ok parts"
  shows "tryParseRESPArray (serializeToRESP parts @ rest)
    = Inr (True, parts, length (serializeToRESP parts))"
  using assms by (rule tryParse_serialize)

theorem resp_round_trip_witness:
  "resp_ok [''SET'', ''k'', [CR, LF, TAB]] \<and>
   tryParseRESPArray (serializeToRESP [''SET'', ''k'', [CR, LF, TAB]] @ ''*1'')
    = Inr (True, [''SET'', ''k'', [CR, LF, TAB]], length (serializeToRESP [''SET'', ''k'', [CR, LF, TAB]]))"
proof -
  have ok: "resp_ok [''SET'', ''k'', [CR, LF, TAB]]" by (simp add: resp_ok_def)
  show ?thesis using resp_round_trip [OF ok, of "''*1''"] ok by blast
qed



text \<open>
  An accepted frame is final: it lies inside the buffer, has at least one byte, and stays the
  parser's answer whatever bytes arrive later.
\<close>

theorem resp_accept_final:
  assumes "tryParseRESPArray buf = Inr (True, parts, consumed)"
  shows "0 < consumed \<and> consumed \<le> length buf \<and>
    tryParseRESPArray (buf @ later) = Inr (True, parts, consumed)"
  using assms tryParse_consumed tryParse_extend_Inr by blast

theorem resp_accept_final_witness:
  "tryParseRESPArray (''*0'' @ crlf @ ''junk'') = Inr (True, [], 4)"
proof -
  have "tryParseRESPArray (''*0'' @ crlf) = Inr (True, [], 4)" by code_simp
  from resp_accept_final [OF this, of "''junk''"] show ?thesis by simp
qed

text \<open>
  A frame header with a negative count makes the parser raise \<^verbatim>\<open>std::length_error\<close> out of
  \<^verbatim>\<open>parts.reserve\<close> instead of returning false, for every negative \<^verbatim>\<open>int\<close> and whatever follows.
\<close>

theorem resp_negative_count_raises:
  assumes "0 < n" and "n \<le> 2 ^ 31"
  shows "tryParseRESPArray (''*-'' @ to_string n @ crlf @ rest) = Inl Length_error"
proof -
  let ?ds = "CHR ''-'' # to_string n"
  let ?buf = "''*'' @ ?ds @ CR # LF # rest"
  have tw: "takeWhile is_digit (to_string n) = to_string n"
    using to_string_digits by (auto intro: takeWhile_eq_all_conv [THEN iffD2])
  have "findCRLF ?buf 1 = Some (1 + length ?ds)"
    using findCRLF_line [of ?ds "''*''"] to_string_no_special by simp
  moreover have "substr ?buf 1 (length ?ds) = ?ds"
    using substr_append [of "''*''" ?ds] by simp
  moreover have "stoi ?ds = Inr (- int n)"
    using assms
    by (simp add: stoi_def sto_signed_def read_number_def is_space_def Let_def tw digits_value_to_string)
  ultimately show ?thesis
    using assms(1) by (simp add: tryParseRESPArray_def need_def)
qed

theorem resp_negative_count_raises_witness:
  "tryParseRESPArray (''*-'' @ to_string 1 @ crlf @ []) = Inl Length_error"
  by (rule resp_negative_count_raises) simp_all

end
