(* ===== verification/Protocol.thy ===== *)
theory Protocol
  imports Socket_IO Resp
begin

text \<open>
  The replication protocol of \<^verbatim>\<open>src/src/replica/protocol.h\<close>: the entity and its byte form, the message
  with its header, sending and receiving over a socket, the heartbeat loop and the acknowledgement.
  The byte order of the host is the argument \<open>en\<close>; unaligned loads are taken to work, as they do on
  the supported platforms.  The entity codec is shown to be exact in both directions and independent
  of the host; messages are shown to arrive whole over every splitting of the stream, except for the
  header fields that the receiver reads wrongly.
\<close>

section \<open>Message types and entities\<close>

text \<open>The enumeration has a fixed underlying type, so any byte is a value of it.\<close>

type_synonym MessageType = u8

definition FULL_SYNC :: MessageType where "FULL_SYNC = 0x01"
definition INCR_SYNC :: MessageType where "INCR_SYNC = 0x02"
definition HEARTBEAT :: MessageType where "HEARTBEAT = 0x03"
definition ACK :: MessageType where "ACK = 0x04"

lemmas message_types = FULL_SYNC_def INCR_SYNC_def HEARTBEAT_def ACK_def

record DataEntity =
  de_sequence :: u64
  de_key :: string
  de_value :: string
  de_cmd :: string

definition DataEntity_init :: DataEntity where
  "DataEntity_init = \<lparr>de_sequence = 0, de_key = [], de_value = [], de_cmd = []\<rparr>"

definition appendBytes :: "u8 list \<Rightarrow> u8 list \<Rightarrow> u8 list" where
  "appendBytes buf p = buf @ p"

text \<open>A string field: its size cut to 32 bits, in network order, and its bytes.\<close>

definition append_field :: "endian \<Rightarrow> string \<Rightarrow> u8 list \<Rightarrow> u8 list" where
  "append_field en s buf =
     appendBytes (appendBytes buf (mem_bytes en 4 (host_be en 4 (of_nat (length s) :: u32)))) (bytes_of s)"

definition serialize :: "endian \<Rightarrow> DataEntity \<Rightarrow> u8 list" where
  "serialize en e =
     (let buf0 = appendBytes [] (mem_bytes en 8 (host_be en 8 (de_sequence e)));
          buf1 = append_field en (de_cmd e) buf0;
          buf2 = append_field en (de_key e) buf1
      in append_field en (de_value e) buf2)"

definition read_field :: "endian \<Rightarrow> u8 list \<Rightarrow> nat \<Rightarrow> (string \<times> nat) option" where
  "read_field en data off =
     (if length data < off + 4 then None
      else
        let len = unat (host_be en 4 (mem_value en (take 4 (drop off data)) :: u32)); off1 = off + 4
        in if length data < off1 + len then None
           else Some (string_of (take len (drop off1 data)), off1 + len))"

text \<open>A failing \<^verbatim>\<open>deserialize\<close> has already assigned the fields it could read.\<close>

definition deserialize :: "endian \<Rightarrow> u8 list \<Rightarrow> DataEntity \<Rightarrow> bool \<times> DataEntity" where
  "deserialize en data e =
     (if length data < 8 then (False, e)
      else
        let e1 = e\<lparr>de_sequence := host_be en 8 (mem_value en (take 8 data))\<rparr>
        in case read_field en data 8 of
          None \<Rightarrow> (False, e1)
        | Some (c, off1) \<Rightarrow>
            let e2 = e1\<lparr>de_cmd := c\<rparr>
            in case read_field en data off1 of
              None \<Rightarrow> (False, e2)
            | Some (k, off2) \<Rightarrow>
                let e3 = e2\<lparr>de_key := k\<rparr>
                in case read_field en data off2 of
                  None \<Rightarrow> (False, e3)
                | Some (v, off3) \<Rightarrow> (True, e3\<lparr>de_value := v\<rparr>))"

section \<open>The entity codec\<close>

text \<open>The wire form, without reference to the host.\<close>

definition be_field :: "string \<Rightarrow> u8 list" where
  "be_field s = rev (le_bytes 4 (unat (of_nat (length s) :: u32))) @ bytes_of s"

definition entity_bytes :: "DataEntity \<Rightarrow> u8 list" where
  "entity_bytes e =
     rev (le_bytes 8 (unat (de_sequence e))) @ be_field (de_cmd e) @ be_field (de_key e) @ be_field (de_value e)"

definition entity_ok :: "DataEntity \<Rightarrow> bool" where
  "entity_ok e \<longleftrightarrow> length (de_cmd e) < 2 ^ 32 \<and> length (de_key e) < 2 ^ 32 \<and> length (de_value e) < 2 ^ 32"

lemma serialize_bytes: "serialize en e = entity_bytes e"
  by (simp add: serialize_def entity_bytes_def be_field_def append_field_def appendBytes_def Let_def
      mem_bytes_host_be)

lemma length_be_field [simp]: "length (be_field s) = 4 + length s"
  by (simp add: be_field_def)

lemma read_field_iff:
  assumes "off \<le> length data"
  shows "read_field en data off = Some (s, off') \<longleftrightarrow>
    length s < 2 ^ 32 \<and> off' = off + 4 + length s \<and> (\<exists>rest. drop off data = be_field s @ rest)"
proof -
  define bs where "bs = drop off data"
  define len where "len = unat (host_be en 4 (mem_value en (take 4 bs) :: u32))"
  have len: "len = le_value (rev (take 4 bs))" if "4 \<le> length bs"
    using that by (simp add: len_def unat_host_be_mem_value)
  have rf: "read_field en data off = Some (s, off') \<longleftrightarrow>
      4 \<le> length bs \<and> 4 + len \<le> length bs \<and> s = string_of (take len (drop 4 bs)) \<and> off' = off + 4 + len"
    using assms by (auto simp: read_field_def Let_def bs_def len_def add.commute split: if_splits)
  show ?thesis unfolding rf bs_def [symmetric]
  proof (intro iffI; elim conjE exE)
    assume a: "4 \<le> length bs" "4 + len \<le> length bs" "s = string_of (take len (drop 4 bs))" "off' = off + 4 + len"
    have s: "length s = len" using a by auto
    have b: "len < 2 ^ 32" using le_value_bound [of "rev (take 4 bs)"] a(1) len by simp
    have "rev (le_bytes 4 len) = take 4 bs"
      using le_bytes_le_value [of "rev (take 4 bs)" 4] a(1) len by (simp del: le_bytes.simps)
    moreover have "bytes_of s = take len (drop 4 bs)" using a(3) by (simp add: byte_simps)
    ultimately have "be_field s = take (4 + len) bs"
      using s b by (simp add: be_field_def unat_of_nat take_add del: le_bytes.simps)
    then have "bs = be_field s @ drop (4 + len) bs" by simp
    with s b a(4) show "length s < 2 ^ 32 \<and> off' = off + 4 + length s \<and> (\<exists>rest. bs = be_field s @ rest)" by auto
  next
    fix rest
    assume a: "length s < 2 ^ 32" "off' = off + 4 + length s" "bs = be_field s @ rest"
    have t: "take 4 bs = rev (le_bytes 4 (length s))" "drop 4 bs = bytes_of s @ rest"
      using a(1,3) by (simp_all add: be_field_def unat_of_nat del: le_bytes.simps)
    have "4 \<le> length bs" using a(3) by simp
    with len have "len = length s" using a(1) by (simp add: t byte_simps del: le_bytes.simps)
    with a t show "4 \<le> length bs \<and> 4 + len \<le> length bs \<and> s = string_of (take len (drop 4 bs)) \<and> off' = off + 4 + len"
      by (simp add: byte_simps)
  qed
qed


lemma deserialize_fields:
  "deserialize en data e0 = (True, e) \<longleftrightarrow>
     8 \<le> length data \<and> de_sequence e = host_be en 8 (mem_value en (take 8 data))
     \<and> (\<exists>off1 off2 off3. read_field en data 8 = Some (de_cmd e, off1)
          \<and> read_field en data off1 = Some (de_key e, off2) \<and> read_field en data off2 = Some (de_value e, off3))"
  by (cases e; cases e0) (auto simp: deserialize_def Let_def split: option.splits)

lemma sequence_bytes:
  assumes "8 \<le> length data"
  shows "s = host_be en 8 (mem_value en (take 8 data) :: u64) \<longleftrightarrow> take 8 data = rev (le_bytes 8 (unat s))"
proof -
  have u: "unat (host_be en 8 (mem_value en (take 8 data) :: u64)) = le_value (rev (take 8 data))"
    using assms by (intro unat_host_be_mem_value) simp_all
  have "take 8 data = rev (le_bytes 8 (le_value (rev (take 8 data))))"
    using assms by (simp add: byte_simps del: le_bytes.simps)
  moreover have "host_be en 8 (mem_value en (rev (le_bytes 8 (unat s)))) = s"
    by (simp add: host_be_mem_value del: le_bytes.simps)
  ultimately show ?thesis using u by (auto simp del: le_bytes.simps)
qed

lemma deserialize_iff:
  "deserialize en data e0 = (True, e) \<longleftrightarrow> entity_ok e \<and> (\<exists>rest. data = entity_bytes e @ rest)"
proof
  assume "deserialize en data e0 = (True, e)"
  then obtain off1 off2 off3 where d: "8 \<le> length data"
    "de_sequence e = host_be en 8 (mem_value en (take 8 data))"
    "read_field en data 8 = Some (de_cmd e, off1)" "read_field en data off1 = Some (de_key e, off2)"
    "read_field en data off2 = Some (de_value e, off3)"
    by (auto simp: deserialize_fields)
  from d(2) have t8: "take 8 data = rev (le_bytes 8 (unat (de_sequence e)))"
    using sequence_bytes [OF d(1)] by simp
  from d(3) read_field_iff [OF d(1), of en "de_cmd e" off1] obtain r1 where
    1: "length (de_cmd e) < 2 ^ 32" "off1 = 12 + length (de_cmd e)" "drop 8 data = be_field (de_cmd e) @ r1"
    by auto
  have data1: "data = take 8 data @ be_field (de_cmd e) @ r1" using 1(3) by (metis append_take_drop_id)
  have o1: "off1 \<le> length data" "drop off1 data = r1"
    using 1(2) d(1) by (subst data1, simp)+
  from d(4) read_field_iff [OF o1(1), of en "de_key e" off2] o1(2) obtain r2 where
    2: "length (de_key e) < 2 ^ 32" "off2 = off1 + 4 + length (de_key e)" "r1 = be_field (de_key e) @ r2"
    by auto
  have o2: "off2 \<le> length data" "drop off2 data = r2"
    using 1(2) 2(2,3) d(1) by (subst data1, simp)+
  from d(5) read_field_iff [OF o2(1), of en "de_value e" off3] o2(2) obtain r3 where
    3: "length (de_value e) < 2 ^ 32" "r2 = be_field (de_value e) @ r3"
    by auto
  have "data = entity_bytes e @ r3"
    by (subst data1) (simp add: entity_bytes_def t8 2(3) 3(2) del: le_bytes.simps)
  with 1(1) 2(1) 3(1) show "entity_ok e \<and> (\<exists>rest. data = entity_bytes e @ rest)"
    by (auto simp: entity_ok_def)
next
  assume "entity_ok e \<and> (\<exists>rest. data = entity_bytes e @ rest)"
  then obtain rest where ok: "entity_ok e" and data: "data = entity_bytes e @ rest" by blast
  define off1 off2 where "off1 = 12 + length (de_cmd e)" and "off2 = off1 + 4 + length (de_key e)"
  have len: "8 \<le> length data" "off1 \<le> length data" "off2 \<le> length data"
    by (simp_all add: data entity_bytes_def off1_def off2_def)
  have drops: "drop 8 data = be_field (de_cmd e) @ be_field (de_key e) @ be_field (de_value e) @ rest"
    "drop off1 data = be_field (de_key e) @ be_field (de_value e) @ rest"
    "drop off2 data = be_field (de_value e) @ rest"
    by (simp_all add: data entity_bytes_def off1_def off2_def del: le_bytes.simps)
  have "de_sequence e = host_be en 8 (mem_value en (take 8 data))"
    using sequence_bytes [OF len(1)] by (simp add: data entity_bytes_def del: le_bytes.simps)
  moreover have "read_field en data 8 = Some (de_cmd e, off1)"
    using ok drops(1) by (simp add: read_field_iff [OF len(1)] entity_ok_def off1_def)
  moreover have "read_field en data off1 = Some (de_key e, off2)"
    using ok drops(2) by (simp add: read_field_iff [OF len(2)] entity_ok_def off2_def)
  moreover have "read_field en data off2 = Some (de_value e, off2 + 4 + length (de_value e))"
    using ok drops(3) by (simp add: read_field_iff [OF len(3)] entity_ok_def)
  ultimately show "deserialize en data e0 = (True, e)" using len(1) by (auto simp: deserialize_fields)
qed

text \<open>The entity codec is a frame codec, like the one of the log.\<close>

definition entity_dec :: "endian \<Rightarrow> u8 list \<Rightarrow> (DataEntity \<times> nat) option" where
  "entity_dec en data =
     (case deserialize en data DataEntity_init of
        (True, e) \<Rightarrow> Some (e, length (serialize en e)) | (False, _) \<Rightarrow> None)"

lemma entity_dec_iff:
  "entity_dec en data = Some (e, n) \<longleftrightarrow>
     n = length (entity_bytes e) \<and> entity_ok e \<and> (\<exists>rest. data = entity_bytes e @ rest)"
  unfolding deserialize_iff [of en data DataEntity_init, symmetric]
  by (auto simp: entity_dec_def serialize_bytes split: prod.splits bool.splits)

lemma entity_bytes_nonempty: "entity_bytes e \<noteq> []"
proof -
  have "12 \<le> length (entity_bytes e)" by (simp add: entity_bytes_def)
  then show ?thesis by auto
qed

interpretation entity: frame_codec "serialize en" "entity_dec en" entity_ok for en
  by unfold_locales (auto simp: entity_dec_iff serialize_bytes entity_bytes_nonempty)


section \<open>Messages\<close>

record Message =
  msg_type :: MessageType
  msg_magic :: u16
  msg_len :: u64
  msg_offset :: u64
  msg_payload :: "u8 list"

definition Message_init :: Message where
  "Message_init = \<lparr>msg_type = ACK, msg_magic = 0x9798, msg_len = 0, msg_offset = 0, msg_payload = []\<rparr>"

definition fromDataEntity :: "endian \<Rightarrow> MessageType \<Rightarrow> DataEntity \<Rightarrow> Message" where
  "fromDataEntity en t e =
     Message_init\<lparr>msg_type := t, msg_offset := de_sequence e, msg_magic := 0x9798,
       msg_payload := serialize en e, msg_len := of_nat (length (serialize en e))\<rparr>"

definition toDataEntity :: "endian \<Rightarrow> Message \<Rightarrow> DataEntity \<Rightarrow> bool \<times> DataEntity" where
  "toDataEntity en m e = deserialize en (msg_payload m) e"

text \<open>Sending: one call of \<^verbatim>\<open>send_all\<close> for each field, until one fails.\<close>

definition message_pieces :: "endian \<Rightarrow> Message \<Rightarrow> u8 list list" where
  "message_pieces en m =
     [[msg_type m], [ucast (msg_offset m)], mem_bytes en 2 (host_be en 2 (msg_magic m)),
      mem_bytes en 8 (host_be en 8 (msg_len m))]
     @ (if msg_payload m = [] then [] else [msg_payload m])"

definition sendToSocket :: "endian \<Rightarrow> net \<Rightarrow> Message \<Rightarrow> sock \<Rightarrow> bool \<times> sock" where
  "sendToSocket en net m s = send_seq (send_all net) (message_pieces en m) s"

definition vector_resize :: "nat \<Rightarrow> u8 list \<Rightarrow> u8 list" where
  "vector_resize n p = take n p @ replicate (n - length p) 0"

text \<open>
  Receiving: the message after the fields assigned so far, the connection, and the result, which is
  an exception when the announced length is above \<open>max_size\<close>, the limit of the vector.  The one-byte
  offset and the two-byte magic number go through the conversion for eight-byte values.
\<close>

definition recvFromSocket ::
  "endian \<Rightarrow> nat \<Rightarrow> net \<Rightarrow> Message \<Rightarrow> sock \<Rightarrow> Message \<times> sock \<times> bool exn_or" where
  "recvFromSocket en max_size net msg s0 =
     (case recv_all net [0] s0 of
        (False, _, s1) \<Rightarrow> (msg, s1, Inr False)
      | (True, type_byte, s1) \<Rightarrow>
        let msg1 = msg\<lparr>msg_type := hd type_byte\<rparr> in
        case recv_all net [0] s1 of
          (False, _, s2) \<Rightarrow> (msg1, s2, Inr False)
        | (True, offset_byte, s2) \<Rightarrow>
          let msg2 = msg1\<lparr>msg_offset := host_be en 8 (ucast (hd offset_byte))\<rparr> in
          case recv_all net (replicate 2 0) s2 of
            (False, _, s3) \<Rightarrow> (msg2, s3, Inr False)
          | (True, magic_byte, s3) \<Rightarrow>
            let msg3 = msg2\<lparr>msg_magic :=
                  ucast (host_be en 8 (ucast (mem_value en magic_byte :: u16) :: u64))\<rparr> in
            case recv_all net (replicate 8 0) s3 of
              (False, _, s4) \<Rightarrow> (msg3, s4, Inr False)
            | (True, payload_len_net, s4) \<Rightarrow>
              let payload_len = unat (host_be en 8 (mem_value en payload_len_net :: u64)) in
              if max_size < payload_len then (msg3, s4, Inl Length_error)
              else
                let msg4 = msg3\<lparr>msg_payload := vector_resize payload_len (msg_payload msg3)\<rparr> in
                if payload_len = 0 then (msg4, s4, Inr True)
                else case recv_all net (msg_payload msg4) s4 of
                  (ok, payload, s5) \<Rightarrow> (msg4\<lparr>msg_payload := payload\<rparr>, s5, Inr ok))"

text \<open>
  The heartbeat thread leaves its loop when a heartbeat has been sent; the result says whether it has
  left the loop within the given number of rounds.
\<close>

fun start_heartbeat :: "endian \<Rightarrow> net \<Rightarrow> nat \<Rightarrow> sock \<Rightarrow> bool \<times> sock" where
  "start_heartbeat en net 0 s = (False, s)"
| "start_heartbeat en net (Suc rounds) s =
     (case sendToSocket en net (Message_init\<lparr>msg_type := HEARTBEAT\<rparr>) s of
        (True, s') \<Rightarrow> (True, s')
      | (False, s') \<Rightarrow> start_heartbeat en net rounds s')"

definition send_ack :: "endian \<Rightarrow> net \<Rightarrow> u64 \<Rightarrow> sock \<Rightarrow> bool \<times> sock" where
  "send_ack en net offset s = sendToSocket en net (Message_init\<lparr>msg_type := ACK\<rparr>) s"

section \<open>Messages on the wire\<close>

definition wire :: "Message \<Rightarrow> u8 list" where
  "wire m = msg_type m # ucast (msg_offset m) # rev (le_bytes 2 (unat (msg_magic m)))
     @ rev (le_bytes 8 (unat (msg_len m))) @ msg_payload m"

definition message_ok :: "nat \<Rightarrow> Message \<Rightarrow> bool" where
  "message_ok max_size m \<longleftrightarrow> unat (msg_len m) = length (msg_payload m) \<and> length (msg_payload m) \<le> max_size"

text \<open>What the receiver makes of the header fields.\<close>

definition received :: "endian \<Rightarrow> Message \<Rightarrow> Message \<Rightarrow> Message" where
  "received en m m0 = m0\<lparr>msg_type := msg_type m,
     msg_offset := host_be en 8 (ucast (ucast (msg_offset m) :: u8)),
     msg_magic := ucast (host_be en 8 (ucast (mem_value en (rev (le_bytes 2 (unat (msg_magic m)))) :: u16) :: u64)),
     msg_payload := msg_payload m\<rparr>"

lemma length_wire: "length (wire m) = 12 + length (msg_payload m)"
  by (simp add: wire_def)

lemma message_fields:
  "concat (message_pieces en m) = wire m"
  by (simp add: message_pieces_def wire_def mem_bytes_host_be del: le_bytes.simps)

lemma sendToSocket_good:
  assumes "\<forall>i. net_send net i \<noteq> None"
  shows "\<exists>s'. sendToSocket en net m s = (True, s') \<and> sock_tx s' = sock_tx s @ wire m \<and> sock_rx s' = sock_rx s"
proof -
  have "fst (sendToSocket en net m s) \<and> sock_tx (snd (sendToSocket en net m s)) = sock_tx s @ wire m
      \<and> sock_rx (snd (sendToSocket en net m s)) = sock_rx s"
    unfolding sendToSocket_def message_fields [of en m, symmetric] by (rule tcp.send_seq_good [OF assms])
  then show ?thesis by (cases "sendToSocket en net m s") auto
qed

lemma length_vector_resize [simp]: "length (vector_resize n p) = n"
  by (auto simp: vector_resize_def)


lemma recv_header:
  assumes good: "\<forall>i. net_recv net i \<noteq> None" and len: "length mg = 2" "length ln = 8"
    and rx: "sock_rx s = t # off # mg @ ln @ tail"
  shows "\<exists>s4. sock_rx s4 = tail \<and> sock_tx s4 = sock_tx s \<and> recvFromSocket en max_size net m0 s =
     (let msg3 = m0\<lparr>msg_type := t, msg_offset := host_be en 8 (ucast off),
            msg_magic := ucast (host_be en 8 (ucast (mem_value en mg :: u16) :: u64))\<rparr>;
          n = le_value (rev ln)
      in if max_size < n then (msg3, s4, Inl Length_error)
         else if n = 0 then (msg3\<lparr>msg_payload := []\<rparr>, s4, Inr True)
         else case recv_all net (vector_resize n (msg_payload m0)) s4 of
           (ok, payload, s5) \<Rightarrow> (msg3\<lparr>msg_payload := payload\<rparr>, s5, Inr ok))"
proof -
  obtain s1 where 1: "recv_all net [0] s = (True, [t], s1)" "sock_rx s1 = off # mg @ ln @ tail" "sock_tx s1 = sock_tx s"
    using tcp.recv_full [OF good, of "[0]" s] rx by auto
  obtain s2 where 2: "recv_all net [0] s1 = (True, [off], s2)" "sock_rx s2 = mg @ ln @ tail" "sock_tx s2 = sock_tx s"
    using tcp.recv_full [OF good, of "[0]" s1] 1 by auto
  obtain s3 where 3: "recv_all net (replicate 2 0) s2 = (True, mg, s3)" "sock_rx s3 = ln @ tail" "sock_tx s3 = sock_tx s"
    using tcp.recv_full [OF good, of "replicate 2 0" s2] 2 len by auto
  obtain s4 where 4: "recv_all net (replicate 8 0) s3 = (True, ln, s4)" "sock_rx s4 = tail" "sock_tx s4 = sock_tx s"
    using tcp.recv_full [OF good, of "replicate 8 0" s3] 3 len by auto
  have n: "unat (host_be en 8 (mem_value en ln :: u64)) = le_value (rev ln)"
    using len by (simp add: unat_host_be_mem_value)
  have v0: "vector_resize 0 p = []" for p by (simp add: vector_resize_def)
  show ?thesis
  proof (intro exI [of _ s4] conjI)
    show "recvFromSocket en max_size net m0 s =
     (let msg3 = m0\<lparr>msg_type := t, msg_offset := host_be en 8 (ucast off),
            msg_magic := ucast (host_be en 8 (ucast (mem_value en mg :: u16) :: u64))\<rparr>;
          n = le_value (rev ln)
      in if max_size < n then (msg3, s4, Inl Length_error)
         else if n = 0 then (msg3\<lparr>msg_payload := []\<rparr>, s4, Inr True)
         else case recv_all net (vector_resize n (msg_payload m0)) s4 of
           (ok, payload, s5) \<Rightarrow> (msg3\<lparr>msg_payload := payload\<rparr>, s5, Inr ok))"
      unfolding recvFromSocket_def 1(1) 2(1) prod.case bool.case Let_def 3(1) 4(1) n
      by (simp add: v0 split: prod.split)
  qed (fact 4)+
qed

lemma message_length_value: "le_value (rev (rev (le_bytes 8 (unat (w :: u64))))) = unat w"
proof -
  have "unat w < 2 ^ LENGTH(64)" by (rule unsigned_less)
  then show ?thesis by (simp add: byte_simps del: le_bytes.simps)
qed

text \<open>Receiving a whole message, and one whose payload is cut short by the end of the stream.\<close>

lemma recv_message:
  assumes "\<forall>i. net_recv net i \<noteq> None" and "message_ok max_size m" and "sock_rx s = wire m @ rest"
  shows "\<exists>s'. recvFromSocket en max_size net m0 s = (received en m m0, s', Inr True)
     \<and> sock_rx s' = rest \<and> sock_tx s' = sock_tx s"
proof -
  from recv_header [OF assms(1), of "rev (le_bytes 2 (unat (msg_magic m)))"
      "rev (le_bytes 8 (unat (msg_len m)))" s "msg_type m" "ucast (msg_offset m)" "msg_payload m @ rest" en max_size m0]
  obtain s4 where s4: "sock_rx s4 = msg_payload m @ rest" "sock_tx s4 = sock_tx s"
    and r: "recvFromSocket en max_size net m0 s =
      (if msg_payload m = [] then (received en m m0, s4, Inr True)
       else case recv_all net (vector_resize (length (msg_payload m)) (msg_payload m0)) s4 of
           (ok, payload, s5) \<Rightarrow> ((received en m m0)\<lparr>msg_payload := payload\<rparr>, s5, Inr ok))"
    using assms(2,3) message_length_value [of "msg_len m"]
    by (auto simp: wire_def message_ok_def received_def Let_def simp del: le_bytes.simps)
  show ?thesis
  proof (cases "msg_payload m = []")
    case True
    with s4 r show ?thesis by simp
  next
    case False
    obtain s5 where "recv_all net (vector_resize (length (msg_payload m)) (msg_payload m0)) s4 = (True, msg_payload m, s5)"
      "sock_rx s5 = rest" "sock_tx s5 = sock_tx s"
      using tcp.recv_full [OF assms(1), of "vector_resize (length (msg_payload m)) (msg_payload m0)" s4] s4 by auto
    with False r show ?thesis by (simp add: received_def)
  qed
qed

lemma recv_cut_message:
  assumes "\<forall>i. net_recv net i \<noteq> None" and "message_ok max_size m" and "k < length (msg_payload m)"
    and "sock_rx s = take (12 + k) (wire m)"
  shows "\<exists>s'. recvFromSocket en max_size net Message_init s
       = ((received en m Message_init)\<lparr>msg_payload := take k (msg_payload m) @ replicate (length (msg_payload m) - k) 0\<rparr>,
          s', Inr False)
     \<and> sock_rx s' = [] \<and> sock_tx s' = sock_tx s"
proof -
  have rx: "sock_rx s = msg_type m # ucast (msg_offset m) # rev (le_bytes 2 (unat (msg_magic m)))
     @ rev (le_bytes 8 (unat (msg_len m))) @ take k (msg_payload m)"
    using assms(4) by (simp add: wire_def take_Cons' del: le_bytes.simps)
  define buf where "buf = vector_resize (length (msg_payload m)) (msg_payload Message_init)"
  have buf: "buf = replicate (length (msg_payload m)) 0"
    by (simp add: buf_def vector_resize_def Message_init_def)
  have n: "le_value (rev (rev (le_bytes 8 (unat (msg_len m))))) = length (msg_payload m)"
    and ne: "msg_payload m \<noteq> []"
    using message_length_value [of "msg_len m"] assms(2,3) by (auto simp: message_ok_def simp del: le_bytes.simps)
  from recv_header [OF assms(1) _ _ rx, of en max_size Message_init, unfolded n Let_def] obtain s4 where
    s4: "sock_rx s4 = take k (msg_payload m)" "sock_tx s4 = sock_tx s"
    and r: "recvFromSocket en max_size net Message_init s =
      (case recv_all net buf s4 of
           (ok, payload, s5) \<Rightarrow> ((received en m Message_init)\<lparr>msg_payload := payload\<rparr>, s5, Inr ok))"
    using assms(2,3) n ne unfolding buf_def by (auto simp: message_ok_def received_def simp del: le_bytes.simps)
  have "length (sock_rx s4) < length buf" using assms(3) s4 buf by simp
  from tcp.recv_short [OF assms(1) this] s4 assms(3) buf r show ?thesis by auto
qed


lemma host_be_byte: "host_be Little 8 (ucast (b :: u8) :: u64) = of_nat (2 ^ 56 * unat b)"
proof -
  have b: "unat b < 256" by (rule unat_u8_bound)
  have u: "unat (ucast b :: u64) = unat b" by (simp add: unsigned_ucast_eq take_bit_nat_eq_self less_trans [OF b])
  have "le_bytes (Suc 7) (unat b) = b # replicate 7 0" using b by (simp only: le_bytes.simps) (simp add: le_bytes_zero)
  then have "rev (le_bytes 8 (unat b)) = replicate 7 0 @ [b]" by simp
  then show ?thesis by (simp only: host_be_def bswap_def endian.case u le_value_zeros) simp
qed

lemma host_be_short: "ucast (host_be Little 8 (ucast (v :: u16) :: u64)) = (0 :: u16)"
proof -
  have v: "unat v < 2 ^ 16" using unsigned_less [of v] by simp
  have u: "unat (ucast v :: u64) = unat v"
    using v by (simp add: unsigned_ucast_eq take_bit_nat_eq_self less_trans [OF v])
  define a b where "a = (of_nat (unat v mod 256) :: u8)" and "b = (of_nat (unat v div 256 mod 256) :: u8)"
  have z: "unat v div 256 div 256 = 0" using v by (simp add: div_mult2_eq [symmetric])
  have "le_bytes (Suc (Suc 6)) (unat v) = a # b # replicate 6 0"
    by (simp only: le_bytes.simps z le_bytes_zero a_def b_def)
  then have "rev (le_bytes 8 (unat v)) = replicate 6 0 @ [b, a]" by simp
  then have "host_be Little 8 (ucast v :: u64) = of_nat (2 ^ 48 * le_value [b, a])"
    by (simp only: host_be_def bswap_def endian.case u le_value_zeros) simp
  moreover have "ucast (of_nat (2 ^ 48 * k) :: u64) = (0 :: u16)" for k
  proof -
    have "of_nat (2 ^ 48 * k) = (push_bit 48 (of_nat k) :: u64)" by (simp add: push_bit_eq_mult)
    then show ?thesis by (intro bit_word_eqI) (auto simp: bit_simps)
  qed
  ultimately show ?thesis by (simp only:)
qed


section \<open>Properties\<close>

text \<open>
  C13: the entity codec is exact: a buffer is accepted, on a host of either byte order, exactly when it
  starts with the serialized form (from a host of either byte order) of the entity returned, and all
  fields are shorter than \<open>2 ^ 32\<close> bytes; so what one host writes the other reads, and every proper
  prefix of a serialized entity is rejected.
\<close>

theorem entity_codec_exact:
  "(deserialize en data e0 = (True, e) \<longleftrightarrow> entity_ok e \<and> (\<exists>rest. data = serialize en' e @ rest))
   \<and> (entity_ok f \<and> n < length (serialize en' f) \<longrightarrow> \<not> fst (deserialize en (take n (serialize en' f)) e0))"
proof -
  have "\<not> fst (deserialize en (take n (serialize en' f)) e0)" if "entity_ok f" "n < length (serialize en' f)"
  proof
    assume "fst (deserialize en (take n (serialize en' f)) e0)"
    then obtain g where g: "deserialize en (take n (serialize en' f)) e0 = (True, g)"
      by (cases "deserialize en (take n (serialize en' f)) e0") auto
    then have "entity_dec en' (take n (serialize en' f)) = Some (g, length (entity_bytes g))"
      by (simp add: deserialize_iff entity_dec_iff)
    with entity.dec_proper_prefix [OF that] show False by simp
  qed
  then show ?thesis by (simp add: deserialize_iff serialize_bytes)
qed

definition example_entity :: DataEntity where
  "example_entity = \<lparr>de_sequence = 300, de_key = ''k'', de_value = ''v'', de_cmd = ''SET''\<rparr>"

lemma example_entity_ok: "entity_ok example_entity"
  by (simp add: entity_ok_def example_entity_def)

theorem entity_codec_exact_witness:
  "deserialize Big (serialize Little example_entity) DataEntity_init = (True, example_entity)
   \<and> \<not> fst (deserialize Big (take 9 (serialize Little example_entity)) DataEntity_init)"
proof -
  have "9 < length (serialize Little example_entity)"
    by (simp add: serialize_bytes entity_bytes_def example_entity_def)
  with entity_codec_exact [of Big "serialize Little example_entity" DataEntity_init example_entity Little
      example_entity 9] example_entity_ok
  show ?thesis by auto
qed

text \<open>
  C14: delivery: over a network on which no call fails, however it splits the transfers, sending a
  message whose length field is the size of its payload puts the same bytes on the wire on every
  host, and a receiver that finds them in front of its stream gets its type and payload, consumes
  exactly those bytes and leaves its own length field alone.
\<close>

theorem message_delivery:
  assumes "\<forall>i. net_send net i \<noteq> None" and "\<forall>i. net_recv net' i \<noteq> None" and "message_ok max_size m"
  shows "\<exists>s' w. sendToSocket en net m s = (True, s') \<and> sock_tx s' = sock_tx s @ w
    \<and> length w = 12 + length (msg_payload m)
    \<and> (\<forall>c rest. sock_rx c = w @ rest \<longrightarrow>
         (\<exists>m' c'. recvFromSocket en' max_size net' m0 c = (m', c', Inr True) \<and> sock_rx c' = rest
            \<and> sock_tx c' = sock_tx c \<and> msg_type m' = msg_type m \<and> msg_payload m' = msg_payload m
            \<and> msg_len m' = msg_len m0))"
proof -
  obtain s' where s': "sendToSocket en net m s = (True, s')" "sock_tx s' = sock_tx s @ wire m"
    using sendToSocket_good [OF assms(1)] by blast
  have "\<exists>m' c'. recvFromSocket en' max_size net' m0 c = (m', c', Inr True) \<and> sock_rx c' = rest
      \<and> sock_tx c' = sock_tx c \<and> msg_type m' = msg_type m \<and> msg_payload m' = msg_payload m
      \<and> msg_len m' = msg_len m0" if "sock_rx c = wire m @ rest" for c rest
    using recv_message [OF assms(2,3) that, of en' m0] by (auto simp: received_def)
  with s' length_wire [of m] show ?thesis by blast
qed

lemma example_net_good: "net_send example_net i \<noteq> None" "net_recv example_net i \<noteq> None"
  by (simp_all add: example_net_def)

definition example_message :: Message where
  "example_message = \<lparr>msg_type = INCR_SYNC, msg_magic = 0x9798, msg_len = 3, msg_offset = 259, msg_payload = [1, 2, 3]\<rparr>"

theorem message_delivery_witness:
  "\<exists>s'. sendToSocket Little example_net example_message
          \<lparr>sock_tx = [], sock_sends = 0, sock_rx = [], sock_recvs = 0\<rparr> = (True, s')
     \<and> length (sock_tx s') = 15"
proof -
  have "message_ok 100 example_message" by (simp add: message_ok_def example_message_def)
  from message_delivery [of example_net example_net 100 example_message Little
      "\<lparr>sock_tx = [], sock_sends = 0, sock_rx = [], sock_recvs = 0\<rparr>" Big Message_init] this
  show ?thesis using example_net_good by (auto simp: example_message_def)
qed

text \<open>
  The header fields a little-endian receiver reads are not the ones sent: the offset is the lowest
  byte of the sender's in the highest byte, the magic number is zero whatever was sent, and nothing
  checks it.
\<close>

theorem header_fields_garbled:
  assumes "\<forall>i. net_recv net i \<noteq> None" and "message_ok max_size m" and "sock_rx c = wire m @ rest"
  shows "\<exists>m' c'. recvFromSocket Little max_size net Message_init c = (m', c', Inr True)
    \<and> msg_magic m' = 0 \<and> msg_len m' = 0
    \<and> msg_offset m' = of_nat (2 ^ 56 * (unat (msg_offset m) mod 256))"
proof -
  have "unat (ucast (msg_offset m) :: u8) = unat (msg_offset m) mod 256"
    by (simp add: unsigned_ucast_eq take_bit_eq_mod)
  with recv_message [OF assms, of Little Message_init] show ?thesis
    by (auto simp: received_def host_be_byte host_be_short Message_init_def)
qed

theorem header_fields_garbled_witness:
  "\<exists>m' c'. recvFromSocket Little 100 example_net Message_init
       \<lparr>sock_tx = [], sock_sends = 0, sock_rx = wire example_message, sock_recvs = 0\<rparr> = (m', c', Inr True)
     \<and> msg_magic m' = 0 \<and> msg_len m' = 0 \<and> msg_offset m' = of_nat (2 ^ 56 * 3)"
proof -
  have "message_ok 100 example_message" by (simp add: message_ok_def example_message_def)
  from header_fields_garbled [of example_net 100 example_message
      "\<lparr>sock_tx = [], sock_sends = 0, sock_rx = wire example_message, sock_recvs = 0\<rparr>" "[]"] this
  show ?thesis using example_net_good by (simp add: example_message_def)
qed

lemma heartbeat_failing:
  assumes "\<forall>i. net_send net i = None"
  shows "\<not> fst (start_heartbeat en net rounds s) \<and> sock_tx (snd (start_heartbeat en net rounds s)) = sock_tx s"
proof (induction rounds arbitrary: s)
  case (Suc rounds)
  have "send_all net (d # ds) s = (False, s\<lparr>sock_sends := Suc (sock_sends s)\<rparr>)" for d ds s
    using assms by (simp add: send_all_def send_loop.simps sys_send_def)
  then have "sendToSocket en net m s = (False, s\<lparr>sock_sends := Suc (sock_sends s)\<rparr>)" for m s
    by (simp add: sendToSocket_def message_pieces_def)
  then show ?case using Suc [of "s\<lparr>sock_sends := Suc (sock_sends s)\<rparr>"] by simp
qed simp

lemma start_heartbeat_good:
  assumes "\<forall>i. net_send net i \<noteq> None"
  shows "\<exists>s'. start_heartbeat en net (Suc rounds) s = (True, s')
    \<and> sock_tx s' = sock_tx s @ wire (Message_init\<lparr>msg_type := HEARTBEAT\<rparr>)"
  using sendToSocket_good [OF assms, of en "Message_init\<lparr>msg_type := HEARTBEAT\<rparr>" s] by auto

lemma start_heartbeat_rx: "sock_rx (snd (start_heartbeat en net rounds s)) = sock_rx s"
proof (induction rounds arbitrary: s)
  case (Suc rounds)
  have "sock_rx (snd (sendToSocket en net m s)) = sock_rx s" for m
    using tcp.send_seq_law [of net _ s] unfolding sendToSocket_def by (metis prod.collapse)
  then show ?case using Suc by (simp split: prod.splits bool.splits) (metis snd_conv)
qed simp

text \<open>
  The heartbeat loop ends with the first heartbeat that is sent, so a working connection carries
  exactly one; on a connection where every send fails it never ends.
\<close>

theorem heartbeat_sent_once:
  "((\<forall>i. net_send net i \<noteq> None) \<longrightarrow>
      (\<exists>s'. start_heartbeat en net (Suc rounds) s = (True, s')
         \<and> sock_tx s' = sock_tx s @ wire (Message_init\<lparr>msg_type := HEARTBEAT\<rparr>)))
   \<and> ((\<forall>i. net_send net i = None) \<longrightarrow> \<not> fst (start_heartbeat en net rounds s)
        \<and> sock_tx (snd (start_heartbeat en net rounds s)) = sock_tx s)"
  using start_heartbeat_good heartbeat_failing by blast

theorem heartbeat_sent_once_witness:
  "\<exists>s'. start_heartbeat Little example_net 7 \<lparr>sock_tx = [], sock_sends = 0, sock_rx = [], sock_recvs = 0\<rparr>
          = (True, s') \<and> length (sock_tx s') = 12"
  using heartbeat_sent_once [of example_net Little 6 "\<lparr>sock_tx = [], sock_sends = 0, sock_rx = [], sock_recvs = 0\<rparr>"]
    example_net_good length_wire [of "Message_init\<lparr>msg_type := HEARTBEAT\<rparr>"]
  by (auto simp: Message_init_def)

end
