(* ===== verification/Aof_Recovery.thy ===== *)
theory Aof_Recovery
  imports Resp
begin

text \<open>
  The readers of the append-only file: \<^verbatim>\<open>Aof::recoverFromAOF\<close> and
  \<^verbatim>\<open>Aof::readCommandsFromOffset\<close> of \<^verbatim>\<open>src/src/common/aof.cpp\<close>.  The file is a byte string.
  What the operating system may choose is an argument: whether \<^verbatim>\<open>open\<close>, \<^verbatim>\<open>fstat\<close> and \<^verbatim>\<open>lseek\<close>
  succeed, and for each \<^verbatim>\<open>read\<close> whether it fails and how many bytes it returns (a read of a
  regular file returns at least one byte unless it is at the end).  The callback \<open>exec_fn\<close> is an
  arbitrary function on an arbitrary state.  The theory shows that on a log of whole frames
  followed by a torn one the readers execute exactly the whole frames in order, however the
  reads are split, and it shows what happens to the torn tail.
\<close>

section \<open>System calls on the log file\<close>

datatype access_mode = O_RDONLY | O_WRONLY_APPEND

datatype open_result = Opened | Open_ENOENT | Open_failed

definition BUF :: nat where "BUF = 64 * 1024"

text \<open>
  \<^verbatim>\<open>read(fd, buf, BUF)\<close> with \<open>rest\<close> the bytes from the file position on: the choice \<open>None\<close> is a
  failed call (\<^verbatim>\<open>n < 0\<close>), \<open>Some k\<close> a call that would like to return \<open>k\<close> bytes.
\<close>

definition posix_read :: "nat option \<Rightarrow> string \<Rightarrow> string option" where
  "posix_read choice rest = map_option (\<lambda>k. take (min BUF (max 1 k)) rest) choice"

text \<open>\<^verbatim>\<open>ftruncate\<close> requires a descriptor open for writing; otherwise it fails (\<open>None\<close>).\<close>

definition ftruncate :: "access_mode \<Rightarrow> nat \<Rightarrow> string \<Rightarrow> string option" where
  "ftruncate mode n file = (case mode of O_RDONLY \<Rightarrow> None | O_WRONLY_APPEND \<Rightarrow> Some (take n file))"

record log_env =
  env_open :: open_result
  env_fstat :: bool
  env_lseek :: bool
  env_read :: "nat \<Rightarrow> nat option"

section \<open>The readers\<close>

type_synonym 's executor = "string list \<Rightarrow> 's \<Rightarrow> 's"

text \<open>
  The inner loop: parse and execute frames from \<open>stream_buf\<close> until one is incomplete.
  \<open>parsed\<close> is the position in the buffer, \<open>good\<close> the end offset of the last whole command.
\<close>

function drain :: "'s executor \<Rightarrow> string \<Rightarrow> nat \<Rightarrow> nat \<Rightarrow> 's \<Rightarrow> 's \<times> (nat \<times> nat) exn_or" where
  "drain exec_fn stream_buf parsed good st =
     (case tryParseRESPArray (drop parsed stream_buf) of
        Inl e \<Rightarrow> (st, Inl e)
      | Inr (ok, parts, consumed) \<Rightarrow>
          if \<not> ok then (st, Inr (parsed, good))
          else drain exec_fn stream_buf (parsed + consumed) (good + consumed) (exec_fn parts st))"
  by pat_completeness auto
termination
proof (relation "measure (\<lambda>(exec_fn, stream_buf, parsed, good, st). length stream_buf - parsed)")
  fix stream_buf :: string and parsed consumed :: nat and ok parts p q
  fix exec_fn :: "'s executor" and good :: nat and st :: 's
  assume "tryParseRESPArray (drop parsed stream_buf) = Inr p" "(ok, q) = p" "(parts, consumed) = q"
    "\<not> \<not> ok"
  then have "tryParseRESPArray (drop parsed stream_buf) = Inr (True, parts, consumed)" by auto
  then have "0 < consumed" "consumed \<le> length (drop parsed stream_buf)"
    by (rule tryParse_consumed)+
  then show "((exec_fn, stream_buf, parsed + consumed, good + consumed, exec_fn parts st),
      (exec_fn, stream_buf, parsed, good, st))
      \<in> measure (\<lambda>(exec_fn, stream_buf, parsed, good, st). length stream_buf - parsed)"
    by simp
qed simp

declare drain.simps [simp del]

datatype read_end =
    Read_eof string nat   \<comment> \<open>\<^verbatim>\<open>n = 0\<close>: what is left in \<open>stream_buf\<close>, and \<open>last_good_offset\<close>\<close>
  | Read_error            \<comment> \<open>\<^verbatim>\<open>n < 0\<close>\<close>
  | Read_raised cxx_exn   \<comment> \<open>an exception left the loop\<close>

text \<open>The outer loop; \<open>i\<close> counts the calls of \<^verbatim>\<open>read\<close>, \<open>rest\<close> is the unread part of the file.\<close>

function read_loop ::
  "'s executor \<Rightarrow> (nat \<Rightarrow> nat option) \<Rightarrow> nat \<Rightarrow> string \<Rightarrow> string \<Rightarrow> nat \<Rightarrow> 's \<Rightarrow> 's \<times> read_end" where
  "read_loop exec_fn rd i rest stream_buf good st =
     (case posix_read (rd i) rest of
        None \<Rightarrow> (st, Read_error)
      | Some chunk \<Rightarrow>
          if chunk = [] then (st, Read_eof stream_buf good)
          else
            (case drain exec_fn (stream_buf @ chunk) 0 good st of
               (st', Inl e) \<Rightarrow> (st', Read_raised e)
             | (st', Inr (parsed, good')) \<Rightarrow>
                 read_loop exec_fn rd (Suc i) (drop (length chunk) rest)
                   (drop parsed (stream_buf @ chunk)) good' st'))"
  by pat_completeness auto
termination
  by (relation "measure (\<lambda>(exec_fn, rd, i, rest, stream_buf, good, st). length rest)")
    (auto simp: posix_read_def)

declare read_loop.simps [simp del]

text \<open>
  \<^verbatim>\<open>recoverFromAOF\<close>: the state after the executed commands, the file, \<open>written_offset_\<close> and the
  result.  The descriptor of the recovery is opened \<^verbatim>\<open>O_RDONLY\<close>.
\<close>

definition recoverFromAOF ::
  "log_env \<Rightarrow> 's executor \<Rightarrow> bool \<Rightarrow> string \<Rightarrow> nat \<Rightarrow> 's \<Rightarrow> 's \<times> string \<times> nat \<times> bool exn_or" where
  "recoverFromAOF env exec_fn truncate_incomplete_tail file written_offset st =
     (case env_open env of
        Open_ENOENT \<Rightarrow> (st, file, written_offset, Inr True)
      | Open_failed \<Rightarrow> (st, file, written_offset, Inr False)
      | Opened \<Rightarrow>
          if \<not> env_fstat env then (st, file, written_offset, Inr False)
          else if length file = 0 then (st, file, written_offset, Inr True)
          else
            (case read_loop exec_fn (env_read env) 0 file [] 0 st of
               (st', Read_raised e) \<Rightarrow> (st', file, written_offset, Inl e)
             | (st', Read_error) \<Rightarrow> (st', file, written_offset, Inr False)
             | (st', Read_eof stream_buf last_good_offset) \<Rightarrow>
                 (case (if stream_buf \<noteq> [] \<and> truncate_incomplete_tail
                        then ftruncate O_RDONLY last_good_offset file else Some file) of
                    None \<Rightarrow> (st', file, written_offset, Inr False)
                  | Some file' \<Rightarrow>
                      (st', file', (if env_lseek env then length file' else written_offset),
                       Inr True))))"

text \<open>
  \<^verbatim>\<open>readCommandsFromOffset\<close>: \<^verbatim>\<open>lseek\<close> refuses an offset that is negative as \<^verbatim>\<open>off_t\<close> and
  accepts one past the end of the file.
\<close>

definition readCommandsFromOffset ::
  "log_env \<Rightarrow> nat \<Rightarrow> 's executor \<Rightarrow> string \<Rightarrow> 's \<Rightarrow> 's \<times> bool exn_or" where
  "readCommandsFromOffset env offset exec_fn file st =
     (if env_open env \<noteq> Opened then (st, Inr False)
      else if \<not> env_lseek env \<or> 2 ^ 63 \<le> offset then (st, Inr False)
      else
        (case read_loop exec_fn (env_read env) 0 (drop offset file) [] 0 st of
           (st', Read_raised e) \<Rightarrow> (st', Inl e)
         | (st', Read_error) \<Rightarrow> (st', Inr False)
         | (st', Read_eof _ _) \<Rightarrow> (st', Inr True)))"

section \<open>Whole frames and a torn one\<close>

text \<open>The bytes of a sequence of commands.\<close>

definition frames :: "string list list \<Rightarrow> string" where
  "frames cmds = concat (map serializeToRESP cmds)"

lemma frames_simps [simp]:
  "frames [] = []" "frames (c # cs) = serializeToRESP c @ frames cs" "frames (xs @ ys) = frames xs @ frames ys"
  by (simp_all add: frames_def)

lemma frames_empty: "list_all resp_ok cmds \<Longrightarrow> frames cmds = [] \<Longrightarrow> cmds = []"
  using resp.enc_nonempty by (cases cmds) auto

text \<open>
  A string that does not begin with a whole frame; then no prefix of it does, because verdicts are
  stable.  A torn frame is one.
\<close>

definition no_frame :: "string \<Rightarrow> bool" where
  "no_frame s \<longleftrightarrow> (\<exists>ps. tryParseRESPArray s = Inr (False, ps, 0))"

lemma no_frame_prefix:
  assumes "no_frame (s @ s')"
  shows "no_frame s"
proof (cases "tryParseRESPArray s")
  case (Inl e)
  then show ?thesis using assms tryParse_extend_Inl [OF Inl, of s'] by (auto simp: no_frame_def)
next
  case (Inr r)
  then obtain ok ps n where r: "tryParseRESPArray s = Inr (ok, ps, n)" by (cases r) auto
  then have "\<not> ok" using assms tryParse_extend_Inr [of s ps n s'] by (cases ok) (auto simp: no_frame_def)
  with r tryParse_reject_consumed show ?thesis by (auto simp: no_frame_def)
qed

lemma torn_no_frame: "resp_ok t \<Longrightarrow> n < length (serializeToRESP t) \<Longrightarrow> no_frame (take n (serializeToRESP t))"
  using tryParse_proper_prefix by (simp add: no_frame_def)

lemma no_frame_Nil: "no_frame []"
  by (simp add: no_frame_def tryParseRESPArray_def need_def)

lemma drain_stream:
  assumes "list_all resp_ok cmds" and "no_frame tail"
    and "drop parsed sb @ rest = frames cmds @ tail"
  shows "\<exists>done todo ps. cmds = done @ todo
     \<and> drain exec_fn sb parsed good st
        = (fold exec_fn done st, Inr (parsed + length (frames done), good + length (frames done)))
     \<and> drop (parsed + length (frames done)) sb @ rest = frames todo @ tail
     \<and> tryParseRESPArray (drop (parsed + length (frames done)) sb) = Inr (False, ps, 0)"
  using assms(1,3)
proof (induction cmds arbitrary: parsed good st)
  case Nil
  then have "tail = drop parsed sb @ rest" by simp
  with assms(2) obtain ps where "tryParseRESPArray (drop parsed sb) = Inr (False, ps, 0)"
    using no_frame_prefix unfolding no_frame_def by metis
  with Nil show ?case
    by - (rule exI [of _ "[]"], rule exI [of _ "[]"], rule exI [of _ ps],
      simp add: drain.simps [of _ _ parsed])
next
  case (Cons c cs)
  let ?b = "drop parsed sb" and ?s = "serializeToRESP c"
  from Cons.prems have eq: "?b @ rest = ?s @ frames cs @ tail" and c: "resp_ok c"
    by simp_all
  show ?case
  proof (cases "length ?s \<le> length ?b")
    case True
    with eq have b: "?b = ?s @ drop (length ?s) ?b"
      by (metis append_eq_append_conv_if append_take_drop_id)
    then have parse: "tryParseRESPArray ?b = Inr (True, c, length ?s)"
      by (metis tryParse_serialize [OF c])
    have "drop (parsed + length ?s) sb @ rest = frames cs @ tail"
      using eq b by (metis add.commute append.assoc append_same_eq drop_drop same_append_eq)
    with Cons.prems Cons.IH [of "parsed + length ?s" "good + length ?s" "exec_fn c st"]
    obtain "done" todo ps where IH: "cs = done @ todo"
      "drain exec_fn sb (parsed + length ?s) (good + length ?s) (exec_fn c st) =
        (fold exec_fn done (exec_fn c st),
         Inr (parsed + length ?s + length (frames done), good + length ?s + length (frames done)))"
      "drop (parsed + length ?s + length (frames done)) sb @ rest = frames todo @ tail"
      "tryParseRESPArray (drop (parsed + length ?s + length (frames done)) sb) = Inr (False, ps, 0)"
      by auto
    with parse show ?thesis
      by (intro exI [of _ "c # done"] exI [of _ todo])
        (auto simp: drain.simps [of _ _ parsed] add.assoc)
  next
    case False
    with eq have "?b = take (length ?b) ?s"
      by (metis append_eq_append_conv_if append_eq_conv_conj nat_le_linear)
    with False obtain ps where "tryParseRESPArray ?b = Inr (False, ps, 0)"
      using tryParse_proper_prefix [OF c, of "length ?b"] by auto
    with Cons.prems show ?thesis
      by - (rule exI [of _ "[]"], rule exI [of _ "c # cs"], rule exI [of _ ps],
        simp add: drain.simps [of _ _ parsed])
  qed
qed

text \<open>
  The outer loop, from any state in which the buffer holds no whole frame: whatever the sizes
  of the reads, it executes the remaining commands in order and ends with the torn tail in the
  buffer.
\<close>

lemma no_frame_left:
  assumes "list_all resp_ok todo" and "tryParseRESPArray (frames todo @ rest) = Inr (False, ps, 0)"
  shows "todo = []"
proof (cases todo)
  case (Cons c cs)
  with assms tryParse_serialize [of c "frames cs @ rest"] show ?thesis by simp
qed

lemma read_loop_stream:
  assumes "list_all resp_ok cmds" and "no_frame tail" and "\<forall>i. rd i \<noteq> None"
    and "stream_buf @ rest = frames cmds @ tail"
    and "tryParseRESPArray stream_buf = Inr (False, ps, 0)"
  shows "read_loop exec_fn rd i rest stream_buf good st
    = (fold exec_fn cmds st, Read_eof tail (good + length (frames cmds)))"
  using assms(1,4,5)
proof (induction "length rest" arbitrary: i rest stream_buf good st cmds ps rule: less_induct)
  case less
  obtain k where k: "rd i = Some k" using assms(3) by auto
  define chunk where "chunk = take (min BUF (max 1 k)) rest"
  have rd: "posix_read (rd i) rest = Some chunk"
    by (simp add: posix_read_def k chunk_def)
  show ?case
  proof (cases "rest = []")
    case True
    with less.prems have "cmds = []"
      by (intro no_frame_left [of _ "tail" ps]) simp_all
    with True less.prems show ?thesis
      by (subst read_loop.simps) (simp add: posix_read_def k)
  next
    case False
    then have ne: "chunk \<noteq> []" by (simp add: chunk_def BUF_def)
    have split: "rest = chunk @ drop (length chunk) rest"
      unfolding chunk_def by (rule take_drop_length)
    then have "drop 0 (stream_buf @ chunk) @ drop (length chunk) rest = frames cmds @ tail"
      using less.prems(2) by (metis append.assoc drop0)
    from drain_stream [OF less.prems(1) assms(2) this, of exec_fn good st]
    obtain "done" todo ps' where d: "cmds = done @ todo"
      "drain exec_fn (stream_buf @ chunk) 0 good st
        = (fold exec_fn done st, Inr (length (frames done), good + length (frames done)))"
      "drop (length (frames done)) (stream_buf @ chunk) @ drop (length chunk) rest
        = frames todo @ tail"
      "tryParseRESPArray (drop (length (frames done)) (stream_buf @ chunk)) = Inr (False, ps', 0)"
      by auto
    have "read_loop exec_fn rd (Suc i) (drop (length chunk) rest)
        (drop (length (frames done)) (stream_buf @ chunk)) (good + length (frames done)) (fold exec_fn done st)
      = (fold exec_fn todo (fold exec_fn done st),
         Read_eof tail (good + length (frames done) + length (frames todo)))"
      using ne False d less.prems(1) by (intro less.hyps [OF _ _ d(3,4)]) auto
    with d(1) show ?thesis
      by (subst read_loop.simps) (simp add: rd ne d(2) add.assoc del: drop_append)
  qed
qed

text \<open>Any byte string a reader can meet: the loop always ends with one of its three verdicts.\<close>

lemma read_loop_log:
  assumes "list_all resp_ok cmds" and "no_frame tail" and "\<forall>i. rd i \<noteq> None"
  shows "read_loop exec_fn rd i (frames cmds @ tail) [] good st
    = (fold exec_fn cmds st, Read_eof tail (good + length (frames cmds)))"
proof -
  have "tryParseRESPArray [] = Inr (False, [], 0)"
    by (simp add: tryParseRESPArray_def need_def)
  with assms show ?thesis by (intro read_loop_stream) simp_all
qed

lemma serializeToRESP_Nil_prefix: "resp_ok [] \<and> 0 < length (serializeToRESP [])"
  by (simp add: resp_ok_def serializeToRESP_def)

lemma recover_executes:
  assumes "list_all resp_ok cmds" and "no_frame tail"
    and "env_open env = Opened" and "env_fstat env" and "\<forall>i. env_read env i \<noteq> None"
    and "file = frames cmds @ tail"
  shows "fst (recoverFromAOF env exec_fn tr file wo st) = fold exec_fn cmds st"
proof (cases "file = []")
  case True
  with assms(6) have "cmds = []" using frames_empty [OF assms(1)] by simp
  with True assms(3,4) show ?thesis by (simp add: recoverFromAOF_def)
next
  case False
  have "read_loop exec_fn (env_read env) 0 file [] 0 st
      = (fold exec_fn cmds st, Read_eof tail (0 + length (frames cmds)))"
    unfolding assms(6) by (rule read_loop_log [OF assms(1,2,5)])
  with False assms(3,4) show ?thesis
    by (simp add: recoverFromAOF_def split: option.split)
qed

text \<open>Reading from an offset at which whole frames start.\<close>

lemma read_from_frames:
  assumes "list_all resp_ok cmds" and "no_frame tail" and "offset < 2 ^ 63"
    and "env_open env = Opened" and "env_lseek env" and "\<forall>i. env_read env i \<noteq> None"
    and "drop offset file = frames cmds @ tail"
  shows "readCommandsFromOffset env offset exec_fn file st = (fold exec_fn cmds st, Inr True)"
  using assms read_loop_log [of cmds tail "env_read env" exec_fn 0 0 st]
  by (simp add: readCommandsFromOffset_def)

section \<open>Properties\<close>

text \<open>
  Recovery of a log of whole frames executes every logged command once, in order, whatever the
  sizes of the individual reads; it returns true, leaves the file alone and sets the written
  offset to the size of the file.
\<close>

theorem recover_whole_log:
  assumes "list_all resp_ok cmds" and "cmds \<noteq> []"
    and "env_open env = Opened" and "env_fstat env" and "env_lseek env" and "\<forall>i. env_read env i \<noteq> None"
  shows "recoverFromAOF env exec_fn truncate_tail (frames cmds) wo st
    = (fold exec_fn cmds st, frames cmds, length (frames cmds), Inr True)"
proof -
  have "frames cmds \<noteq> []"
    using assms(1,2) frames_empty by blast
  with assms read_loop_log [of cmds "[]" "env_read env" exec_fn 0 0 st] no_frame_Nil
  show ?thesis by (simp add: recoverFromAOF_def)
qed

theorem recover_whole_log_witness:
  "recoverFromAOF \<lparr>env_open = Opened, env_fstat = True, env_lseek = True, env_read = (\<lambda>i. Some (i + 1))\<rparr>
     (\<lambda>c st. st @ [c]) True (frames [[''SET'', ''k'', ''v''], [''DEL'', ''k'']]) 0 []
   = ([[''SET'', ''k'', ''v''], [''DEL'', ''k'']], frames [[''SET'', ''k'', ''v''], [''DEL'', ''k'']],
      length (frames [[''SET'', ''k'', ''v''], [''DEL'', ''k'']]), Inr True)"
  by (subst recover_whole_log) (simp_all add: resp_ok_def)

text \<open>
  C18: a log that ends in a torn frame: recovery executes exactly the whole commands before it.
  With \<open>truncate_incomplete_tail\<close> it then fails and leaves the torn bytes in the file, because the
  descriptor it truncates is open for reading only; without, it returns true.
\<close>

theorem recover_torn_log:
  assumes "list_all resp_ok cmds" and "resp_ok t" and "0 < n" and "n < length (serializeToRESP t)"
    and "env_open env = Opened" and "env_fstat env" and "env_lseek env" and "\<forall>i. env_read env i \<noteq> None"
  defines "log \<equiv> frames cmds @ take n (serializeToRESP t)"
  shows "recoverFromAOF env exec_fn truncate_tail log wo st
    = (fold exec_fn cmds st, log, (if truncate_tail then wo else length log), Inr (\<not> truncate_tail))"
proof -
  have "take n (serializeToRESP t) \<noteq> []" using assms(3,4) by auto
  with assms torn_no_frame read_loop_log [of cmds "take n (serializeToRESP t)" "env_read env" exec_fn 0 0 st] show ?thesis
    by (simp add: recoverFromAOF_def ftruncate_def)
qed

theorem recover_torn_log_witness:
  "recoverFromAOF \<lparr>env_open = Opened, env_fstat = True, env_lseek = True, env_read = (\<lambda>i. Some 3)\<rparr>
     (\<lambda>c st. st @ [c]) True
     (frames [[''DEL'', ''a'']] @ take 5 (serializeToRESP [''DEL'', ''b''])) 0 []
   = ([[''DEL'', ''a'']], frames [[''DEL'', ''a'']] @ take 5 (serializeToRESP [''DEL'', ''b'']), 0, Inr False)"
proof -
  have "5 < length (serializeToRESP [''DEL'', ''b''])"
    by (simp add: serializeToRESP_def bulk_def)
  from recover_torn_log [of "[[''DEL'', ''a'']]" "[''DEL'', ''b'']" 5
      "\<lparr>env_open = Opened, env_fstat = True, env_lseek = True, env_read = (\<lambda>i. Some 3)\<rparr>"
      "\<lambda>c st. st @ [c]" True 0 "[]", OF _ _ _ this]
  show ?thesis by (simp add: resp_ok_def)
qed

text \<open>
  Reading from the end offset of some whole command executes exactly the commands after it, in
  order, and ignores a torn frame at the end.
\<close>

theorem read_commands_from_offset:
  assumes "list_all resp_ok post" and "resp_ok t" and "n < length (serializeToRESP t)"
    and "length (frames pre) < 2 ^ 63"
    and "env_open env = Opened" and "env_lseek env" and "\<forall>i. env_read env i \<noteq> None"
  shows "readCommandsFromOffset env (length (frames pre)) exec_fn
      (frames (pre @ post) @ take n (serializeToRESP t)) st
    = (fold exec_fn post st, Inr True)"
  using assms torn_no_frame by (intro read_from_frames) simp_all

theorem read_commands_from_offset_witness:
  "readCommandsFromOffset \<lparr>env_open = Opened, env_fstat = True, env_lseek = True, env_read = (\<lambda>i. Some 9)\<rparr>
     (length (frames [[''DEL'', ''a'']])) (\<lambda>c st. st @ [c])
     (frames ([[''DEL'', ''a'']] @ [[''DEL'', ''b'']]) @ take 2 (serializeToRESP [])) []
   = ([[''DEL'', ''b'']], Inr True)"
proof -
  have "2 < length (serializeToRESP [])" by (simp add: serializeToRESP_def)
  moreover have "length (frames [[''DEL'', ''a'']]) < 2 ^ 63"
    by (simp add: frames_def serializeToRESP_def bulk_def to_string.simps)
  ultimately show ?thesis
    by (subst read_commands_from_offset) (simp_all add: resp_ok_def)
qed

end
