(* ===== verification/Aof_Writer.thy ===== *)
theory Aof_Writer
  imports Resp
begin

text \<open>
  The write side of the append-only file: \<^verbatim>\<open>Options\<close> and the class \<^verbatim>\<open>Aof\<close> of
  \<^verbatim>\<open>src/src/common/aof.h\<close> and \<^verbatim>\<open>aof.cpp\<close> (constructor, the four append operations, listeners,
  \<^verbatim>\<open>startWriter\<close>, \<^verbatim>\<open>stop\<close> and \<^verbatim>\<open>writerLoop\<close>).  The object is a record; the writer thread has a
  program counter, and everything that threads can interleave on is a step of its own: a step is
  a critical section under \<^verbatim>\<open>mu_\<close>, one system call, or one read of the atomic stop flag.  What the
  operating system and the scheduler choose is in the events.  Two ghost fields record the
  payloads accepted so far and whether a failed write dropped some.
\<close>

section \<open>Options and state\<close>

record options =
  max_queue_entries :: nat
  max_batch_entries :: nat
  max_batch_bytes :: nat
  flush_interval :: nat
  durability_mode :: int
  periodic_fsync_interval :: nat

text \<open>The defaults of the header and the values \<^verbatim>\<open>main\<close> installs (times in milliseconds).\<close>

definition default_options :: options where
  "default_options = \<lparr>max_queue_entries = 2 ^ 16, max_batch_entries = 512,
     max_batch_bytes = 64 * 1024, flush_interval = 200, durability_mode = 1,
     periodic_fsync_interval = 1000\<rparr>"

definition main_options :: options where
  "main_options = default_options\<lparr>max_queue_entries := 2 ^ 14, max_batch_entries := 256,
     max_batch_bytes := 128 * 1024, flush_interval := 100, durability_mode := 1\<rparr>"

text \<open>
  Where the writer thread is: not started; at the top of the loop; past an empty batch and about
  to read the stop flag; in the \<^verbatim>\<open>writev\<close> loop with the vectors still to write; past that loop;
  past the update of \<open>written_offset_\<close>; past the loop; finished.
\<close>

datatype writer_pc =
    W_off | W_top | W_empty | W_writing "string list" | W_written | W_stored | W_final | W_exit

record 'l aof =
  aof_queue :: "string list"
  aof_stop :: bool
  aof_waiting :: "string list"    \<comment> \<open>producers asleep in \<^verbatim>\<open>cv_space_.wait\<close>, with their payload\<close>
  aof_notified :: "string list"   \<comment> \<open>producers woken, about to test the predicate again\<close>
  aof_listeners :: "'l list"
  aof_pc :: writer_pc
  aof_started :: bool
  aof_stopping :: bool            \<comment> \<open>a caller of \<^verbatim>\<open>stop\<close> is past its early return\<close>
  aof_fd :: bool                  \<comment> \<open>\<^verbatim>\<open>fd_ >= 0\<close>\<close>
  aof_file :: string
  aof_offset :: nat               \<comment> \<open>\<^verbatim>\<open>written_offset_\<close>\<close>
  aof_synced :: nat               \<comment> \<open>size of the file at the last \<^verbatim>\<open>fsync\<close>\<close>
  aof_last_fsync :: nat
  aof_accepted :: "string list"   \<comment> \<open>ghost: payloads whose append returned true\<close>
  aof_lost :: bool                \<comment> \<open>ghost: a failed \<^verbatim>\<open>writev\<close> dropped payloads\<close>

section \<open>Construction, appending, listeners\<close>

text \<open>
  The constructor on an existing file: \<^verbatim>\<open>openFile\<close> (whose failure raises), then
  \<^verbatim>\<open>startWriter\<close>.
\<close>

definition openFile :: "bool \<Rightarrow> string \<Rightarrow> 'l aof exn_or" where
  "openFile open_ok file =
     (if \<not> open_ok then Inl (Runtime_error ''open aof failed'')
      else Inr \<lparr>aof_queue = [], aof_stop = False, aof_waiting = [], aof_notified = [],
        aof_listeners = [], aof_pc = W_off, aof_started = False, aof_stopping = False,
        aof_fd = True, aof_file = file, aof_offset = length file, aof_synced = length file,
        aof_last_fsync = 0, aof_accepted = [], aof_lost = False\<rparr>)"

definition startWriter :: "nat \<Rightarrow> 'l aof \<Rightarrow> 'l aof" where
  "startWriter now s =
     (if aof_started s then s
      else s\<lparr>aof_stop := False, aof_pc := W_top, aof_last_fsync := now, aof_started := True\<rparr>)"

definition Aof_construct :: "bool \<Rightarrow> nat \<Rightarrow> string \<Rightarrow> 'l aof exn_or" where
  "Aof_construct open_ok now file =
     (case openFile open_ok file of Inl e \<Rightarrow> Inl e | Inr s \<Rightarrow> Inr (startWriter now s))"

definition push_payload :: "string \<Rightarrow> 'l aof \<Rightarrow> 'l aof" where
  "push_payload p s = s\<lparr>aof_queue := aof_queue s @ [p], aof_accepted := aof_accepted s @ [p]\<rparr>"

definition appendRawAsync :: "options \<Rightarrow> string \<Rightarrow> 'l aof \<Rightarrow> 'l aof \<times> bool" where
  "appendRawAsync opts p s =
     (if aof_stop s then (s, False)
      else if max_queue_entries opts \<le> length (aof_queue s) then (s, False)
      else (push_payload p s, True))"

definition appendCommandAsync :: "options \<Rightarrow> string list \<Rightarrow> 'l aof \<Rightarrow> 'l aof \<times> bool" where
  "appendCommandAsync opts parts s = appendRawAsync opts (serializeToRESP parts) s"

text \<open>The predicate of \<^verbatim>\<open>cv_space_.wait\<close>, and what a blocking producer does once it holds.\<close>

definition has_space :: "options \<Rightarrow> 'l aof \<Rightarrow> bool" where
  "has_space opts s \<longleftrightarrow> aof_stop s \<or> length (aof_queue s) < max_queue_entries opts"

definition blocking_resume :: "string \<Rightarrow> 'l aof \<Rightarrow> 'l aof \<times> bool" where
  "blocking_resume p s = (if aof_stop s then (s, False) else (push_payload p s, True))"

text \<open>
  A whole blocking append: \<open>sleep\<close> is what the other threads do to the object while the caller
  sleeps, up to the moment the predicate holds.
\<close>

definition appendRawBlocking ::
  "options \<Rightarrow> ('l aof \<Rightarrow> 'l aof) \<Rightarrow> string \<Rightarrow> 'l aof \<Rightarrow> 'l aof \<times> bool" where
  "appendRawBlocking opts sleep p s =
     blocking_resume p (if has_space opts s then s else sleep s)"

definition appendCommandBlocking ::
  "options \<Rightarrow> ('l aof \<Rightarrow> 'l aof) \<Rightarrow> string list \<Rightarrow> 'l aof \<Rightarrow> 'l aof \<times> bool" where
  "appendCommandBlocking opts sleep parts s = appendRawBlocking opts sleep (serializeToRESP parts) s"

definition registerListener :: "'l \<Rightarrow> 'l aof \<Rightarrow> 'l aof" where
  "registerListener cb s = s\<lparr>aof_listeners := aof_listeners s @ [cb]\<rparr>"

text \<open>
  \<^verbatim>\<open>notifyListeners\<close>: every callback of the copied list, in order.  A callback acts on the world \<open>w\<close>
  outside this object; its exceptions are dropped, what it did before raising stays.  The append
  operations call it after they have released the lock: see \<open>append_notify\<close>.
\<close>

definition notifyListeners :: "('l \<Rightarrow> 'w \<Rightarrow> 'w \<times> 'r exn_or) \<Rightarrow> 'l aof \<Rightarrow> 'w \<Rightarrow> 'w" where
  "notifyListeners call s w =
     fold (\<lambda>cb w. case call cb w of (w', Inl e) \<Rightarrow> w' | (w', Inr _) \<Rightarrow> w') (aof_listeners s) w"

definition append_notify ::
  "('l \<Rightarrow> 'w \<Rightarrow> 'w \<times> 'r exn_or) \<Rightarrow> 'l aof \<times> bool \<Rightarrow> 'w \<Rightarrow> 'w \<times> 'l aof \<times> bool" where
  "append_notify call appended w =
     (case appended of
        (s, True) \<Rightarrow> (notifyListeners call s w, s, True)
      | (s, False) \<Rightarrow> (w, s, False))"

definition getCurrentOffset :: "'l aof \<Rightarrow> nat" where
  "getCurrentOffset s = aof_offset s"

section \<open>The writer thread\<close>

text \<open>Moving payloads into the batch; \<open>n\<close> and \<open>bytes\<close> are the sizes of the batch so far.\<close>

fun take_batch :: "options \<Rightarrow> nat \<Rightarrow> nat \<Rightarrow> string list \<Rightarrow> string list \<times> string list" where
  "take_batch opts n bytes [] = ([], [])"
| "take_batch opts n bytes (q # qs) =
     (if n < max_batch_entries opts \<and> bytes < max_batch_bytes opts
      then (case take_batch opts (Suc n) (bytes + length q) qs of (b, r) \<Rightarrow> (q # b, r))
      else ([], q # qs))"

text \<open>Advancing the vectors by the number of bytes written.\<close>

fun advance :: "nat \<Rightarrow> string list \<Rightarrow> string list" where
  "advance 0 iovs = iovs"
| "advance (Suc n) [] = []"
| "advance (Suc n) (v # vs) =
     (if length v \<le> Suc n then advance (Suc n - length v) vs else drop (Suc n) v # vs)"

definition IOV_MAX_SLICE :: nat where "IOV_MAX_SLICE = 64"

text \<open>
  One call of \<^verbatim>\<open>writev\<close> on the next slice: it writes some prefix of the slice's bytes, is
  interrupted, or fails.
\<close>

datatype writev_result = Wv_bytes nat | Wv_EINTR | Wv_error

definition writev_step ::
  "writev_result \<Rightarrow> string list \<Rightarrow> string \<Rightarrow> string list option \<times> string" where
  "writev_step r iovs file =
     (let slice = concat (take IOV_MAX_SLICE iovs)
      in case r of
        Wv_bytes k \<Rightarrow> (let n = min k (length slice) in (Some (advance n iovs), file @ take n slice))
      | Wv_EINTR \<Rightarrow> (Some iovs, file)
      | Wv_error \<Rightarrow> (None, file))"

text \<open>
  The \<^verbatim>\<open>writev\<close> loop run against a script of results: \<open>None\<close> when it has not ended with the
  script, \<open>Some (ok, file)\<close> when it has, \<open>ok\<close> false after an error.
\<close>

fun writev_loop :: "writev_result list \<Rightarrow> string list \<Rightarrow> string \<Rightarrow> (bool \<times> string) option" where
  "writev_loop script [] file = Some (True, file)"
| "writev_loop [] (v # vs) file = None"
| "writev_loop (r # script) (v # vs) file =
     (case writev_step r (v # vs) file of
        (None, file') \<Rightarrow> Some (False, file')
      | (Some iovs', file') \<Rightarrow> writev_loop script iovs' file')"

text \<open>\<^verbatim>\<open>::fsync(fd_)\<close>; on a closed descriptor it has no effect, and the code ignores that.\<close>

definition do_fsync :: "'l aof \<Rightarrow> 'l aof" where
  "do_fsync s = (if aof_fd s then s\<lparr>aof_synced := length (aof_file s)\<rparr> else s)"

text \<open>The loop's first critical section: fill the batch, wake producers when half is free.\<close>

definition writer_collect :: "options \<Rightarrow> 'l aof \<Rightarrow> 'l aof" where
  "writer_collect opts s =
     (case take_batch opts 0 0 (aof_queue s) of (batch, rest) \<Rightarrow>
       let s1 = s\<lparr>aof_queue := rest, aof_pc := (if batch = [] then W_empty else W_writing batch)\<rparr>
       in if length rest < max_queue_entries opts div 2
          then s1\<lparr>aof_waiting := [], aof_notified := aof_notified s1 @ aof_waiting s1\<rparr>
          else s1)"

text \<open>The branch for an empty batch.\<close>

definition writer_idle :: "options \<Rightarrow> nat \<Rightarrow> 'l aof \<Rightarrow> 'l aof" where
  "writer_idle opts now s =
     (if aof_stop s then s\<lparr>aof_pc := W_final\<rparr>
      else if durability_mode opts = 2 \<and> periodic_fsync_interval opts \<le> now - aof_last_fsync s \<and> aof_fd s
      then (do_fsync s)\<lparr>aof_last_fsync := now, aof_pc := W_top\<rparr>
      else s\<lparr>aof_pc := W_top\<rparr>)"

text \<open>
  \<^verbatim>\<open>lseek(fd_, 0, SEEK_CUR)\<close> on the append descriptor is the end of the file; on a closed one it
  returns \<open>-1\<close> and the offset stays.
\<close>

definition writer_store_offset :: "'l aof \<Rightarrow> 'l aof" where
  "writer_store_offset s =
     (if aof_fd s then s\<lparr>aof_offset := length (aof_file s)\<rparr> else s)\<lparr>aof_pc := W_stored\<rparr>"

text \<open>The fsync policy and the test at the loop's end.\<close>

definition writer_sync :: "options \<Rightarrow> nat \<Rightarrow> 'l aof \<Rightarrow> 'l aof" where
  "writer_sync opts now s =
     (let s1 = (if durability_mode opts = 1
                  \<or> durability_mode opts = 2 \<and> periodic_fsync_interval opts \<le> now - aof_last_fsync s
                then (do_fsync s)\<lparr>aof_last_fsync := now\<rparr> else s)
      in s1\<lparr>aof_pc := (if aof_stop s1 \<and> aof_queue s1 = [] then W_final else W_top)\<rparr>)"

definition writer_finish :: "options \<Rightarrow> 'l aof \<Rightarrow> 'l aof" where
  "writer_finish opts s =
     (if 0 < durability_mode opts then do_fsync s else s)\<lparr>aof_pc := W_exit\<rparr>"

section \<open>Stopping\<close>

text \<open>The two halves of \<^verbatim>\<open>stop\<close>: up to the \<^verbatim>\<open>join\<close>, and from it on.\<close>

definition stop_request :: "'l aof \<Rightarrow> 'l aof" where
  "stop_request s =
     (if aof_stop s then s
      else s\<lparr>aof_stop := True, aof_stopping := True,
             aof_waiting := [], aof_notified := aof_notified s @ aof_waiting s\<rparr>)"

definition stop_complete :: "options \<Rightarrow> 'l aof \<Rightarrow> 'l aof" where
  "stop_complete opts s =
     (let s1 = s\<lparr>aof_started := False, aof_stopping := False\<rparr>
      in if aof_fd s1
         then (if 0 < durability_mode opts then do_fsync s1 else s1)\<lparr>aof_fd := False\<rparr>
         else s1)"

section \<open>Interleaved execution\<close>

datatype aof_event =
    Append_async string
  | Append_blocking string
  | Wake                    \<comment> \<open>a woken producer tests the predicate\<close>
  | Spurious nat            \<comment> \<open>a sleeping producer wakes for no reason\<close>
  | Collect
  | Idle nat
  | Writev writev_result
  | Store_offset
  | Sync nat
  | Finish
  | Stop_request
  | Stop_complete
  | Start_writer nat

text \<open>A closed descriptor makes every \<^verbatim>\<open>writev\<close> fail.\<close>

definition writer_writev :: "writev_result \<Rightarrow> 'l aof \<Rightarrow> string list \<Rightarrow> 'l aof option" where
  "writer_writev r s iovs =
     (if \<not> aof_fd s \<and> r \<noteq> Wv_error then None else case writev_step r iovs (aof_file s) of
        (None, file') \<Rightarrow>
          Some (s\<lparr>aof_file := file', aof_stop := True, aof_lost := True, aof_pc := W_written\<rparr>)
      | (Some iovs', file') \<Rightarrow>
          Some (s\<lparr>aof_file := file', aof_pc := (if iovs' = [] then W_written else W_writing iovs')\<rparr>))"

fun aof_exec :: "options \<Rightarrow> aof_event \<Rightarrow> 'l aof \<Rightarrow> 'l aof option" where
  "aof_exec opts (Append_async p) s = Some (fst (appendRawAsync opts p s))"
| "aof_exec opts (Append_blocking p) s =
     (if has_space opts s then Some (fst (blocking_resume p s))
      else Some (s\<lparr>aof_waiting := aof_waiting s @ [p]\<rparr>))"
| "aof_exec opts Wake s =
     (case aof_notified s of
        [] \<Rightarrow> None
      | p # ps \<Rightarrow>
          let s1 = s\<lparr>aof_notified := ps\<rparr>
          in if has_space opts s1 then Some (fst (blocking_resume p s1))
             else Some (s1\<lparr>aof_waiting := aof_waiting s1 @ [p]\<rparr>))"
| "aof_exec opts (Spurious i) s =
     (if i < length (aof_waiting s)
      then Some (s\<lparr>aof_waiting := take i (aof_waiting s) @ drop (Suc i) (aof_waiting s),
                   aof_notified := aof_notified s @ [aof_waiting s ! i]\<rparr>)
      else None)"
| "aof_exec opts Collect s = (if aof_pc s = W_top then Some (writer_collect opts s) else None)"
| "aof_exec opts (Idle now) s = (if aof_pc s = W_empty then Some (writer_idle opts now s) else None)"
| "aof_exec opts (Writev r) s =
     (case aof_pc s of W_writing iovs \<Rightarrow> writer_writev r s iovs | _ \<Rightarrow> None)"
| "aof_exec opts Store_offset s =
     (if aof_pc s = W_written then Some (writer_store_offset s) else None)"
| "aof_exec opts (Sync now) s = (if aof_pc s = W_stored then Some (writer_sync opts now s) else None)"
| "aof_exec opts Finish s = (if aof_pc s = W_final then Some (writer_finish opts s) else None)"
| "aof_exec opts Stop_request s = Some (stop_request s)"
| "aof_exec opts Stop_complete s =
     (if aof_stopping s \<and> aof_pc s = W_exit then Some (stop_complete opts s) else None)"
| "aof_exec opts (Start_writer now) s = Some (startWriter now s)"

fun aof_run :: "options \<Rightarrow> aof_event list \<Rightarrow> 'l aof \<Rightarrow> 'l aof option" where
  "aof_run opts [] s = Some s"
| "aof_run opts (e # es) s =
     (case aof_exec opts e s of None \<Rightarrow> None | Some t \<Rightarrow> aof_run opts es t)"

inductive aof_step :: "options \<Rightarrow> 'l aof \<Rightarrow> 'l aof \<Rightarrow> bool" for opts where
  aof_step: "aof_exec opts e s = Some t \<Longrightarrow> aof_step opts s t"

inductive_cases aof_stepE: "aof_step opts s t"

lemma aof_run_steps: "aof_run opts es s = Some t \<Longrightarrow> (aof_step opts)\<^sup>*\<^sup>* s t"
proof (induction es arbitrary: s)
  case (Cons e es)
  then show ?case
    by (auto split: option.splits intro: converse_rtranclp_into_rtranclp aof_step.intros)
qed simp

section \<open>The batch and the vectors\<close>

lemma take_batch_append: "take_batch opts n bytes q = (b, r) \<Longrightarrow> b @ r = q"
  by (induction opts n bytes q arbitrary: b r rule: take_batch.induct)
    (auto split: if_splits prod.splits)

lemma take_batch_entries:
  "take_batch opts n bytes q = (b, r) \<Longrightarrow> length b \<le> max_batch_entries opts - n"
  by (induction opts n bytes q arbitrary: b r rule: take_batch.induct)
    (fastforce split: if_splits prod.splits)+

lemma take_batch_bytes:
  "take_batch opts n bytes q = (b, r) \<Longrightarrow> b \<noteq> [] \<Longrightarrow>
   bytes + length (concat (butlast b)) < max_batch_bytes opts"
  by (induction opts n bytes q arbitrary: b r rule: take_batch.induct)
    (fastforce split: if_splits prod.splits)+

lemma take_batch_progress:
  "take_batch opts 0 0 q = (b, r) \<Longrightarrow> q \<noteq> [] \<Longrightarrow> 0 < max_batch_entries opts \<Longrightarrow>
   0 < max_batch_bytes opts \<Longrightarrow> b \<noteq> []"
  by (cases q) (auto split: prod.splits)

lemma concat_advance: "concat (advance n iovs) = drop n (concat iovs)"
  by (induction n iovs rule: advance.induct) (auto simp: Suc_diff_le)

lemma concat_slice:
  "n \<le> length (concat (take k iovs)) \<Longrightarrow> take n (concat (take k iovs)) = take n (concat iovs)"
  by (metis append_take_drop_id concat_append diff_is_0_eq take_append take_eq_Nil append_Nil2)

lemma writev_step_conserves:
  "writev_step r iovs file = (Some iovs', file') \<Longrightarrow>
   file' @ concat iovs' = file @ concat iovs"
  by (auto simp: writev_step_def Let_def concat_advance concat_slice split: writev_result.splits if_splits)

section \<open>The invariant\<close>

text \<open>
  \<open>pending\<close> is what the writer has taken from the queue and not yet written; the write window is
  the span in which the file may be longer than \<open>written_offset_\<close> says.
\<close>

fun pending :: "writer_pc \<Rightarrow> string list" where
  "pending (W_writing iovs) = iovs"
| "pending _ = []"

fun in_window :: "writer_pc \<Rightarrow> bool" where
  "in_window (W_writing _) = True"
| "in_window W_written = True"
| "in_window _ = False"

definition queue_bounded :: "options \<Rightarrow> 'l aof \<Rightarrow> bool" where
  "queue_bounded opts s \<longleftrightarrow> length (aof_queue s) \<le> max_queue_entries opts"

definition log_complete :: "string \<Rightarrow> 'l aof \<Rightarrow> bool" where
  "log_complete base s \<longleftrightarrow>
     (\<not> aof_lost s \<longrightarrow>
      base @ concat (aof_accepted s) = aof_file s @ concat (pending (aof_pc s)) @ concat (aof_queue s))"

definition offset_exact :: "'l aof \<Rightarrow> bool" where
  "offset_exact s \<longleftrightarrow> aof_offset s \<le> length (aof_file s)
     \<and> (\<not> in_window (aof_pc s) \<longrightarrow> aof_offset s = length (aof_file s))
     \<and> (\<not> aof_fd s \<longrightarrow> aof_offset s = length (aof_file s))"

definition synced_ok :: "options \<Rightarrow> 'l aof \<Rightarrow> bool" where
  "synced_ok opts s \<longleftrightarrow> aof_synced s \<le> length (aof_file s)
     \<and> (durability_mode opts = 1 \<longrightarrow> \<not> in_window (aof_pc s) \<longrightarrow> aof_pc s \<noteq> W_stored \<longrightarrow>
        aof_synced s = length (aof_file s))
     \<and> (durability_mode opts = 1 \<longrightarrow> \<not> aof_fd s \<longrightarrow> aof_synced s = length (aof_file s))"

definition thread_ok :: "'l aof \<Rightarrow> bool" where
  "thread_ok s \<longleftrightarrow> (\<not> aof_started s \<longrightarrow> aof_pc s = W_exit \<or> aof_pc s = W_off)"

definition aof_inv :: "options \<Rightarrow> string \<Rightarrow> 'l aof \<Rightarrow> bool" where
  "aof_inv opts base s \<longleftrightarrow>
     queue_bounded opts s \<and> log_complete base s \<and> offset_exact s \<and> synced_ok opts s
     \<and> thread_ok s"

lemmas aof_op_defs = appendRawAsync_def blocking_resume_def push_payload_def has_space_def
  writer_idle_def writer_store_offset_def writer_sync_def writer_finish_def do_fsync_def
  stop_request_def stop_complete_def startWriter_def Let_def

text \<open>What the two steps with structure do to the fields the invariant speaks of.\<close>

lemma writer_collect_fields [simp]:
  "aof_file (writer_collect opts s) = aof_file s"
  "aof_offset (writer_collect opts s) = aof_offset s"
  "aof_synced (writer_collect opts s) = aof_synced s"
  "aof_fd (writer_collect opts s) = aof_fd s"
  "aof_lost (writer_collect opts s) = aof_lost s"
  "aof_stop (writer_collect opts s) = aof_stop s"
  "aof_accepted (writer_collect opts s) = aof_accepted s"
  by (auto simp: writer_collect_def Let_def split: prod.splits)

lemma writer_collect_queue:
  "pending (aof_pc (writer_collect opts s)) @ aof_queue (writer_collect opts s) = aof_queue s"
  by (auto simp: writer_collect_def Let_def take_batch_append split: prod.splits)

text \<open>
  One \<^verbatim>\<open>writev\<close> either fails, leaving the file as it is and raising the stop flag, or moves some
  bytes of the vectors to the end of the file; an interrupted call moves none.
\<close>

lemma writer_writevE:
  assumes "writer_writev r s iovs = Some t"
  obtains (failed) "t = s\<lparr>aof_stop := True, aof_lost := True, aof_pc := W_written\<rparr>"
  | (wrote) n where "aof_fd s"
      "t = s\<lparr>aof_file := aof_file s @ take n (concat iovs),
             aof_pc := (if advance n iovs = [] then W_written else W_writing (advance n iovs))\<rparr>"
proof (cases r)
  case (Wv_bytes n)
  let ?m = "min n (length (concat (take IOV_MAX_SLICE iovs)))"
  from Wv_bytes assms have "aof_fd s"
    "t = s\<lparr>aof_file := aof_file s @ take ?m (concat (take IOV_MAX_SLICE iovs)),
           aof_pc := (if advance ?m iovs = [] then W_written else W_writing (advance ?m iovs))\<rparr>"
    by (simp_all add: writer_writev_def writev_step_def Let_def split: if_splits)
  moreover have "take ?m (concat (take IOV_MAX_SLICE iovs)) = take ?m (concat iovs)"
    by (rule concat_slice) simp
  ultimately show ?thesis by (intro wrote [of ?m]) simp_all
next
  case Wv_EINTR
  with assms have "aof_fd s" "t = s\<lparr>aof_file := aof_file s @ take 0 (concat iovs),
      aof_pc := (if advance 0 iovs = [] then W_written else W_writing (advance 0 iovs))\<rparr>"
    by (simp_all add: writer_writev_def writev_step_def Let_def split: if_splits)
  then show ?thesis by (rule wrote)
next
  case Wv_error
  with assms have "t = s\<lparr>aof_stop := True, aof_lost := True, aof_pc := W_written\<rparr>"
    by (simp add: writer_writev_def writev_step_def Let_def)
  then show ?thesis by (rule failed)
qed

lemma writer_writev_fields:
  assumes "writer_writev r s iovs = Some t"
  shows "aof_queue t = aof_queue s" "aof_accepted t = aof_accepted s" "aof_fd t = aof_fd s"
    "aof_offset t = aof_offset s" "aof_synced t = aof_synced s" "in_window (aof_pc t)"
    "aof_started t = aof_started s"
  using assms by (cases rule: writer_writevE; simp)+

lemma writer_writev_file:
  assumes "writer_writev r s iovs = Some t"
  shows "length (aof_file s) \<le> length (aof_file t)"
    and "\<not> aof_fd s \<Longrightarrow> aof_file t = aof_file s"
    and "\<not> aof_lost t \<Longrightarrow> \<not> aof_lost s \<and>
       aof_file t @ concat (pending (aof_pc t)) = aof_file s @ concat iovs"
proof -
  show "length (aof_file s) \<le> length (aof_file t)"
    using assms by (cases rule: writer_writevE) simp_all
  show "aof_file t = aof_file s" if "\<not> aof_fd s"
    using assms that by (cases rule: writer_writevE) simp_all
  show "\<not> aof_lost s \<and> aof_file t @ concat (pending (aof_pc t)) = aof_file s @ concat iovs"
    if "\<not> aof_lost t"
    using assms
  proof (cases rule: writer_writevE)
    case (wrote n)
    with that concat_advance [of n iovs] show ?thesis
      by (cases "advance n iovs = []") simp_all
  qed (use that in simp)
qed

text \<open>Each part of the invariant is kept by every event.\<close>

lemma queue_bounded_exec:
  assumes "queue_bounded opts s" and "aof_exec opts e s = Some t"
  shows "queue_bounded opts t"
proof (cases e)
  case Collect
  have "length (aof_queue (writer_collect opts s)) \<le> length (aof_queue s)"
    using arg_cong [OF writer_collect_queue [of opts s], of length] by simp
  with Collect assms show ?thesis by (auto simp: queue_bounded_def split: if_splits)
next
  case (Writev r)
  with assms show ?thesis
    by (auto simp: queue_bounded_def writer_writev_fields(1) split: writer_pc.splits)
next
  case Wake
  with assms show ?thesis
    by (auto simp: queue_bounded_def aof_op_defs split: list.splits if_splits)
qed (use assms in \<open>auto simp: queue_bounded_def aof_op_defs split: if_splits\<close>)

lemma thread_ok_exec:
  assumes "thread_ok s" and "aof_exec opts e s = Some t"
  shows "thread_ok t"
proof (cases e)
  case (Writev r)
  with assms show ?thesis
    by (auto simp: thread_ok_def writer_writev_fields(7) split: writer_pc.splits)
next
  case Wake
  with assms show ?thesis
    by (auto simp: thread_ok_def aof_op_defs split: list.splits if_splits)
next
  case Collect
  with assms show ?thesis
    by (auto simp: thread_ok_def writer_collect_def Let_def split: prod.splits if_splits)
qed (use assms in \<open>auto simp: thread_ok_def aof_op_defs split: if_splits\<close>)

lemma log_complete_exec:
  assumes "log_complete base s" and "thread_ok s" and "aof_exec opts e s = Some t"
  shows "log_complete base t"
proof (cases e)
  case Collect
  with assms have "aof_pc s = W_top" "t = writer_collect opts s" by (auto split: if_splits)
  with assms arg_cong [OF writer_collect_queue [of opts s], of concat] show ?thesis
    by (simp add: log_complete_def)
next
  case (Writev r)
  with assms obtain iovs where "aof_pc s = W_writing iovs" "writer_writev r s iovs = Some t"
    by (auto split: writer_pc.splits)
  with assms(1) writer_writev_fields(1,2) [of r s iovs t] writer_writev_file(3) [of r s iovs t]
  show ?thesis by (auto simp: log_complete_def simp flip: append_assoc)
next
  case Wake
  with assms show ?thesis
    by (auto simp: log_complete_def aof_op_defs split: list.splits if_splits)
next
  case (Start_writer now)
  with assms show ?thesis
    by (auto simp: log_complete_def thread_ok_def aof_op_defs split: if_splits)
qed (use assms in \<open>auto simp: log_complete_def aof_op_defs split: if_splits\<close>)

lemma offset_exact_exec:
  assumes "offset_exact s" and "thread_ok s" and "aof_exec opts e s = Some t"
  shows "offset_exact t"
proof (cases e)
  case Collect
  with assms show ?thesis by (auto simp: offset_exact_def split: if_splits)
next
  case (Writev r)
  with assms obtain iovs where "aof_pc s = W_writing iovs" "writer_writev r s iovs = Some t"
    by (auto split: writer_pc.splits)
  with assms(1) writer_writev_fields [of r s iovs t] writer_writev_file(1,2) [of r s iovs t]
  show ?thesis by (auto simp: offset_exact_def)
next
  case Wake
  with assms show ?thesis
    by (auto simp: offset_exact_def aof_op_defs split: list.splits if_splits)
next
  case (Start_writer now)
  with assms show ?thesis
    by (auto simp: offset_exact_def thread_ok_def aof_op_defs split: if_splits)
qed (use assms in \<open>auto simp: offset_exact_def aof_op_defs split: if_splits\<close>)

lemma synced_ok_exec:
  assumes "synced_ok opts s" and "thread_ok s" and "aof_exec opts e s = Some t"
  shows "synced_ok opts t"
proof (cases e)
  case Collect
  with assms show ?thesis by (auto simp: synced_ok_def split: if_splits)
next
  case (Writev r)
  with assms obtain iovs where "aof_pc s = W_writing iovs" "writer_writev r s iovs = Some t"
    by (auto split: writer_pc.splits)
  with assms(1) writer_writev_fields [of r s iovs t] writer_writev_file(1,2) [of r s iovs t]
  show ?thesis by (auto simp: synced_ok_def)
next
  case Wake
  with assms show ?thesis
    by (auto simp: synced_ok_def aof_op_defs split: list.splits if_splits)
next
  case (Start_writer now)
  with assms show ?thesis
    by (auto simp: synced_ok_def thread_ok_def aof_op_defs split: if_splits)
qed (use assms in \<open>auto simp: synced_ok_def aof_op_defs split: if_splits\<close>)

definition aof_start :: "string \<Rightarrow> 'l aof \<Rightarrow> bool" where
  "aof_start base s \<longleftrightarrow> (\<exists>now. Aof_construct True now base = Inr s)"

lemma aof_start_inv: "aof_start base s \<Longrightarrow> aof_inv opts base s"
  by (auto simp: aof_start_def Aof_construct_def openFile_def startWriter_def aof_inv_def
      queue_bounded_def log_complete_def offset_exact_def synced_ok_def thread_ok_def)

lemma aof_exec_inv: "aof_inv opts base s \<Longrightarrow> aof_exec opts e s = Some t \<Longrightarrow> aof_inv opts base t"
  unfolding aof_inv_def
  by (blast intro: queue_bounded_exec log_complete_exec offset_exact_exec synced_ok_exec thread_ok_exec)

interpretation writer: transition_invariant "aof_start base" "aof_step opts" "aof_inv opts base"
  for base :: string and opts :: options
  by unfold_locales (auto intro: aof_start_inv aof_exec_inv elim: aof_stepE)

section \<open>The writev loop ends\<close>

definition is_bytes :: "writev_result \<Rightarrow> bool" where
  "is_bytes r \<longleftrightarrow> (case r of Wv_bytes n \<Rightarrow> 0 < n | _ \<Rightarrow> False)"

text \<open>A result the loop can make no error of: some bytes, or an interruption.\<close>

definition harmless :: "writev_result \<Rightarrow> bool" where
  "harmless r \<longleftrightarrow> r = Wv_EINTR \<or> is_bytes r"

lemma advance_nonempty: "list_all (\<lambda>v. v \<noteq> []) iovs \<Longrightarrow> list_all (\<lambda>v. v \<noteq> []) (advance n iovs)"
  by (induction n iovs rule: advance.induct) auto

lemma writev_loop_done:
  "list_all (\<lambda>v. v \<noteq> []) iovs \<Longrightarrow> list_all harmless script \<Longrightarrow>
   length (concat iovs) \<le> length (filter is_bytes script) \<Longrightarrow>
   writev_loop script iovs fl = Some (True, fl @ concat iovs)"
proof (induction script iovs fl rule: writev_loop.induct)
  case (3 r script v vs fl)
  let ?iovs = "v # vs" and ?slice = "concat (take IOV_MAX_SLICE (v # vs))"
  show ?case
  proof (cases r)
    case (Wv_bytes k)
    with 3 have k: "0 < k" by (simp add: harmless_def is_bytes_def)
    let ?n = "min k (length ?slice)"
    have slice: "0 < length ?slice" using "3.prems" by (simp add: IOV_MAX_SLICE_def)
    have step: "writev_step r ?iovs fl = (Some (advance ?n ?iovs), fl @ take ?n ?slice)"
      by (simp add: writev_step_def Wv_bytes Let_def)
    have adv: "concat (advance ?n ?iovs) = drop ?n (concat ?iovs)" by (rule concat_advance)
    have sl: "take ?n ?slice = take ?n (concat ?iovs)" by (rule concat_slice) simp
    have "is_bytes r" using Wv_bytes k by (simp add: is_bytes_def)
    with "3.prems"(3) have "length (concat ?iovs) \<le> Suc (length (filter is_bytes script))" by simp
    moreover have "0 < ?n" using k slice by simp
    ultimately have enough: "length (concat (advance ?n ?iovs)) \<le> length (filter is_bytes script)"
      unfolding adv length_drop by linarith
    have "writev_loop script (advance ?n ?iovs) (fl @ take ?n ?slice)
        = Some (True, (fl @ take ?n ?slice) @ concat (advance ?n ?iovs))"
      using "3.prems" enough by (intro "3.IH" [OF step [symmetric]]) (simp_all add: advance_nonempty)
    then show ?thesis
      by (simp only: writev_loop.simps step prod.case option.case)
        (simp only: adv sl append.assoc append_take_drop_id)
  next
    case Wv_EINTR
    have step: "writev_step r ?iovs fl = (Some ?iovs, fl)"
      by (simp add: writev_step_def Wv_EINTR)
    have "writev_loop script ?iovs fl = Some (True, fl @ concat ?iovs)"
      using "3.prems" by (intro "3.IH" [OF step [symmetric]]) (simp_all add: Wv_EINTR is_bytes_def)
    then show ?thesis by (simp only: writev_loop.simps step prod.case option.case)
  qed (use 3 in \<open>simp add: harmless_def is_bytes_def\<close>)
qed auto

lemma writev_loop_stuck:
  "iovs \<noteq> [] \<Longrightarrow> concat iovs = [] \<Longrightarrow> Wv_error \<notin> set script \<Longrightarrow>
   writev_loop script iovs fl = None"
proof (induction script iovs fl rule: writev_loop.induct)
  case (3 r script v vs fl)
  have slice: "concat (take IOV_MAX_SLICE (v # vs)) = []"
    using "3.prems"(2) set_take_subset [of IOV_MAX_SLICE "v # vs"]
    by (auto simp del: take_Cons_numeral)
  from "3.prems"(3) have "r \<noteq> Wv_error" by auto
  then have step: "writev_step r (v # vs) fl = (Some (v # vs), fl)"
    by (cases r) (simp_all only: writev_step_def slice Let_def, simp_all)
  with "3.prems" have "writev_loop script (v # vs) fl = None"
    by (intro "3.IH" [OF step [symmetric]]) simp_all
  with step show ?case by simp
qed auto

section \<open>Stopping\<close>

text \<open>
  Once the stop flag is up no payload is accepted any more.  If it goes up while the writer is
  not between an empty batch and its test of the flag, the writer leaves its loop only with an
  empty queue.
\<close>

definition stop_clean :: "'l aof \<Rightarrow> bool" where
  "stop_clean s \<longleftrightarrow> aof_stop s \<and>
     (aof_pc s = W_empty \<or> aof_pc s = W_final \<or> aof_pc s = W_exit \<longrightarrow> aof_queue s = [])"

inductive aof_step_once :: "options \<Rightarrow> 'l aof \<Rightarrow> 'l aof \<Rightarrow> bool" for opts where
  aof_step_once: "aof_exec opts e s = Some t \<Longrightarrow> \<forall>now. e \<noteq> Start_writer now \<Longrightarrow> aof_step_once opts s t"

inductive_cases aof_step_onceE: "aof_step_once opts s t"

lemma aof_step_once_step: "aof_step_once opts s t \<Longrightarrow> aof_step opts s t"
  by (auto elim: aof_step_onceE intro: aof_step.intros)

lemma writer_collect_clean:
  assumes "stop_clean s" and "0 < max_batch_entries opts" and "0 < max_batch_bytes opts"
  shows "stop_clean (writer_collect opts s)"
proof (cases "aof_queue s = []")
  case True
  with assms show ?thesis
    by (simp add: stop_clean_def writer_collect_def Let_def)
next
  case False
  obtain b r where br: "take_batch opts 0 0 (aof_queue s) = (b, r)" by fastforce
  with False assms have "b \<noteq> []" using take_batch_progress by blast
  with br assms show ?thesis
    by (simp add: stop_clean_def writer_collect_def Let_def)
qed

lemma stop_clean_exec:
  assumes "stop_clean s" and "aof_exec opts e s = Some t" and "\<forall>now. e \<noteq> Start_writer now"
    and "0 < max_batch_entries opts" and "0 < max_batch_bytes opts"
  shows "stop_clean t"
proof (cases e)
  case Collect
  with assms show ?thesis by (auto intro: writer_collect_clean split: if_splits)
next
  case (Writev r)
  with assms obtain iovs where "writer_writev r s iovs = Some t"
    by (auto split: writer_pc.splits)
  then show ?thesis
    using assms(1) by (cases rule: writer_writevE) (auto simp: stop_clean_def)
next
  case Wake
  with assms show ?thesis
    by (auto simp: stop_clean_def aof_op_defs split: list.splits if_splits)
qed (use assms in \<open>auto simp: stop_clean_def aof_op_defs split: if_splits\<close>)

interpretation stopping: transition_invariant "\<lambda>s. stop_clean s" "aof_step_once opts"
    "\<lambda>s. 0 < max_batch_entries opts \<and> 0 < max_batch_bytes opts \<longrightarrow> stop_clean s"
  for opts :: options
  by unfold_locales (auto intro: stop_clean_exec elim: aof_step_onceE)

lemma aof_step_once_steps: "(aof_step_once opts)\<^sup>*\<^sup>* s t \<Longrightarrow> (aof_step opts)\<^sup>*\<^sup>* s t"
  by (induction rule: rtranclp_induct)
    (auto intro: rtranclp.rtrancl_into_rtrancl aof_step_once_step)

section \<open>Properties\<close>


definition example_aof :: "nat aof" where
  "example_aof = startWriter 0 \<lparr>aof_queue = [], aof_stop = False, aof_waiting = [], aof_notified = [],
     aof_listeners = [], aof_pc = W_off, aof_started = False, aof_stopping = False,
     aof_fd = True, aof_file = ''base'', aof_offset = length ''base'', aof_synced = length ''base'',
     aof_last_fsync = 0, aof_accepted = [], aof_lost = False\<rparr>"

lemma example_aof_start: "aof_start ''base'' example_aof"
  by (auto simp: aof_start_def example_aof_def Aof_construct_def openFile_def)

lemma advance_Nil [simp]: "advance n [] = []"
  by (cases n) simp_all

lemma advance_pos:
  "0 < n \<Longrightarrow>
   advance n (v # vs) = (if length v \<le> n then advance (n - length v) vs else drop n v # vs)"
  by (cases n) simp_all

lemmas aof_eval = example_aof_def main_options_def default_options_def aof_op_defs writer_collect_def
  writer_writev_def writev_step_def IOV_MAX_SLICE_def advance_pos


text \<open>
  C15: with durability mode 1, whenever the writer is not between its first \<^verbatim>\<open>writev\<close> of a batch and
  the \<^verbatim>\<open>fsync\<close> that follows, everything in the file has been passed to \<^verbatim>\<open>fsync\<close>; and whenever it is not
  in the write window, \<open>written_offset_\<close> is the size of the file.
\<close>

theorem batch_synced_and_offset_exact:
  assumes "aof_start base s0" and "(aof_step opts)\<^sup>*\<^sup>* s0 s" and "\<not> in_window (aof_pc s)"
  shows "getCurrentOffset s = length (aof_file s) \<and>
    (durability_mode opts = 1 \<and> aof_pc s \<noteq> W_stored \<longrightarrow> aof_synced s = length (aof_file s))"
  using writer.reachable_inv [OF assms(1,2)] assms(3)
  by (simp add: aof_inv_def offset_exact_def synced_ok_def getCurrentOffset_def)

theorem batch_synced_and_offset_exact_witness:
  "\<exists>s :: nat aof. aof_run main_options
      [Append_async ''one'', Collect, Writev (Wv_bytes 9), Store_offset, Sync 5] example_aof = Some s
    \<and> aof_file s = ''baseone'' \<and> getCurrentOffset s = 7 \<and> aof_synced s = 7"
proof -
  obtain s :: "nat aof" where s: "aof_run main_options
      [Append_async ''one'', Collect, Writev (Wv_bytes 9), Store_offset, Sync 5] example_aof = Some s"
    and f: "aof_file s = ''baseone''" "aof_pc s = W_top"
    by (simp add: aof_eval)
  have "durability_mode main_options = 1" by (simp add: main_options_def)
  with batch_synced_and_offset_exact [OF example_aof_start aof_run_steps [OF s]] s f
  show ?thesis by auto
qed

text \<open>
  The \<^verbatim>\<open>writev\<close> loop ends: if no payload of the batch is empty, no call fails and calls that
  return write at least one byte, then after as many such calls as there are bytes (and any number
  of interruptions) the loop is over and exactly the batch has been appended.
\<close>

theorem writev_loop_terminates:
  assumes "list_all (\<lambda>v. v \<noteq> []) batch" and "list_all harmless script"
    and "length (concat batch) \<le> length (filter is_bytes script)"
  shows "writev_loop script batch log = Some (True, log @ concat batch)"
  using assms by (rule writev_loop_done)

theorem writev_loop_terminates_witness:
  "writev_loop [Wv_EINTR, Wv_bytes 1, Wv_bytes 9, Wv_bytes 3] [''ab'', ''c''] ''x'' = Some (True, ''xabc'')"
  using writev_loop_terminates [of "[''ab'', ''c'']" "[Wv_EINTR, Wv_bytes 1, Wv_bytes 9, Wv_bytes 3]" "''x''"]
  by (simp add: harmless_def is_bytes_def)

text \<open>
  A batch that holds only empty payloads, which \<^verbatim>\<open>appendRawAsync\<close> accepts, hangs the writer: no
  sequence of successful or interrupted \<^verbatim>\<open>writev\<close> calls ever ends the loop.
\<close>

theorem empty_payload_hangs_writer:
  assumes "batch \<noteq> []" and "concat batch = []" and "Wv_error \<notin> set script"
  shows "writev_loop script batch log = None"
  using assms by (rule writev_loop_stuck)

theorem empty_payload_hangs_writer_witness:
  "writev_loop [Wv_bytes 0, Wv_bytes 7, Wv_EINTR] [[]] ''x'' = None"
  by (rule empty_payload_hangs_writer) simp_all

text \<open>
  A batch keeps the front of the queue in order and respects its limits: at most
  \<open>max_batch_entries\<close> payloads, and below \<open>max_batch_bytes\<close> before the last one; with positive limits
  a non-empty queue always gives a non-empty batch.
\<close>

theorem batch_limits:
  assumes "take_batch opts 0 0 q = (b, r)"
  shows "b @ r = q \<and> length b \<le> max_batch_entries opts
    \<and> (b \<noteq> [] \<longrightarrow> length (concat (butlast b)) < max_batch_bytes opts)
    \<and> (q \<noteq> [] \<and> 0 < max_batch_entries opts \<and> 0 < max_batch_bytes opts \<longrightarrow> b \<noteq> [])"
  using take_batch_append [OF assms] take_batch_entries [OF assms] take_batch_bytes [OF assms]
    take_batch_progress [OF assms] by simp

theorem batch_limits_witness:
  "length [''abc'', ''de''] \<le> max_batch_entries (main_options\<lparr>max_batch_bytes := 4\<rparr>)
   \<and> length (concat (butlast [''abc'', ''de''])) < 4"
proof -
  have t: "take_batch (main_options\<lparr>max_batch_bytes := 4\<rparr>) 0 0 [''abc'', ''de'', ''f''] = ([''abc'', ''de''], [''f''])"
    by (simp add: main_options_def)
  show ?thesis using batch_limits [OF t] by simp
qed

text \<open>
  A graceful stop flushes: if the stop flag goes up while the writer is not between an empty
  batch and its test of the flag (or the queue is empty then), and the batch limits are positive,
  then whatever the threads do, when the writer thread has finished and no write failed, the file
  is the initial content and every accepted payload.
\<close>

theorem graceful_stop_flushes:
  assumes "aof_start base s0" and "(aof_step opts)\<^sup>*\<^sup>* s0 s" and "stop_clean (stop_request s)"
    and "0 < max_batch_entries opts" and "0 < max_batch_bytes opts"
    and "(aof_step_once opts)\<^sup>*\<^sup>* (stop_request s) t" and "aof_pc t = W_exit" and "\<not> aof_lost t"
  shows "aof_file t = base @ concat (aof_accepted t)"
proof -
  have "(aof_step opts)\<^sup>*\<^sup>* s0 (stop_request s)"
    using assms(2) aof_step.aof_step [of opts Stop_request s "stop_request s"]
    by (auto intro: rtranclp.rtrancl_into_rtrancl)
  with aof_step_once_steps [OF assms(6)] have "(aof_step opts)\<^sup>*\<^sup>* s0 t" by (metis rtranclp_trans)
  from writer.reachable_inv [OF assms(1) this] assms(8)
  have "base @ concat (aof_accepted t) = aof_file t @ concat (pending (aof_pc t)) @ concat (aof_queue t)"
    by (simp add: aof_inv_def log_complete_def)
  moreover have "aof_queue t = []"
    using stopping.reachable_inv [OF assms(3,6)] assms(4,5,7) by (simp add: stop_clean_def)
  ultimately show ?thesis using assms(7) by simp
qed

lemma aof_run_steps_once:
  "aof_run opts es s = Some t \<Longrightarrow> list_all (\<lambda>e. \<forall>now. e \<noteq> Start_writer now) es \<Longrightarrow>
   (aof_step_once opts)\<^sup>*\<^sup>* s t"
proof (induction es arbitrary: s)
  case (Cons e es)
  then show ?case
    by (auto split: option.splits intro: converse_rtranclp_into_rtranclp aof_step_once.intros)
qed simp

theorem graceful_stop_flushes_witness:
  "\<exists>s t :: nat aof. aof_run main_options [Append_async ''one''] example_aof = Some s
    \<and> aof_run main_options [Collect, Writev (Wv_bytes 9), Store_offset, Sync 5, Finish] (stop_request s) = Some t
    \<and> aof_file t = ''base'' @ concat (aof_accepted t)"
proof -
  obtain s :: "nat aof" where s: "aof_run main_options [Append_async ''one''] example_aof = Some s"
    and c: "stop_clean (stop_request s)" "aof_pc s = W_top" "aof_queue s = [''one'']" "aof_file s = ''base''"
    "\<not> aof_lost s" "aof_fd s" "\<not> aof_stop s"
    by (simp add: aof_eval stop_clean_def)
  obtain t where t: "aof_run main_options [Collect, Writev (Wv_bytes 9), Store_offset, Sync 5, Finish]
      (stop_request s) = Some t" and e: "aof_pc t = W_exit" "\<not> aof_lost t"
    using c by (auto simp: aof_eval)
  have "aof_file t = ''base'' @ concat (aof_accepted t)"
    by (rule graceful_stop_flushes [OF example_aof_start aof_run_steps [OF s] c(1) _ _
          aof_run_steps_once [OF t] e]) (simp_all add: main_options_def default_options_def)
  with s t show ?thesis by blast
qed


text \<open>
  After a failed \<^verbatim>\<open>writev\<close> the object cannot be shut down: the writer itself raises the stop flag,
  so \<^verbatim>\<open>stop\<close> returns at its first test, changes nothing, and neither joins the thread nor closes the
  descriptor.
\<close>

theorem stop_after_write_error_is_noop:
  assumes "aof_pc s = W_writing iovs" and "aof_exec opts (Writev Wv_error) s = Some t"
  shows "aof_stop t \<and> aof_lost t \<and> stop_request t = t \<and> aof_fd t = aof_fd s \<and> aof_queue t = aof_queue s"
  using assms by (auto simp: writer_writev_def writev_step_def stop_request_def)

theorem stop_after_write_error_is_noop_witness:
  "\<exists>s t :: nat aof. aof_run main_options [Append_async ''one'', Collect] example_aof = Some s
    \<and> aof_exec main_options (Writev Wv_error) s = Some t \<and> stop_request t = t \<and> aof_fd t = aof_fd s"
proof -
  obtain s :: "nat aof" where s: "aof_run main_options [Append_async ''one'', Collect] example_aof = Some s"
    and pc: "aof_pc s = W_writing [''one'']"
    by (simp add: aof_eval)
  obtain t where t: "aof_exec main_options (Writev Wv_error) s = Some t"
    using pc by (auto simp: writer_writev_def writev_step_def)
  from stop_after_write_error_is_noop [OF pc t] s t show ?thesis by blast
qed

end
