(* ===== verification/Durability.thy ===== *)
theory Durability
  imports Aof_Recovery Aof_Writer
begin

text \<open>
  The write side and the read side of the append-only file together: whatever instant a run of
  the writer is cut off at, the file it leaves recovers to a prefix of the accepted commands.
\<close>

lemma frames_prefix:
  "list_all resp_ok cmds \<Longrightarrow> m \<le> length (frames cmds) \<Longrightarrow>
   \<exists>k n t. resp_ok t \<and> n < length (serializeToRESP t)
     \<and> take m (frames cmds) = frames (take k cmds) @ take n (serializeToRESP t)"
proof (induction cmds arbitrary: m)
  case Nil
  then show ?case
    using serializeToRESP_Nil_prefix by (intro exI [of _ 0] exI [of _ "[]"]) auto
next
  case (Cons c cs)
  show ?case
  proof (cases "m < length (serializeToRESP c)")
    case True
    with Cons.prems show ?thesis
      by (intro exI [of _ 0] exI [of _ m] exI [of _ c]) auto
  next
    case False
    with Cons.prems(2) have "m - length (serializeToRESP c) \<le> length (frames cs)" by simp
    with Cons.prems obtain k n t where "resp_ok t" "n < length (serializeToRESP t)"
      "take (m - length (serializeToRESP c)) (frames cs) = frames (take k cs) @ take n (serializeToRESP t)"
      using Cons.IH [of "m - length (serializeToRESP c)"] by auto
    with False show ?thesis
      by (intro exI [of _ "Suc k"] exI [of _ n] exI [of _ t]) auto
  qed
qed

lemma reachable_file_prefix:
  assumes "aof_start (frames old) s0" and "(aof_step opts)\<^sup>*\<^sup>* s0 s" and "\<not> aof_lost s"
    and "aof_accepted s = map serializeToRESP new"
  shows "\<exists>m \<le> length (frames (old @ new)). aof_file s = take m (frames (old @ new))"
proof -
  from writer.reachable_inv [OF assms(1,2)] assms(3,4)
  have "frames (old @ new) = aof_file s @ concat (pending (aof_pc s)) @ concat (aof_queue s)"
    by (simp add: aof_inv_def log_complete_def frames_def)
  then show ?thesis by (intro exI [of _ "length (aof_file s)"]) simp
qed




section \<open>After a failed write\<close>

text \<open>
  What the writer leaves when a call of \<^verbatim>\<open>writev\<close> fails inside a frame: it drops the rest of the batch,
  raises the stop flag, and goes on with the payloads that are still queued, behind the torn frame.
\<close>

lemma dollar_no_frame: "no_frame (CHR ''$'' # rest)"
  by (simp add: no_frame_def tryParseRESPArray_def need_def)

definition del_header :: "nat \<Rightarrow> string" where
  "del_header n = ''*2'' @ crlf @ bulk ''DEL'' @ CHR ''$'' # to_string n @ crlf"

lemma to_string_two: "to_string (Suc (Suc 0)) = ''2''"
  by code_simp

lemma del_frame: "serializeToRESP [''DEL'', k] = del_header (length k) @ k @ crlf"
  by (simp add: serializeToRESP_def del_header_def bulk_def to_string_two)

lemma del_header_nonempty: "del_header n \<noteq> []"
  by (simp add: del_header_def)

lemma advance_inside: "xs \<noteq> [] \<Longrightarrow> ys \<noteq> [] \<Longrightarrow> advance (length xs) ((xs @ ys) # vs) = ys # vs"
  by (cases xs) simp_all

text \<open>The first bytes of the next frame complete the torn key.\<close>

lemma torn_del_completed:
  assumes "length y = 2"
  shows "\<exists>rest. del_header (length (x @ y)) @ x @ serializeToRESP [''DEL'', z]
    = serializeToRESP [''DEL'', x @ ''*2''] @ CHR ''$'' # rest"
  using assms by (simp add: del_frame del_header_def bulk_def)

definition write_error_events :: "string \<Rightarrow> string \<Rightarrow> string \<Rightarrow> aof_event list" where
  "write_error_events x y z =
     [Append_async (serializeToRESP [''DEL'', x @ y]), Collect, Append_async (serializeToRESP [''DEL'', z]),
      Writev (Wv_bytes (length (del_header (length (x @ y)) @ x))), Writev Wv_error, Store_offset, Sync 0,
      Collect, Writev (Wv_bytes (length (serializeToRESP [''DEL'', z]))), Store_offset, Sync 0, Finish]"

lemma write_error_run:
  assumes "length y = 2" and "aof_start base s0"
  shows "\<exists>s. aof_run main_options (write_error_events x y z) s0 = Some s
    \<and> aof_accepted s = map serializeToRESP [[''DEL'', x @ y], [''DEL'', z]] \<and> aof_pc s = W_exit
    \<and> aof_file s = base @ del_header (length (x @ y)) @ x @ serializeToRESP [''DEL'', z]"
  using assms advance_inside [of "del_header (length (x @ y)) @ x" "y @ crlf" "[]"] del_header_nonempty
  by (auto simp: write_error_events_def aof_start_def Aof_construct_def openFile_def del_frame aof_eval)


text \<open>
  C30: a failed write can forge a command.  Let the log be opened on whole commands, let two
  deletions be accepted, and let a call of \<^verbatim>\<open>writev\<close> fail two bytes and a line end before the end of the
  first of them.  The writer goes on with the second one, whose first bytes complete the torn key: recovery
  executes a deletion of a key that no client named, and neither of the two that were accepted.
\<close>

theorem write_error_forges_command:
  assumes "length y = 2" and "list_all resp_ok (old @ [[''DEL'', x @ y]])" and "aof_start (frames old) s0"
    and "env_open env = Opened" and "env_fstat env" and "\<forall>i. env_read env i \<noteq> None"
  shows "\<exists>s. aof_run main_options (write_error_events x y z) s0 = Some s
    \<and> aof_accepted s = map serializeToRESP [[''DEL'', x @ y], [''DEL'', z]] \<and> aof_pc s = W_exit
    \<and> fst (recoverFromAOF env exec_fn tr (aof_file s) wo st) = exec_fn [''DEL'', x @ ''*2''] (fold exec_fn old st)"
proof -
  from write_error_run [OF assms(1,3)] obtain s where
    s: "aof_run main_options (write_error_events x y z) s0 = Some s"
    "aof_accepted s = map serializeToRESP [[''DEL'', x @ y], [''DEL'', z]]" "aof_pc s = W_exit"
    "aof_file s = frames old @ del_header (length (x @ y)) @ x @ serializeToRESP [''DEL'', z]" by blast
  from torn_del_completed [OF assms(1)] obtain rest where
    f: "aof_file s = frames (old @ [[''DEL'', x @ ''*2'']]) @ CHR ''$'' # rest"
    unfolding s(4) by auto
  have "list_all resp_ok (old @ [[''DEL'', x @ ''*2'']])" using assms(1,2) by (simp add: resp_ok_def)
  from recover_executes [OF this dollar_no_frame assms(4-6) f] s(1-3) show ?thesis by auto
qed

theorem write_error_forges_command_witness:
  "\<exists>s :: nat aof. (\<exists>s0. aof_start (frames [[''DEL'', ''k'']]) s0
      \<and> aof_run main_options (write_error_events ''user'' '':1'' ''user:2'') s0 = Some s)
    \<and> aof_accepted s = map serializeToRESP [[''DEL'', ''user:1''], [''DEL'', ''user:2'']]
    \<and> fst (recoverFromAOF \<lparr>env_open = Opened, env_fstat = True, env_lseek = True, env_read = (\<lambda>i. Some 3)\<rparr>
          (\<lambda>c st. st @ [c]) True (aof_file s) 0 []) = [[''DEL'', ''k''], [''DEL'', ''user*2'']]"
proof -
  obtain s0 :: "nat aof" where s0: "aof_start (frames [[''DEL'', ''k'']]) s0"
    by (auto simp: aof_start_def Aof_construct_def openFile_def)
  have ok: "list_all resp_ok ([[''DEL'', ''k'']] @ [[''DEL'', ''user'' @ '':1'']])" by (simp add: resp_ok_def)
  show ?thesis
    using write_error_forges_command [OF _ ok s0,
        of "\<lparr>env_open = Opened, env_fstat = True, env_lseek = True, env_read = (\<lambda>i. Some 3)\<rparr>"
          "''user:2''" "\<lambda>c st. st @ [c]" True 0 "[]"] s0 by auto
qed

end
