(* ===== verification/Storage.thy ===== *)
theory Storage
  imports Aof_Writer "HOL-Library.AList"
begin

text \<open>
  The storage engine of \<^verbatim>\<open>src/src/core/db.h\<close> and \<^verbatim>\<open>db.cpp\<close>: the class \<^verbatim>\<open>LevelDBWrapper\<close> with its
  inner \<^verbatim>\<open>Impl\<close>.  LevelDB is not part of the program: its operations are the fields of a record
  that every definition takes as an argument, and what its documentation promises is the
  predicate \<open>leveldb_ok\<close>, a hypothesis where it is used.  The clock is an argument of every
  operation that reads it.  Stored records carry their expiry time behind the first tab of the
  value; the theory gives the abstract store of values with expiry times, proves that the
  operations implement it for values without tabs, that lazy and periodic deletion are invisible
  to clients, and what goes wrong for values with tabs.
\<close>

section \<open>LevelDB as a parameter\<close>

record ld_options =
  create_if_missing :: bool
  error_if_exists :: bool
  block_cache :: nat
  write_buffer_size :: nat
  max_open_files :: int
  bloom_bits :: nat

datatype ld_op = Ld_put string string | Ld_delete string

record 'd leveldb =
  ld_Open :: "ld_options \<Rightarrow> string \<Rightarrow> 'd option"
  ld_Put :: "string \<Rightarrow> string \<Rightarrow> 'd \<Rightarrow> bool \<times> 'd"
  ld_Get :: "'d \<Rightarrow> string \<Rightarrow> string option"
  ld_Delete :: "string \<Rightarrow> 'd \<Rightarrow> bool \<times> 'd"
  ld_Write :: "ld_op list \<Rightarrow> 'd \<Rightarrow> bool \<times> 'd"
  ld_Iter :: "'d \<Rightarrow> (string \<times> string) list"
  ld_GetSnapshot :: "'d \<Rightarrow> nat \<times> 'd"
  ld_ReleaseSnapshot :: "nat \<Rightarrow> 'd \<Rightarrow> 'd"

text \<open>
  What LevelDB documents: a successful write is seen by later reads and touches no other key, and
  an iterator lists the bindings of the database it was created on, each key once.
\<close>

definition leveldb_ok :: "'d leveldb \<Rightarrow> bool" where
  "leveldb_ok L \<longleftrightarrow>
     (\<forall>k v d. fst (ld_Put L k v d) \<longrightarrow> ld_Get L (snd (ld_Put L k v d)) = (ld_Get L d)(k \<mapsto> v))
   \<and> (\<forall>k d. fst (ld_Delete L k d) \<longrightarrow> ld_Get L (snd (ld_Delete L k d)) = (ld_Get L d)(k := None))
   \<and> (\<forall>d. distinct (map fst (ld_Iter L d)) \<and> map_of (ld_Iter L d) = ld_Get L d)"

text \<open>No write fails (a healthy disk).\<close>

definition leveldb_healthy :: "'d leveldb \<Rightarrow> bool" where
  "leveldb_healthy L \<longleftrightarrow> (\<forall>k v d. fst (ld_Put L k v d)) \<and> (\<forall>k d. fst (ld_Delete L k d))"

section \<open>The inner class\<close>

text \<open>\<open>db_\<close> is \<open>None\<close> while the pointer is null.\<close>

definition Impl_init :: "'d leveldb \<Rightarrow> string \<Rightarrow> nat \<Rightarrow> nat \<Rightarrow> int \<Rightarrow> 'd option \<Rightarrow> bool \<times> 'd option" where
  "Impl_init L dbPath cacheSizeMB writeBufferSizeMB maxOpenFiles dbo =
     (case ld_Open L \<lparr>create_if_missing = True, error_if_exists = False,
          block_cache = cacheSizeMB * 1024 * 1024, write_buffer_size = writeBufferSizeMB * 1024 * 1024,
          max_open_files = maxOpenFiles, bloom_bits = 10\<rparr> dbPath of
        None \<Rightarrow> (False, dbo)
      | Some d \<Rightarrow> (True, Some d))"

definition Impl_put :: "'d leveldb \<Rightarrow> string \<Rightarrow> string \<Rightarrow> 'd option \<Rightarrow> bool \<times> 'd option" where
  "Impl_put L key value dbo =
     (case dbo of None \<Rightarrow> (False, None)
      | Some d \<Rightarrow> (case ld_Put L key value d of (ok, d') \<Rightarrow> (ok, Some d')))"

text \<open>\<^verbatim>\<open>get\<close> leaves the caller's string as it was unless the read succeeds.\<close>

definition Impl_get :: "'d leveldb \<Rightarrow> string \<Rightarrow> string \<Rightarrow> 'd option \<Rightarrow> bool \<times> string" where
  "Impl_get L key value dbo =
     (case dbo of None \<Rightarrow> (False, value)
      | Some d \<Rightarrow> (case ld_Get L d key of None \<Rightarrow> (False, value) | Some v \<Rightarrow> (True, v)))"

definition Impl_remove :: "'d leveldb \<Rightarrow> string \<Rightarrow> 'd option \<Rightarrow> bool \<times> 'd option" where
  "Impl_remove L key dbo =
     (case dbo of None \<Rightarrow> (False, None)
      | Some d \<Rightarrow> (case ld_Delete L key d of (ok, d') \<Rightarrow> (ok, Some d')))"

definition Impl_writeBatch :: "'d leveldb \<Rightarrow> ld_op list \<Rightarrow> 'd option \<Rightarrow> bool \<times> 'd option" where
  "Impl_writeBatch L batch dbo =
     (case dbo of None \<Rightarrow> (False, None)
      | Some d \<Rightarrow> (case ld_Write L batch d of (ok, d') \<Rightarrow> (ok, Some d')))"

definition Impl_createSnapshot :: "'d leveldb \<Rightarrow> 'd option \<Rightarrow> nat option \<times> 'd option" where
  "Impl_createSnapshot L dbo =
     (case dbo of None \<Rightarrow> (None, None)
      | Some d \<Rightarrow> (case ld_GetSnapshot L d of (h, d') \<Rightarrow> (Some h, Some d')))"

definition Impl_releaseSnapshot :: "'d leveldb \<Rightarrow> nat option \<Rightarrow> 'd option \<Rightarrow> 'd option" where
  "Impl_releaseSnapshot L snapshot dbo =
     (case (dbo, snapshot) of (Some d, Some h) \<Rightarrow> Some (ld_ReleaseSnapshot L h d) | _ \<Rightarrow> dbo)"

definition Impl_newIterator :: "'d leveldb \<Rightarrow> 'd option \<Rightarrow> (string \<times> string) list option" where
  "Impl_newIterator L dbo = map_option (ld_Iter L) dbo"

section \<open>The wrapper\<close>

text \<open>
  The clock in seconds, from the nanoseconds of the system clock.  While the seconds fit 64 bits and the
  system clock is not set back, later readings are not smaller: this is the order of time that the runs
  of the engine assume.
\<close>

definition now_sec :: "nat \<Rightarrow> u64" where
  "now_sec ns = of_nat (ns div 10 ^ 9)"

lemma now_sec_mono:
  assumes "ns \<le> ns'" and "ns' div 10 ^ 9 < 2 ^ 64"
  shows "now_sec ns \<le> now_sec ns'"
proof -
  have "ns div 10 ^ 9 \<le> ns' div 10 ^ 9" using assms(1) by (rule div_le_mono)
  with assms(2) show ?thesis unfolding now_sec_def by (simp add: word_le_nat_alt unat_of_nat)
qed

record ('d, 'l) wrapper =
  w_db :: "'d option"
  w_aof :: "'l aof"

text \<open>
  Logging a command: the non-blocking append and, when it is refused, the blocking one, whose
  result is ignored.  \<open>sleep\<close> is what the other threads do while the caller is blocked.
\<close>

definition log_command ::
  "options \<Rightarrow> ('l aof \<Rightarrow> 'l aof) \<Rightarrow> string list \<Rightarrow> 'l aof \<Rightarrow> 'l aof" where
  "log_command opts sleep cmd a =
     (case appendCommandAsync opts cmd a of
        (a', True) \<Rightarrow> a'
      | (a', False) \<Rightarrow> fst (appendCommandBlocking opts sleep cmd a'))"

definition no_expiry :: string where "no_expiry = CHR 0x09 # ''-1''"

definition put ::
  "'d leveldb \<Rightarrow> options \<Rightarrow> ('l aof \<Rightarrow> 'l aof) \<Rightarrow> string \<Rightarrow> string \<Rightarrow> ('d, 'l) wrapper
    \<Rightarrow> bool \<times> ('d, 'l) wrapper" where
  "put L opts sleep key value w =
     (let a = log_command opts sleep [''SET'', key, value] (w_aof w)
      in case Impl_put L key (value @ no_expiry) (w_db w) of
        (ok, dbo) \<Rightarrow> (ok, w\<lparr>w_db := dbo, w_aof := a\<rparr>))"

definition get ::
  "'d leveldb \<Rightarrow> u64 \<Rightarrow> string \<Rightarrow> string \<Rightarrow> ('d, 'l) wrapper \<Rightarrow> bool \<times> string \<times> ('d, 'l) wrapper" where
  "get L now key value0 w =
     (let value = snd (Impl_get L key value0 (w_db w))
      in if value = [] then (False, value, w)
         else case str_find TAB value of
           None \<Rightarrow> (True, value, w)
         | Some tab_pos \<Rightarrow>
             (case stoull (drop (tab_pos + 1) value) of
                Inl _ \<Rightarrow> (False, value, w)
              | Inr expire_time \<Rightarrow>
                  if expire_time = - 1 then (True, take tab_pos value, w)
                  else if expire_time \<le> now
                  then (False, [], w\<lparr>w_db := snd (Impl_remove L key (w_db w))\<rparr>)
                  else (True, take tab_pos value, w)))"

definition remove ::
  "'d leveldb \<Rightarrow> options \<Rightarrow> ('l aof \<Rightarrow> 'l aof) \<Rightarrow> string \<Rightarrow> ('d, 'l) wrapper
    \<Rightarrow> bool \<times> ('d, 'l) wrapper" where
  "remove L opts sleep key w =
     (let a = log_command opts sleep [''DEL'', key] (w_aof w)
      in case Impl_remove L key (w_db w) of
        (ok, dbo) \<Rightarrow> (ok, w\<lparr>w_db := dbo, w_aof := a\<rparr>))"

definition writeBatch ::
  "'d leveldb \<Rightarrow> ld_op list \<Rightarrow> ('d, 'l) wrapper \<Rightarrow> bool \<times> ('d, 'l) wrapper" where
  "writeBatch L batch w =
     (case Impl_writeBatch L batch (w_db w) of (ok, dbo) \<Rightarrow> (ok, w\<lparr>w_db := dbo\<rparr>))"

definition createSnapshot :: "'d leveldb \<Rightarrow> ('d, 'l) wrapper \<Rightarrow> nat option \<times> ('d, 'l) wrapper" where
  "createSnapshot L w =
     (case Impl_createSnapshot L (w_db w) of (h, dbo) \<Rightarrow> (h, w\<lparr>w_db := dbo\<rparr>))"

definition releaseSnapshot :: "'d leveldb \<Rightarrow> nat option \<Rightarrow> ('d, 'l) wrapper \<Rightarrow> ('d, 'l) wrapper" where
  "releaseSnapshot L snapshot w = w\<lparr>w_db := Impl_releaseSnapshot L snapshot (w_db w)\<rparr>"

text \<open>\<^verbatim>\<open>ttl\<close> returns the difference of two unsigned values as a signed one.\<close>

definition ttl :: "'d leveldb \<Rightarrow> u64 \<Rightarrow> string \<Rightarrow> ('d, 'l) wrapper \<Rightarrow> int" where
  "ttl L now key w =
     (let value = snd (Impl_get L key [] (w_db w))
      in if value = [] then - 2
         else case str_find TAB value of
           None \<Rightarrow> - 2
         | Some tab_pos \<Rightarrow>
             (case stoull (drop (tab_pos + 1) value) of
                Inl _ \<Rightarrow> - 1
              | Inr expire_time \<Rightarrow>
                  if expire_time = - 1 then - 1
                  else if expire_time \<le> now then - 2
                  else sint (expire_time - now)))"

definition expire ::
  "'d leveldb \<Rightarrow> options \<Rightarrow> ('l aof \<Rightarrow> 'l aof) \<Rightarrow> u64 \<Rightarrow> string \<Rightarrow> u64 \<Rightarrow> ('d, 'l) wrapper
    \<Rightarrow> bool \<times> ('d, 'l) wrapper" where
  "expire L opts sleep now key ts w =
     (let value = snd (Impl_get L key [] (w_db w))
      in if value = [] then (False, w)
         else
           let actual_value = (case str_find TAB value of None \<Rightarrow> value | Some tab_pos \<Rightarrow> take tab_pos value);
               expire_time = now + ts
           in put L opts sleep key (actual_value @ CHR 0x09 # to_string (unat expire_time)) w)"

text \<open>
  The cleaner thread: what it does with one entry its iterator shows, read at time \<open>now\<close>, and one
  pass over the iterator.  The iterator works on the database as it was when the pass began.
\<close>

definition cleaner_entry :: "'d leveldb \<Rightarrow> u64 \<Rightarrow> string \<times> string \<Rightarrow> 'd option \<Rightarrow> 'd option" where
  "cleaner_entry L now entry dbo =
     (case entry of (key, value) \<Rightarrow>
       case str_find TAB value of
         None \<Rightarrow> dbo
       | Some tab_pos \<Rightarrow>
           (case stoull (drop (tab_pos + 1) value) of
              Inl _ \<Rightarrow> dbo
            | Inr expire_time \<Rightarrow>
                if expire_time = - 1 then dbo
                else if expire_time \<le> now then snd (Impl_remove L key dbo)
                else dbo))"

fun cleaner_entries :: "'d leveldb \<Rightarrow> (nat \<Rightarrow> u64) \<Rightarrow> nat \<Rightarrow> (string \<times> string) list \<Rightarrow> 'd option \<Rightarrow> 'd option" where
  "cleaner_entries L clock i [] dbo = dbo"
| "cleaner_entries L clock i (e # es) dbo =
     cleaner_entries L clock (Suc i) es (cleaner_entry L (clock i) e dbo)"

text \<open>Without a database the thread goes round its loop again without sleeping.\<close>

definition ttl_cleaner :: "'d leveldb \<Rightarrow> (nat \<Rightarrow> u64) \<Rightarrow> ('d, 'l) wrapper \<Rightarrow> ('d, 'l) wrapper" where
  "ttl_cleaner L clock w =
     (case Impl_newIterator L (w_db w) of
        None \<Rightarrow> w
      | Some entries \<Rightarrow> w\<lparr>w_db := cleaner_entries L clock 0 entries (w_db w)\<rparr>)"

text \<open>
  A new wrapper has no database yet (its cleaner thread already runs); a failed \<^verbatim>\<open>init\<close> leaves it so.
\<close>

definition LevelDBWrapper :: "'l aof \<Rightarrow> ('d, 'l) wrapper" where
  "LevelDBWrapper a = \<lparr>w_db = None, w_aof = a\<rparr>"

definition wrapper_init ::
  "'d leveldb \<Rightarrow> string \<Rightarrow> nat \<Rightarrow> nat \<Rightarrow> int \<Rightarrow> ('d, 'l) wrapper \<Rightarrow> bool \<times> ('d, 'l) wrapper" where
  "wrapper_init L dbPath cacheSizeMB writeBufferSizeMB maxOpenFiles w =
     (case Impl_init L dbPath cacheSizeMB writeBufferSizeMB maxOpenFiles (w_db w) of
        (ok, dbo) \<Rightarrow> (ok, w\<lparr>w_db := dbo\<rparr>))"

definition init_db :: "'d leveldb \<Rightarrow> string \<Rightarrow> 'l aof \<Rightarrow> ('d, 'l) wrapper option" where
  "init_db L db_path a =
     (case wrapper_init L db_path 256 128 2000 (LevelDBWrapper a) of
        (False, _) \<Rightarrow> None
      | (True, storage) \<Rightarrow> Some storage)"

lemma init_db_eq:
  "init_db L db_path a =
     map_option (\<lambda>d. \<lparr>w_db = Some d, w_aof = a\<rparr>)
       (ld_Open L \<lparr>create_if_missing = True, error_if_exists = False, block_cache = 256 * 1024 * 1024,
          write_buffer_size = 128 * 1024 * 1024, max_open_files = 2000, bloom_bits = 10\<rparr> db_path)"
  by (simp add: init_db_def wrapper_init_def LevelDBWrapper_def Impl_init_def split: option.splits)

section \<open>The abstract store\<close>

text \<open>
  The contract: a partial map from keys to values with an expiry time, where the largest 64-bit
  value means never.  \<open>decode_record\<close> is how the operations read a stored record.
\<close>

type_synonym store = "string \<rightharpoonup> string \<times> u64"

definition decode_record :: "string \<Rightarrow> (string \<times> u64) option" where
  "decode_record raw =
     (case str_find TAB raw of
        None \<Rightarrow> None
      | Some p \<Rightarrow> (case stoull (drop (p + 1) raw) of Inl _ \<Rightarrow> None | Inr e \<Rightarrow> Some (take p raw, e)))"

definition raw_view :: "'d leveldb \<Rightarrow> 'd option \<Rightarrow> string \<rightharpoonup> string" where
  "raw_view L dbo = (case dbo of None \<Rightarrow> Map.empty | Some d \<Rightarrow> ld_Get L d)"

definition store_view :: "'d leveldb \<Rightarrow> ('d, 'l) wrapper \<Rightarrow> store" where
  "store_view L w k = Option.bind (raw_view L (w_db w) k) decode_record"

definition live :: "u64 \<Rightarrow> u64 \<Rightarrow> bool" where
  "live now e \<longleftrightarrow> e = - 1 \<or> now < e"

text \<open>What a client can see at a time.\<close>

definition visible :: "u64 \<Rightarrow> store \<Rightarrow> string \<rightharpoonup> string" where
  "visible now m k = (case m k of None \<Rightarrow> None | Some (v, e) \<Rightarrow> if live now e then Some v else None)"

definition spec_ttl :: "u64 \<Rightarrow> store \<Rightarrow> string \<Rightarrow> int" where
  "spec_ttl now m k =
     (case m k of None \<Rightarrow> - 2
      | Some (v, e) \<Rightarrow> if e = - 1 then - 1 else if live now e then sint (e - now) else - 2)"

text \<open>Every stored record can be read; the invariant of the engine.\<close>

definition records_ok :: "'d leveldb \<Rightarrow> 'd option \<Rightarrow> bool" where
  "records_ok L dbo \<longleftrightarrow> (\<forall>k raw. raw_view L dbo k = Some raw \<longrightarrow> decode_record raw \<noteq> None)"

definition engine_ok :: "'d leveldb \<Rightarrow> ('d, 'l) wrapper \<Rightarrow> bool" where
  "engine_ok L w \<longleftrightarrow> leveldb_ok L \<and> leveldb_healthy L \<and> w_db w \<noteq> None \<and> records_ok L (w_db w)"

subsection \<open>Records\<close>

lemma decode_record_append:
  "TAB \<notin> set v \<Longrightarrow>
   decode_record (v @ CHR 0x09 # t) = (case stoull t of Inl _ \<Rightarrow> None | Inr e \<Rightarrow> Some (v, e))"
  by (simp add: decode_record_def str_find_append split: sum.splits)

lemma decode_record_plain: "TAB \<notin> set v \<Longrightarrow> decode_record (v @ no_expiry) = Some (v, - 1)"
  by (simp add: no_expiry_def decode_record_append stoull_minus_one)

lemma not_digit_tab: "\<not> is_digit TAB"
  by (simp add: is_digit_def)

lemma decode_record_expiring:
  "TAB \<notin> set v \<Longrightarrow>
   decode_record ((v @ CHR 0x09 # to_string (unat e)) @ no_expiry) = Some (v, e)"
  using stoull_to_string [of no_expiry e] not_digit_tab
  by (simp add: decode_record_append no_expiry_def)

lemma decode_record_SomeD:
  assumes "decode_record raw = Some (v, e)"
  shows "raw \<noteq> []" and "TAB \<notin> set v"
    and "\<exists>p. str_find TAB raw = Some p \<and> stoull (drop (p + 1) raw) = Inr e \<and> v = take p raw"
  using assms
  by (auto simp: decode_record_def split: option.splits sum.splits dest: str_find_SomeD)

subsection \<open>What the inner operations do to the bindings\<close>

lemma raw_view_put:
  assumes "leveldb_ok L" and "leveldb_healthy L" and "dbo \<noteq> None"
  shows "fst (Impl_put L k v dbo)" and "snd (Impl_put L k v dbo) \<noteq> None"
    and "raw_view L (snd (Impl_put L k v dbo)) = (raw_view L dbo)(k \<mapsto> v)"
proof -
  obtain d where d: "dbo = Some d" using assms(3) by auto
  obtain ok d' where put: "ld_Put L k v d = (ok, d')" by fastforce
  with assms(2) have ok by (metis fst_conv leveldb_healthy_def)
  with assms(1) put have "ld_Get L d' = (ld_Get L d)(k \<mapsto> v)"
    unfolding leveldb_ok_def by (metis fst_conv snd_conv)
  with d put \<open>ok\<close> show "fst (Impl_put L k v dbo)" "snd (Impl_put L k v dbo) \<noteq> None"
    "raw_view L (snd (Impl_put L k v dbo)) = (raw_view L dbo)(k \<mapsto> v)"
    by (simp_all add: Impl_put_def raw_view_def)
qed

lemma raw_view_remove:
  assumes "leveldb_ok L" and "leveldb_healthy L" and "dbo \<noteq> None"
  shows "fst (Impl_remove L k dbo)" and "snd (Impl_remove L k dbo) \<noteq> None"
    and "raw_view L (snd (Impl_remove L k dbo)) = (raw_view L dbo)(k := None)"
proof -
  obtain d where d: "dbo = Some d" using assms(3) by auto
  obtain ok d' where del: "ld_Delete L k d = (ok, d')" by fastforce
  with assms(2) have ok by (metis fst_conv leveldb_healthy_def)
  with assms(1) del have "ld_Get L d' = (ld_Get L d)(k := None)"
    unfolding leveldb_ok_def by (metis fst_conv snd_conv)
  with d del \<open>ok\<close> show "fst (Impl_remove L k dbo)" "snd (Impl_remove L k dbo) \<noteq> None"
    "raw_view L (snd (Impl_remove L k dbo)) = (raw_view L dbo)(k := None)"
    by (simp_all add: Impl_remove_def raw_view_def)
qed

lemma Impl_get_raw: "snd (Impl_get L k [] dbo) = (case raw_view L dbo k of None \<Rightarrow> [] | Some v \<Rightarrow> v)"
  by (simp add: Impl_get_def raw_view_def split: option.splits)

lemma engine_ok_records: "engine_ok L w \<Longrightarrow> records_ok L (w_db w)"
  by (simp add: engine_ok_def)

lemma records_ok_update:
  "records_ok L dbo \<Longrightarrow> raw_view L dbo' = (raw_view L dbo)(k := r) \<Longrightarrow>
   (\<And>raw. r = Some raw \<Longrightarrow> decode_record raw \<noteq> None) \<Longrightarrow> records_ok L dbo'"
  by (auto simp: records_ok_def split: if_splits)

lemma store_view_update:
  "raw_view L (w_db w') = (raw_view L (w_db w))(k := r) \<Longrightarrow>
   store_view L w' = (store_view L w)(k := Option.bind r decode_record)"
  by (auto simp: store_view_def fun_eq_iff)

subsection \<open>What the operations do to the abstract store\<close>

lemma put_refines:
  assumes "engine_ok L w" and "TAB \<notin> set v"
  shows "fst (put L opts sleep k v w)" and "engine_ok L (snd (put L opts sleep k v w))"
    and "store_view L (snd (put L opts sleep k v w)) = (store_view L w)(k \<mapsto> (v, - 1))"
proof -
  let ?dbo = "snd (Impl_put L k (v @ no_expiry) (w_db w))"
  from assms(1) have L: "leveldb_ok L" "leveldb_healthy L" "w_db w \<noteq> None"
    by (simp_all add: engine_ok_def)
  note raw = raw_view_put [OF L, of k "v @ no_expiry"]
  have w': "w_db (snd (put L opts sleep k v w)) = ?dbo"
    by (simp add: put_def Let_def split: prod.splits)
  show "fst (put L opts sleep k v w)"
    using raw(1) by (simp add: put_def Let_def case_prod_beta)
  have "records_ok L ?dbo"
    using records_ok_update [OF engine_ok_records [OF assms(1)] raw(3)] decode_record_plain [OF assms(2)]
    by simp
  with L raw w' show "engine_ok L (snd (put L opts sleep k v w))"
    by (simp add: engine_ok_def)
  show "store_view L (snd (put L opts sleep k v w)) = (store_view L w)(k \<mapsto> (v, - 1))"
    using store_view_update [of L "snd (put L opts sleep k v w)" w k "Some (v @ no_expiry)"] raw(3) w'
      decode_record_plain [OF assms(2)] by simp
qed

lemma remove_refines:
  assumes "engine_ok L w"
  shows "fst (remove L opts sleep k w)" and "engine_ok L (snd (remove L opts sleep k w))"
    and "store_view L (snd (remove L opts sleep k w)) = (store_view L w)(k := None)"
proof -
  from assms have L: "leveldb_ok L" "leveldb_healthy L" "w_db w \<noteq> None"
    by (simp_all add: engine_ok_def)
  note raw = raw_view_remove [OF L, of k]
  have w': "w_db (snd (remove L opts sleep k w)) = snd (Impl_remove L k (w_db w))"
    by (simp add: remove_def Let_def split: prod.splits)
  show "fst (remove L opts sleep k w)"
    using raw(1) by (simp add: remove_def Let_def case_prod_beta)
  have "records_ok L (snd (Impl_remove L k (w_db w)))"
    using records_ok_update [OF engine_ok_records [OF assms] raw(3)] by simp
  with L raw w' show "engine_ok L (snd (remove L opts sleep k w))"
    by (simp add: engine_ok_def)
  show "store_view L (snd (remove L opts sleep k w)) = (store_view L w)(k := None)"
    using store_view_update [of L "snd (remove L opts sleep k w)" w k None] raw(3) w' by simp
qed

text \<open>Reading a key of a well-formed engine, in terms of the abstract store.\<close>

lemma raw_value_cases:
  assumes "engine_ok L w"
  obtains (absent) "raw_view L (w_db w) k = None" "store_view L w k = None"
      "snd (Impl_get L k [] (w_db w)) = []"
  | (present) raw v e p where "raw_view L (w_db w) k = Some raw" "store_view L w k = Some (v, e)"
      "snd (Impl_get L k [] (w_db w)) = raw" "raw \<noteq> []" "TAB \<notin> set v" "str_find TAB raw = Some p"
      "stoull (drop (p + 1) raw) = Inr e" "take p raw = v"
proof (cases "raw_view L (w_db w) k")
  case None
  then show ?thesis by (intro absent) (simp_all add: store_view_def Impl_get_raw)
next
  case (Some raw)
  with assms obtain v e where ve: "decode_record raw = Some (v, e)"
    using engine_ok_records unfolding records_ok_def by (metis option.exhaust surj_pair)
  from decode_record_SomeD [OF ve] Some ve show ?thesis
    by (auto intro!: present [of raw v e] simp: store_view_def Impl_get_raw)
qed

lemma get_refines:
  assumes "engine_ok L w"
  shows "get L now k [] w =
    (case store_view L w k of
       None \<Rightarrow> (False, [], w)
     | Some (v, e) \<Rightarrow>
         if live now e then (True, v, w)
         else (False, [], w\<lparr>w_db := snd (Impl_remove L k (w_db w))\<rparr>))"
  using assms
proof (cases rule: raw_value_cases [where k = k])
  case (present raw v e p)
  then show ?thesis by (auto simp: get_def Let_def live_def)
qed (simp add: get_def)

lemma ttl_refines:
  assumes "engine_ok L w"
  shows "ttl L now k w = spec_ttl now (store_view L w) k"
  using assms
proof (cases rule: raw_value_cases [where k = k])
  case (present raw v e p)
  then show ?thesis by (auto simp: ttl_def spec_ttl_def Let_def live_def)
qed (simp add: ttl_def spec_ttl_def)

lemma lazy_remove:
  fixes k :: string
  assumes "engine_ok L w"
  defines "w' \<equiv> w\<lparr>w_db := snd (Impl_remove L k (w_db w))\<rparr>"
  shows "engine_ok L w'" and "store_view L w' = (store_view L w)(k := None)"
    and "raw_view L (w_db w') = (raw_view L (w_db w))(k := None)"
proof -
  from assms(1) have L: "leveldb_ok L" "leveldb_healthy L" "w_db w \<noteq> None"
    by (simp_all add: engine_ok_def)
  note raw = raw_view_remove [OF L, of k]
  then show r: "raw_view L (w_db w') = (raw_view L (w_db w))(k := None)"
    by (simp add: w'_def)
  then show "store_view L w' = (store_view L w)(k := None)"
    using store_view_update [of L w' w k None] by simp
  have "records_ok L (w_db w')"
    using records_ok_update [OF engine_ok_records [OF assms(1)] r] by simp
  with L raw show "engine_ok L w'" by (simp add: engine_ok_def w'_def)
qed

lemma get_engine_ok:
  "engine_ok L w \<Longrightarrow> engine_ok L (snd (snd (get L now k [] w)))"
  using lazy_remove by (auto simp: get_refines split: option.splits)

lemma put_raw:
  assumes "engine_ok L w"
  shows "fst (put L opts sleep k v w)" and "w_db (snd (put L opts sleep k v w)) \<noteq> None"
    and "raw_view L (w_db (snd (put L opts sleep k v w))) = (raw_view L (w_db w))(k \<mapsto> v @ no_expiry)"
proof -
  from assms have L: "leveldb_ok L" "leveldb_healthy L" "w_db w \<noteq> None"
    by (simp_all add: engine_ok_def)
  from raw_view_put [OF L, of k "v @ no_expiry"]
  show "fst (put L opts sleep k v w)" "w_db (snd (put L opts sleep k v w)) \<noteq> None"
    "raw_view L (w_db (snd (put L opts sleep k v w))) = (raw_view L (w_db w))(k \<mapsto> v @ no_expiry)"
    by (simp_all add: put_def Let_def case_prod_beta)
qed

lemma expire_absent:
  assumes "engine_ok L w" and "store_view L w k = None"
  shows "expire L opts sleep now k ts w = (False, w)"
  using assms(1)
proof (cases rule: raw_value_cases [where k = k])
  case absent
  then show ?thesis by (simp add: expire_def)
qed (use assms(2) in simp)

lemma expire_present:
  assumes "engine_ok L w" and "store_view L w k = Some (v, e)"
  shows "expire L opts sleep now k ts w
      = put L opts sleep k (v @ CHR 0x09 # to_string (unat (now + ts))) w"
    and "TAB \<notin> set v"
proof -
  from assms(1) have "expire L opts sleep now k ts w
      = put L opts sleep k (v @ CHR 0x09 # to_string (unat (now + ts))) w \<and> TAB \<notin> set v"
  proof (cases rule: raw_value_cases [where k = k])
    case (present raw v' e' p)
    with assms(2) show ?thesis by (simp add: expire_def Let_def)
  qed (use assms(2) in simp)
  then show "expire L opts sleep now k ts w
      = put L opts sleep k (v @ CHR 0x09 # to_string (unat (now + ts))) w" "TAB \<notin> set v"
    by simp_all
qed

lemma expire_refines:
  assumes "engine_ok L w"
  shows "fst (expire L opts sleep now k ts w) \<longleftrightarrow> store_view L w k \<noteq> None"
    and "engine_ok L (snd (expire L opts sleep now k ts w))"
    and "store_view L (snd (expire L opts sleep now k ts w)) =
      (case store_view L w k of None \<Rightarrow> store_view L w
       | Some (v, e) \<Rightarrow> (store_view L w)(k \<mapsto> (v, now + ts)))"
proof -
  let ?w' = "snd (expire L opts sleep now k ts w)"
  have "(fst (expire L opts sleep now k ts w) \<longleftrightarrow> store_view L w k \<noteq> None) \<and> engine_ok L ?w' \<and>
    store_view L ?w' = (case store_view L w k of None \<Rightarrow> store_view L w
       | Some (v, e) \<Rightarrow> (store_view L w)(k \<mapsto> (v, now + ts)))"
  proof (cases "store_view L w k")
    case None
    with assms show ?thesis by (simp add: expire_absent)
  next
    case (Some ve)
    obtain v e where ve: "store_view L w k = Some (v, e)" using Some by (cases ve) auto
    let ?val = "v @ CHR 0x09 # to_string (unat (now + ts))"
    note pr = put_raw [OF assms, where k = k and v = ?val and opts = opts and sleep = sleep]
    have dec: "decode_record (?val @ no_expiry) = Some (v, now + ts)"
      using decode_record_expiring [OF expire_present(2) [OF assms ve]] by simp
    have "records_ok L (w_db (snd (put L opts sleep k ?val w)))"
      using records_ok_update [OF engine_ok_records [OF assms] pr(3)] dec by simp
    with pr(1,2) assms store_view_update [OF pr(3)] dec ve expire_present(1) [OF assms ve]
    show ?thesis by (simp add: engine_ok_def)
  qed
  then show "fst (expire L opts sleep now k ts w) \<longleftrightarrow> store_view L w k \<noteq> None" "engine_ok L ?w'"
    "store_view L ?w' = (case store_view L w k of None \<Rightarrow> store_view L w
       | Some (v, e) \<Rightarrow> (store_view L w)(k \<mapsto> (v, now + ts)))"
    by blast+
qed

subsection \<open>The cleaner\<close>

definition expired_at :: "u64 \<Rightarrow> string \<Rightarrow> bool" where
  "expired_at now raw \<longleftrightarrow> (case decode_record raw of None \<Rightarrow> False | Some (v, e) \<Rightarrow> \<not> live now e)"

lemma live_antimono: "live now' e \<Longrightarrow> now \<le> now' \<Longrightarrow> live now e"
  by (auto simp: live_def)

lemma expired_at_mono: "expired_at now raw \<Longrightarrow> now \<le> now' \<Longrightarrow> expired_at now' raw"
  using live_antimono by (auto simp: expired_at_def split: option.splits)

lemma cleaner_entry_expired:
  "cleaner_entry L now (k, raw) dbo = (if expired_at now raw then snd (Impl_remove L k dbo) else dbo)"
  by (cases "str_find TAB raw")
    (simp_all add: cleaner_entry_def expired_at_def decode_record_def live_def not_less split: sum.split)

text \<open>
  A pass over entries that are still bound as the iterator shows them: it unbinds what had
  expired when it began, nothing that has not expired when it ends, and changes nothing else.
\<close>

lemma cleaner_entries_raw:
  assumes "leveldb_ok L" and "leveldb_healthy L" and "\<And>i. t0 \<le> clock i \<and> clock i \<le> t1"
  shows "dbo \<noteq> None \<Longrightarrow> distinct (map fst es) \<Longrightarrow> \<forall>(k, raw) \<in> set es. raw_view L dbo k = Some raw \<Longrightarrow>
    cleaner_entries L clock i es dbo \<noteq> None
    \<and> (\<forall>k. raw_view L (cleaner_entries L clock i es dbo) k = raw_view L dbo k
        \<or> raw_view L (cleaner_entries L clock i es dbo) k = None
          \<and> (\<exists>raw. raw_view L dbo k = Some raw \<and> expired_at t1 raw))
    \<and> (\<forall>(k, raw) \<in> set es. expired_at t0 raw \<longrightarrow> raw_view L (cleaner_entries L clock i es dbo) k = None)
    \<and> (\<forall>k. k \<notin> fst ` set es \<longrightarrow> raw_view L (cleaner_entries L clock i es dbo) k = raw_view L dbo k)"
proof (induction es arbitrary: i dbo)
  case (Cons e es)
  obtain k raw where e: "e = (k, raw)" by fastforce
  define dbo1 where "dbo1 = cleaner_entry L (clock i) e dbo"
  define dbo2 where "dbo2 = cleaner_entries L clock (Suc i) es dbo1"
  note rem = raw_view_remove [OF assms(1,2) Cons.prems(1), of k]
  have d1: "dbo1 \<noteq> None"
    "raw_view L dbo1 = (if expired_at (clock i) raw then (raw_view L dbo)(k := None) else raw_view L dbo)"
    using rem Cons.prems(1) by (simp_all add: dbo1_def e cleaner_entry_expired)
  have k: "k \<notin> fst ` set es" "raw_view L dbo k = Some raw" using Cons.prems by (auto simp: e)
  have "\<forall>(k', r) \<in> set es. raw_view L dbo1 k' = Some r"
  proof (clarify)
    fix k' r assume in_es: "(k', r) \<in> set es"
    then have "k' \<noteq> k" using k(1) by force
    with in_es Cons.prems(3) d1(2) show "raw_view L dbo1 k' = Some r" by auto
  qed
  from Cons.IH [OF d1(1) _ this, of "Suc i", folded dbo2_def] Cons.prems(2)
  have IH: "dbo2 \<noteq> None"
    "\<And>k'. raw_view L dbo2 k' = raw_view L dbo1 k' \<or> raw_view L dbo2 k' = None
      \<and> (\<exists>raw. raw_view L dbo1 k' = Some raw \<and> expired_at t1 raw)"
    "\<And>k' r. (k', r) \<in> set es \<Longrightarrow> expired_at t0 r \<Longrightarrow> raw_view L dbo2 k' = None"
    "\<And>k'. k' \<notin> fst ` set es \<Longrightarrow> raw_view L dbo2 k' = raw_view L dbo1 k'"
    by auto
  have t: "expired_at (clock i) raw \<Longrightarrow> expired_at t1 raw" "expired_at t0 raw \<Longrightarrow> expired_at (clock i) raw"
    using assms(3) expired_at_mono by blast+
  have "raw_view L dbo2 k' = raw_view L dbo k' \<or> raw_view L dbo2 k' = None
      \<and> (\<exists>raw. raw_view L dbo k' = Some raw \<and> expired_at t1 raw)" for k'
    using IH(2) [of k'] d1(2) k(2) t(1) by (cases "k' = k") (auto split: if_splits)
  moreover have "raw_view L dbo2 k' = None" if "(k', r) \<in> set (e # es)" "expired_at t0 r" for k' r
    using that IH(3) [of k' r] IH(4) [OF k(1)] d1(2) t(2) by (auto simp: e)
  moreover have "raw_view L dbo2 k' = raw_view L dbo k'" if "k' \<notin> fst ` set (e # es)" for k'
    using that IH(4) [of k'] d1(2) by (auto simp: e)
  ultimately show ?case
    using IH(1) by (auto simp: dbo1_def [symmetric] dbo2_def [symmetric])
qed simp

lemma ttl_cleaner_raw:
  assumes "engine_ok L w" and "\<And>i. t0 \<le> clock i \<and> clock i \<le> t1"
  shows "w_db (ttl_cleaner L clock w) \<noteq> None"
    and "raw_view L (w_db (ttl_cleaner L clock w)) k = raw_view L (w_db w) k
      \<or> raw_view L (w_db (ttl_cleaner L clock w)) k = None
        \<and> (\<exists>raw. raw_view L (w_db w) k = Some raw \<and> expired_at t1 raw)"
    and "raw_view L (w_db w) k = Some raw \<Longrightarrow> expired_at t0 raw \<Longrightarrow>
      raw_view L (w_db (ttl_cleaner L clock w)) k = None"
proof -
  from assms(1) have L: "leveldb_ok L" "leveldb_healthy L" by (simp_all add: engine_ok_def)
  from assms(1) obtain d where d: "w_db w = Some d" by (auto simp: engine_ok_def)
  from L(1) have it: "distinct (map fst (ld_Iter L d))" "map_of (ld_Iter L d) = ld_Get L d"
    by (simp_all add: leveldb_ok_def)
  then have "\<forall>(k, raw) \<in> set (ld_Iter L d). raw_view L (Some d) k = Some raw"
    by (auto simp: raw_view_def simp flip: it(2))
  note c = cleaner_entries_raw [where clock = clock and i = 0, OF L assms(2) _ it(1) this]
  have w': "w_db (ttl_cleaner L clock w) = cleaner_entries L clock 0 (ld_Iter L d) (Some d)"
    by (simp add: ttl_cleaner_def Impl_newIterator_def d)
  show "w_db (ttl_cleaner L clock w) \<noteq> None" using c w' by auto
  show "raw_view L (w_db (ttl_cleaner L clock w)) k = raw_view L (w_db w) k
      \<or> raw_view L (w_db (ttl_cleaner L clock w)) k = None
        \<and> (\<exists>raw. raw_view L (w_db w) k = Some raw \<and> expired_at t1 raw)"
    using c w' d by auto
  show "raw_view L (w_db (ttl_cleaner L clock w)) k = None"
    if "raw_view L (w_db w) k = Some raw" "expired_at t0 raw"
  proof -
    from that(1) d it(2) have "(k, raw) \<in> set (ld_Iter L d)"
      by (metis map_of_SomeD option.simps(5) raw_view_def)
    with c that(2) w' show ?thesis by auto
  qed
qed

lemma visible_raw:
  "visible now (store_view L w) k =
     (case raw_view L (w_db w) k of None \<Rightarrow> None
      | Some raw \<Rightarrow> if expired_at now raw then None else map_option fst (decode_record raw))"
  by (auto simp: visible_def store_view_def expired_at_def split: option.splits)

section \<open>The interface to the command handlers and the replica\<close>

text \<open>
  The contract of the engine: \<open>ok\<close> is its invariant, \<open>view\<close> the abstract store.  The laws say what
  each operation does to the view; the client lemmas are the facts about sequences of operations
  that callers rely on.
\<close>

locale expiring_store =
  fixes ok :: "'w \<Rightarrow> bool"
    and view :: "'w \<Rightarrow> store"
    and sput :: "string \<Rightarrow> string \<Rightarrow> 'w \<Rightarrow> bool \<times> 'w"
    and sget :: "u64 \<Rightarrow> string \<Rightarrow> 'w \<Rightarrow> bool \<times> string \<times> 'w"
    and srem :: "string \<Rightarrow> 'w \<Rightarrow> bool \<times> 'w"
    and sttl :: "u64 \<Rightarrow> string \<Rightarrow> 'w \<Rightarrow> int"
    and sexp :: "u64 \<Rightarrow> string \<Rightarrow> u64 \<Rightarrow> 'w \<Rightarrow> bool \<times> 'w"
  assumes put_ok: "ok w \<Longrightarrow> TAB \<notin> set v \<Longrightarrow>
      fst (sput k v w) \<and> ok (snd (sput k v w)) \<and> view (snd (sput k v w)) = (view w)(k \<mapsto> (v, - 1))"
    and rem_ok: "ok w \<Longrightarrow>
      fst (srem k w) \<and> ok (snd (srem k w)) \<and> view (snd (srem k w)) = (view w)(k := None)"
    and get_ok: "ok w \<Longrightarrow> sget now k w = (r, v, w') \<Longrightarrow>
      ok w' \<and> visible now (view w) k = (if r then Some v else None)
      \<and> (\<forall>now' \<ge> now. visible now' (view w') = visible now' (view w))"
    and ttl_ok: "ok w \<Longrightarrow> sttl now k w = spec_ttl now (view w) k"
    and exp_ok: "ok w \<Longrightarrow> ok (snd (sexp now k ts w))
      \<and> (fst (sexp now k ts w) \<longleftrightarrow> view w k \<noteq> None)
      \<and> view (snd (sexp now k ts w)) =
          (case view w k of None \<Rightarrow> view w | Some (v, e) \<Rightarrow> (view w)(k \<mapsto> (v, now + ts)))"
begin

lemma get_result: "ok w \<Longrightarrow> (fst (sget now k w), fst (snd (sget now k w))) = (True, v)
    \<longleftrightarrow> visible now (view w) k = Some v"
  using get_ok [of w now k "fst (sget now k w)" "fst (snd (sget now k w))" "snd (snd (sget now k w))"]
  by (auto split: if_splits)

lemma get_missing: "ok w \<Longrightarrow> \<not> fst (sget now k w) \<longleftrightarrow> visible now (view w) k = None"
  using get_ok [of w now k "fst (sget now k w)" "fst (snd (sget now k w))" "snd (snd (sget now k w))"]
  by (auto split: if_splits)

lemma get_after_put:
  assumes "ok w" and "TAB \<notin> set v"
  shows "(fst (sget now k (snd (sput k v w))), fst (snd (sget now k (snd (sput k v w))))) = (True, v)"
  using put_ok [OF assms, of k] by (subst get_result) (simp_all add: visible_def live_def)

lemma get_after_put_other:
  assumes "ok w" and "TAB \<notin> set v" and "k' \<noteq> k"
  shows "(fst (sget now k' (snd (sput k v w))), fst (snd (sget now k' (snd (sput k v w))))) = (True, u)
    \<longleftrightarrow> (fst (sget now k' w), fst (snd (sget now k' w))) = (True, u)"
  using put_ok [OF assms(1,2), of k] get_result assms by (simp add: visible_def)

lemma get_after_remove: "ok w \<Longrightarrow> \<not> fst (sget now k (snd (srem k w)))"
  using rem_ok [of w k] by (simp add: get_missing visible_def)

lemma ttl_after_put: "ok w \<Longrightarrow> TAB \<notin> set v \<Longrightarrow> sttl now k (snd (sput k v w)) = - 1"
  using put_ok [of w v k] by (simp add: ttl_ok spec_ttl_def)

text \<open>
  After \<^verbatim>\<open>EXPIRE\<close> on a key with a time that does not run past the 64-bit range: the remaining
  time counts down and the key disappears when it is over.
\<close>

lemma ttl_after_expire:
  assumes "ok w" and "view w k \<noteq> None" and "now \<le> t" and "t < now + ts" and "now + ts \<noteq> - 1"
  shows "sttl t k (snd (sexp now k ts w)) = sint (now + ts - t)"
  using assms exp_ok [of w now k ts] by (auto simp: ttl_ok spec_ttl_def live_def split: option.splits)

lemma get_after_expire:
  assumes "ok w" and "view w k = Some (v, e)" and "now + ts \<noteq> - 1"
  shows "t < now + ts \<Longrightarrow>
      (fst (sget t k (snd (sexp now k ts w))), fst (snd (sget t k (snd (sexp now k ts w))))) = (True, v)"
    and "now + ts \<le> t \<Longrightarrow> \<not> fst (sget t k (snd (sexp now k ts w)))"
  using assms exp_ok [of w now k ts]
  by (simp_all add: get_result get_missing visible_def live_def del: prod.inject)

end

text \<open>Lazy deletion is invisible from the time of the read on.\<close>

lemma get_visible:
  assumes "engine_ok L w" and "now \<le> now'"
  shows "visible now' (store_view L (snd (snd (get L now k [] w)))) = visible now' (store_view L w)"
proof (cases "store_view L w k")
  case None
  with assms show ?thesis by (simp add: get_refines)
next
  case (Some ve)
  obtain v e where ve: "store_view L w k = Some (v, e)" using Some by (cases ve) auto
  show ?thesis
  proof (cases "live now e")
    case False
    then have "\<not> live now' e" using live_antimono assms(2) by blast
    with False ve lazy_remove(2) [OF assms(1), of k] assms(1) show ?thesis
      by (auto simp: get_refines visible_def fun_eq_iff)
  qed (use ve assms in \<open>simp add: get_refines\<close>)
qed

interpretation engine: expiring_store "engine_ok L" "store_view L" "put L opts sleep"
    "\<lambda>now k. get L now k []" "remove L opts sleep" "ttl L" "expire L opts sleep"
  for L :: "'d leveldb" and opts :: options and sleep :: "'l aof \<Rightarrow> 'l aof"
proof unfold_locales
  fix w :: "('d, 'l) wrapper" and now k r v w'
  assume w: "engine_ok L w" and g: "get L now k [] w = (r, v, w')"
  have "visible now (store_view L w) k = (if r then Some v else None)"
    using g by (auto simp: get_refines [OF w] visible_def split: option.splits if_splits)
  with w g get_visible [OF w] get_engine_ok [OF w, of now k]
  show "engine_ok L w' \<and> visible now (store_view L w) k = (if r then Some v else None)
      \<and> (\<forall>now' \<ge> now. visible now' (store_view L w') = visible now' (store_view L w))"
    by (metis snd_conv)
qed (simp_all add: put_refines remove_refines ttl_refines expire_refines)

section \<open>What is logged\<close>

text \<open>
  While a caller is blocked only the writer runs: it makes room, keeps the stop flag and accepts
  nothing.
\<close>

definition sleep_ok :: "options \<Rightarrow> ('l aof \<Rightarrow> 'l aof) \<Rightarrow> bool" where
  "sleep_ok opts sleep \<longleftrightarrow> (\<forall>a. has_space opts (sleep a) \<and> aof_stop (sleep a) = aof_stop a
     \<and> aof_accepted (sleep a) = aof_accepted a)"

lemma log_command_accepts:
  assumes "\<not> aof_stop a" and "sleep_ok opts sleep"
  shows "aof_accepted (log_command opts sleep cmd a) = aof_accepted a @ [serializeToRESP cmd]"
    and "\<not> aof_stop (log_command opts sleep cmd a)"
  using assms
  by (auto simp: log_command_def appendCommandAsync_def appendRawAsync_def appendCommandBlocking_def
      appendRawBlocking_def blocking_resume_def push_payload_def has_space_def sleep_ok_def)

lemma log_command_stopped: "aof_stop a \<Longrightarrow> log_command opts sleep cmd a = a"
  by (simp add: log_command_def appendCommandAsync_def appendRawAsync_def appendCommandBlocking_def
      appendRawBlocking_def blocking_resume_def has_space_def)

section \<open>A concrete database\<close>

text \<open>An association list with the documented behaviour: the hypotheses can be met.\<close>

definition mem_leveldb :: "(string \<times> string) list leveldb" where
  "mem_leveldb = \<lparr>ld_Open = (\<lambda>_ _. Some []),
     ld_Put = (\<lambda>k v d. (True, AList.update k v d)),
     ld_Get = map_of,
     ld_Delete = (\<lambda>k d. (True, AList.delete k d)),
     ld_Write = (\<lambda>ops d. (True, fold (\<lambda>op d. case op of Ld_put k v \<Rightarrow> AList.update k v d
        | Ld_delete k \<Rightarrow> AList.delete k d) ops d)),
     ld_Iter = AList.clearjunk,
     ld_GetSnapshot = (\<lambda>d. (0, d)),
     ld_ReleaseSnapshot = (\<lambda>_ d. d)\<rparr>"

lemma mem_leveldb_ok: "leveldb_ok mem_leveldb"
  by (simp add: leveldb_ok_def mem_leveldb_def update_conv' delete_conv' map_of_clearjunk distinct_clearjunk)

lemma mem_leveldb_healthy: "leveldb_healthy mem_leveldb"
  by (simp add: leveldb_healthy_def mem_leveldb_def)

definition mem_wrapper :: "(string \<times> string) list \<Rightarrow> ((string \<times> string) list, nat) wrapper" where
  "mem_wrapper d = \<lparr>w_db = Some d, w_aof = example_aof\<rparr>"

lemma mem_wrapper_ok:
  "\<forall>(k, raw) \<in> set d. decode_record raw \<noteq> None \<Longrightarrow> engine_ok mem_leveldb (mem_wrapper d)"
proof -
  assume d: "\<forall>(k, raw) \<in> set d. decode_record raw \<noteq> None"
  have "ld_Get mem_leveldb = map_of" by (simp add: mem_leveldb_def)
  with d have "records_ok mem_leveldb (Some d)"
    by (auto simp: records_ok_def raw_view_def dest!: map_of_SomeD)
  then show ?thesis
    by (simp add: engine_ok_def mem_leveldb_ok mem_leveldb_healthy mem_wrapper_def)
qed

lemma mem_wrapper_empty: "engine_ok mem_leveldb (mem_wrapper [])"
  by (rule mem_wrapper_ok) simp

section \<open>Properties\<close>

text \<open>
  After a \<^verbatim>\<open>put\<close> of a value without a tab, \<^verbatim>\<open>get\<close> returns that value at every time, \<^verbatim>\<open>ttl\<close> reports
  that it never expires, a later \<^verbatim>\<open>remove\<close> makes it unreadable, and reads of every other key return
  what they returned before.
\<close>

theorem set_get_remove:
  fixes L :: "'d leveldb" and w :: "('d, 'l) wrapper" and k :: string and opts :: options
    and sleep :: "'l aof \<Rightarrow> 'l aof"
  assumes "engine_ok L w" and "TAB \<notin> set v"
  defines "w1 \<equiv> snd (put L opts sleep k v w)"
  shows "fst (put L opts sleep k v w)
    \<and> (fst (get L now k [] w1), fst (snd (get L now k [] w1))) = (True, v)
    \<and> ttl L now k w1 = - 1
    \<and> \<not> fst (get L now k [] (snd (remove L opts sleep k w1)))
    \<and> (k' \<noteq> k \<longrightarrow>
        (fst (get L now k' [] w1), fst (snd (get L now k' [] w1))) = (True, u)
        \<longleftrightarrow> (fst (get L now k' [] w), fst (snd (get L now k' [] w))) = (True, u))"
proof -
  from put_refines(1,2) [OF assms(1,2)] have p: "fst (put L opts sleep k v w)" "engine_ok L w1"
    by (simp_all add: w1_def)
  show ?thesis
    using p(1) engine.get_after_put [OF assms(1,2), of now k opts sleep] engine.get_after_remove [OF p(2)]
      engine.ttl_after_put [OF assms(1,2), of now k opts sleep]
      engine.get_after_put_other [OF assms(1,2), of k' k now opts sleep u]
    by (simp add: w1_def)
qed

theorem set_get_remove_witness:
  "(fst (get mem_leveldb 5 ''k'' [] (snd (put mem_leveldb main_options id ''k'' ''v'' (mem_wrapper [])))),
    fst (snd (get mem_leveldb 5 ''k'' [] (snd (put mem_leveldb main_options id ''k'' ''v'' (mem_wrapper []))))))
   = (True, ''v'')"
  using set_get_remove [OF mem_wrapper_empty, of "''v''" main_options id "''k''" 5] by simp

text \<open>
  The effect of \<^verbatim>\<open>expire\<close> on a readable key whose deadline neither wraps nor hits the never marker: it succeeds;
  before the deadline the value is still readable and \<^verbatim>\<open>ttl\<close> is the time that is left; from the
  deadline on the key reads as absent and \<^verbatim>\<open>ttl\<close> is -2.  On an absent key it fails and changes
  nothing.
\<close>

theorem expire_then_read:
  fixes L :: "'d leveldb" and w :: "('d, 'l) wrapper" and k :: string and opts :: options
    and sleep :: "'l aof \<Rightarrow> 'l aof" and now ts :: u64
  assumes "engine_ok L w"
  defines "w1 \<equiv> snd (expire L opts sleep now k ts w)"
  shows "(store_view L w k = None \<longrightarrow> expire L opts sleep now k ts w = (False, w))
    \<and> (\<forall>v e. store_view L w k = Some (v, e) \<and> now \<le> now + ts \<and> now + ts \<noteq> - 1 \<longrightarrow>
        fst (expire L opts sleep now k ts w)
        \<and> (\<forall>t. now \<le> t \<and> t < now + ts \<longrightarrow>
             (fst (get L t k [] w1), fst (snd (get L t k [] w1))) = (True, v)
             \<and> ttl L t k w1 = sint (now + ts - t))
        \<and> (\<forall>t. now + ts \<le> t \<longrightarrow> \<not> fst (get L t k [] w1) \<and> ttl L t k w1 = - 2))"
proof (intro conjI impI allI; (elim conjE)?)
  assume "store_view L w k = None"
  then show "expire L opts sleep now k ts w = (False, w)" by (rule expire_absent [OF assms(1)])
next
  fix v e assume ve: "store_view L w k = Some (v, e)" and r: "now \<le> now + ts" "now + ts \<noteq> - 1"
  note ex = expire_refines [OF assms(1), of opts sleep now k ts]
  show "fst (expire L opts sleep now k ts w)" using ex(1) ve by simp
  fix t
  show "(fst (get L t k [] w1), fst (snd (get L t k [] w1))) = (True, v)" if "now \<le> t" "t < now + ts"
    using engine.get_after_expire(1) [OF assms(1) ve r(2) that(2), of opts sleep] by (simp add: w1_def)
  show "ttl L t k w1 = sint (now + ts - t)" if "now \<le> t" "t < now + ts"
    using engine.ttl_after_expire [OF assms(1) _ that r(2), of k opts sleep] ve by (simp add: w1_def)
  show "\<not> fst (get L t k [] w1)" if "now + ts \<le> t"
    using engine.get_after_expire(2) [OF assms(1) ve r(2) that, of opts sleep] by (simp add: w1_def)
  show "ttl L t k w1 = - 2" if "now + ts \<le> t"
    using ttl_refines [OF ex(2), of t k] ex(3) ve leD [OF that] r(2)
    by (simp add: w1_def spec_ttl_def live_def)
qed

lemma example_record: "store_view mem_leveldb (mem_wrapper [(''k'', ''v'' @ no_expiry)]) ''k'' = Some (''v'', - 1)"
  by (simp add: store_view_def raw_view_def mem_wrapper_def mem_leveldb_def decode_record_plain
      del: append.simps)

lemma example_record_ok: "engine_ok mem_leveldb (mem_wrapper [(''k'', ''v'' @ no_expiry)])"
  by (rule mem_wrapper_ok) (simp add: decode_record_plain del: append.simps)

theorem expire_then_read_witness:
  "ttl mem_leveldb 103 ''k'' (snd (expire mem_leveldb main_options id 100 ''k'' 10
     (mem_wrapper [(''k'', ''v'' @ no_expiry)]))) = 7
   \<and> \<not> fst (get mem_leveldb 110 ''k'' [] (snd (expire mem_leveldb main_options id 100 ''k'' 10
     (mem_wrapper [(''k'', ''v'' @ no_expiry)]))))"
  using expire_then_read [OF example_record_ok, of "''k''" main_options id 100 10] example_record
  by simp





text \<open>
  Values with a tab are not stored faithfully.  A value that ends in a tab and a number reads
  back as if \<^verbatim>\<open>EXPIRE\<close> had been called with that absolute time: when the time is not in the future,
  the key that was just set successfully is reported absent and deleted.
\<close>

theorem tab_value_lost:
  assumes "engine_ok L w" and "TAB \<notin> set v" and "e \<noteq> - 1" and "e \<le> now"
  defines "val \<equiv> v @ CHR 0x09 # to_string (unat e)"
  shows "fst (put L opts sleep k val w)
    \<and> \<not> fst (get L now k [] (snd (put L opts sleep k val w)))
    \<and> raw_view L (w_db (snd (snd (get L now k [] (snd (put L opts sleep k val w)))))) k = None"
proof -
  let ?w = "snd (put L opts sleep k val w)"
  note pr = put_raw [OF assms(1), where k = k and v = val and opts = opts and sleep = sleep]
  have dec: "decode_record (val @ no_expiry) = Some (v, e)"
    unfolding val_def by (rule decode_record_expiring [OF assms(2)])
  have ok: "engine_ok L ?w"
    using records_ok_update [OF engine_ok_records [OF assms(1)] pr(3)] dec pr(2) assms(1)
    by (simp add: engine_ok_def)
  have view: "store_view L ?w k = Some (v, e)" using store_view_update [OF pr(3)] dec by simp
  have "\<not> live now e" using assms(3,4) by (simp add: live_def not_less)
  with pr(1) get_refines [OF ok, of now k] view lazy_remove(3) [OF ok, of k] show ?thesis by simp
qed

theorem tab_value_lost_witness:
  "\<not> fst (get mem_leveldb 1000 ''k'' []
     (snd (put mem_leveldb main_options id ''k'' (''price'' @ CHR 0x09 # to_string (unat (42 :: u64))) (mem_wrapper []))))"
  using tab_value_lost [OF mem_wrapper_empty, of "''price''" 42 1000 main_options id "''k''"] by simp

text \<open>
  C39: the cleaner can delete a fresh value: if a client overwrites a key after the cleaner's iterator
  showed its expired record and before the cleaner removes it, the value the client was told is
  stored is gone.
\<close>

theorem cleaner_deletes_fresh_value:
  fixes L :: "'d leveldb" and w :: "('d, 'l) wrapper" and k :: string and opts :: options
    and sleep :: "'l aof \<Rightarrow> 'l aof"
  assumes "engine_ok L w" and "expired_at now stale" and "TAB \<notin> set v"
  defines "w1 \<equiv> snd (put L opts sleep k v w)"
  shows "fst (put L opts sleep k v w)
    \<and> (fst (get L now k [] w1), fst (snd (get L now k [] w1))) = (True, v)
    \<and> \<not> fst (get L now k [] (w1\<lparr>w_db := cleaner_entry L now (k, stale) (w_db w1)\<rparr>))"
proof -
  have w1: "engine_ok L w1" using put_refines(2) [OF assms(1,3)] by (simp add: w1_def)
  let ?w2 = "w1\<lparr>w_db := snd (Impl_remove L k (w_db w1))\<rparr>"
  have "store_view L ?w2 k = None" using lazy_remove(2) [OF w1, of k] by simp
  then have "\<not> fst (get L now k [] ?w2)"
    using get_refines [OF lazy_remove(1) [OF w1, of k], of now k] by simp
  moreover have "cleaner_entry L now (k, stale) (w_db w1) = snd (Impl_remove L k (w_db w1))"
    using assms(2) by (simp add: cleaner_entry_expired)
  ultimately show ?thesis
    using put_refines(1) [OF assms(1,3)] engine.get_after_put [OF assms(1,3), of now k opts sleep]
    by (simp add: w1_def)
qed

theorem cleaner_deletes_fresh_value_witness:
  "\<not> fst (get mem_leveldb 9 ''k'' [] ((snd (put mem_leveldb main_options id ''k'' ''new'' (mem_wrapper [])))
     \<lparr>w_db := cleaner_entry mem_leveldb 9 (''k'', (''old'' @ CHR 0x09 # to_string (unat (7 :: u64))) @ no_expiry)
       (w_db (snd (put mem_leveldb main_options id ''k'' ''new'' (mem_wrapper []))))\<rparr>))"
proof -
  have "expired_at 9 ((''old'' @ CHR 0x09 # to_string (unat (7 :: u64))) @ no_expiry)"
    using decode_record_expiring [of "''old''" 7] by (simp add: expired_at_def live_def)
  from cleaner_deletes_fresh_value [OF mem_wrapper_empty this, of "''new''" main_options id "''k''"]
  show ?thesis by simp
qed

text \<open>
  Write-ahead logging: while the log is not stopped, \<^verbatim>\<open>put\<close> and \<^verbatim>\<open>remove\<close> append their command to
  it exactly once, whatever the database then answers, including when there is no database.  Once
  the log is stopped they log nothing and still change the database and report its answer.
\<close>

theorem writes_are_logged:
  assumes "sleep_ok opts sleep"
  shows "(\<not> aof_stop (w_aof w) \<longrightarrow>
        aof_accepted (w_aof (snd (put L opts sleep k v w)))
          = aof_accepted (w_aof w) @ [serializeToRESP [''SET'', k, v]]
      \<and> aof_accepted (w_aof (snd (remove L opts sleep k w)))
          = aof_accepted (w_aof w) @ [serializeToRESP [''DEL'', k]])
    \<and> (aof_stop (w_aof w) \<longrightarrow>
        w_aof (snd (put L opts sleep k v w)) = w_aof w \<and> w_aof (snd (remove L opts sleep k w)) = w_aof w)
    \<and> fst (put L opts sleep k v w) = fst (Impl_put L k (v @ no_expiry) (w_db w))
    \<and> fst (remove L opts sleep k w) = fst (Impl_remove L k (w_db w))"
  using log_command_accepts [OF _ assms]
  by (simp add: put_def remove_def Let_def case_prod_beta log_command_stopped)

theorem writes_are_logged_witness:
  "aof_accepted (w_aof (snd (put mem_leveldb main_options (\<lambda>a. a\<lparr>aof_queue := []\<rparr>) ''k'' ''v'' (mem_wrapper []))))
   = [serializeToRESP [''SET'', ''k'', ''v'']]"
proof -
  have "sleep_ok main_options (\<lambda>a :: nat aof. a\<lparr>aof_queue := []\<rparr>)"
    by (simp add: sleep_ok_def has_space_def main_options_def)
  from writes_are_logged [OF this, of "mem_wrapper []" mem_leveldb "''k''" "''v''"] show ?thesis
    by (simp add: mem_wrapper_def example_aof_def startWriter_def)
qed

end
