(* ===== verification/Replication.thy ===== *)
theory Replication
  imports Protocol Durability Storage
begin

text \<open>
  Replication: the listener and the connection handler of \<^verbatim>\<open>src/src/replica/server.cpp\<close> on the master,
  and the replica loop of \<^verbatim>\<open>src/src/replica/replicate.cpp\<close>.  A listener is known by the descriptor of
  its connection, as the code intends (the closure refers to a variable of the accept loop); the
  connections of the process are a function from descriptors to sockets.  The theory shows that the
  commands a listener forwards are exactly what the replica applies, when a listener forwards
  anything at all, and what a replica does with a stream that ends.
\<close>

section \<open>The master\<close>

text \<open>
  The entity a listener builds from a logged command.  The outer \<open>None\<close> is an access past the end of
  the vector \<^verbatim>\<open>parts\<close>, which C++ leaves undefined; the inner one is a return without sending.
\<close>

definition listener_entity :: "u64 \<Rightarrow> string list \<Rightarrow> DataEntity option option" where
  "listener_entity offset_to_read parts =
     (case parts of
        [] \<Rightarrow> Some None
      | cmd # args \<Rightarrow>
          let dataEntity = DataEntity_init\<lparr>de_sequence := offset_to_read, de_cmd := cmd\<rparr> in
          if cmd = ''SET'' then
            (case args of
               k # v # _ \<Rightarrow> Some (Some (dataEntity\<lparr>de_key := k, de_value := v\<rparr>))
             | _ \<Rightarrow> None)
          else if cmd = ''DEL'' then
            (case args of k # _ \<Rightarrow> Some (Some (dataEntity\<lparr>de_key := k\<rparr>)) | _ \<Rightarrow> None)
          else Some None)"

type_synonym socks = "int \<Rightarrow> sock"

text \<open>The callback for one command; the state \<open>None\<close> means that undefined behaviour was reached.\<close>

definition listener_exec ::
  "endian \<Rightarrow> (int \<Rightarrow> net) \<Rightarrow> u64 \<Rightarrow> int \<Rightarrow> string list \<Rightarrow> socks option \<Rightarrow> socks option" where
  "listener_exec en nets offset_to_read client_fd parts st =
     (case st of
        None \<Rightarrow> None
      | Some socks \<Rightarrow>
          (case listener_entity offset_to_read parts of
             None \<Rightarrow> None
           | Some None \<Rightarrow> Some socks
           | Some (Some e) \<Rightarrow>
               Some (socks(client_fd := snd (sendToSocket en (nets client_fd)
                       (fromDataEntity en INCR_SYNC e) (socks client_fd))))))"

definition listener ::
  "endian \<Rightarrow> (int \<Rightarrow> net) \<Rightarrow> log_env \<Rightarrow> int aof \<Rightarrow> int \<Rightarrow> socks option \<Rightarrow> socks option \<times> bool exn_or" where
  "listener en nets env a client_fd st =
     (let offset_to_read = getCurrentOffset a
      in readCommandsFromOffset env offset_to_read
           (listener_exec en nets (of_nat offset_to_read) client_fd) (aof_file a) st)"

text \<open>
  The handler of one replica.  \<open>clock\<close> gives the readings of the steady clock in nanoseconds: one before
  the loop and two for each round, of which the first is used when a heartbeat arrives.  An exception
  leaves the thread and ends the process.
\<close>

datatype handler_end = Handler_closed | Handler_terminates cxx_exn

definition CHUNK_SIZE :: nat where "CHUNK_SIZE = 4096"

definition send_full_sync :: "sock \<Rightarrow> sock" where "send_full_sync s = s"

definition handle_message :: "Message \<Rightarrow> nat \<Rightarrow> nat \<Rightarrow> sock \<Rightarrow> nat \<times> sock" where
  "handle_message header now last_heartbeat s =
     (if msg_type header = FULL_SYNC then (last_heartbeat, send_full_sync s)
      else if msg_type header = INCR_SYNC then (last_heartbeat, s)
      else if msg_type header = HEARTBEAT then (now, s)
      else (last_heartbeat, s))"

lemma recv_all_nonempty_consumes:
  "recv_all net (b # bs) s = (True, buf, s') \<Longrightarrow> length (sock_rx s') < length (sock_rx s)"
  using tcp.recv_law [of net "b # bs" s True buf s'] by auto

lemma recv_all_length: "recv_all net buf s = (ok, buf', s') \<Longrightarrow> length (sock_rx s') \<le> length (sock_rx s)"
  using tcp.recv_law [of net buf s ok buf' s'] by auto

lemma recvFromSocket_consumes:
  assumes "recvFromSocket en max_size net m s = (m', s', Inr True)"
  shows "length (sock_rx s') < length (sock_rx s)"
proof -
  obtain ok1 b1 s1 where 1: "recv_all net [0] s = (ok1, b1, s1)" by (cases "recv_all net [0] s")
  obtain ok2 b2 s2 where 2: "recv_all net [0] s1 = (ok2, b2, s2)" by (cases "recv_all net [0] s1")
  obtain ok3 b3 s3 where 3: "recv_all net (replicate 2 0) s2 = (ok3, b3, s3)"
    by (cases "recv_all net (replicate 2 0) s2")
  obtain ok4 b4 s4 where 4: "recv_all net (replicate 8 0) s3 = (ok4, b4, s4)"
    by (cases "recv_all net (replicate 8 0) s3")
  have oks: "ok1" "ok2" "ok3" "ok4"
    using assms by (auto simp: recvFromSocket_def 1 2 3 4 Let_def split: bool.splits)
  have "length (sock_rx s') \<le> length (sock_rx s4)"
    using assms oks by (auto simp: recvFromSocket_def 1 2 3 4 Let_def split: if_splits prod.splits dest: recv_all_length)
  with recv_all_length [OF 4] recv_all_length [OF 3] recv_all_length [OF 2] recv_all_nonempty_consumes [of net 0 "[]" s b1 s1] 1 oks(1)
  show ?thesis by simp
qed

function handle_loop ::
  "endian \<Rightarrow> nat \<Rightarrow> net \<Rightarrow> (nat \<Rightarrow> nat) \<Rightarrow> nat \<Rightarrow> nat \<Rightarrow> sock \<Rightarrow> sock \<times> handler_end" where
  "handle_loop en max_size net clock i last_heartbeat s =
     (case recvFromSocket en max_size net Message_init s of
        (header, s', Inl e) \<Rightarrow> (s', Handler_terminates e)
      | (header, s', Inr False) \<Rightarrow> (s', Handler_closed)
      | (header, s', Inr True) \<Rightarrow>
          (case handle_message header (clock i) last_heartbeat s' of
             (last', s'') \<Rightarrow>
               if 10 < (clock (i + 1) - last') div 10 ^ 9 then (s'', Handler_closed)
               else handle_loop en max_size net clock (i + 2) last' s''))"
  by pat_completeness auto
termination
  by (relation "measure (\<lambda>(en, max_size, net, clock, i, last_heartbeat, s). length (sock_rx s))")
    (auto simp: handle_message_def send_full_sync_def split: if_splits dest!: sym [of "(_, _, Inr True)"]
      recvFromSocket_consumes)

declare handle_loop.simps [simp del]

definition handle_replica ::
  "endian \<Rightarrow> nat \<Rightarrow> net \<Rightarrow> (nat \<Rightarrow> nat) \<Rightarrow> sock \<Rightarrow> sock \<times> handler_end" where
  "handle_replica en max_size net clock s =
     (let s1 = snd (send_ack en net 0 s)
      in handle_loop en max_size net clock 1 (clock 0) s1)"


text \<open>
  The accept loop: every result of \<^verbatim>\<open>accept\<close>, a negative one too, gets a listener and a handler thread;
  no listener is ever removed.  \<open>accepts\<close> are the results so far; the handlers started are returned.
  Nothing clears the flag \<^verbatim>\<open>running\<close>, so the loop does not end and the server's descriptor stays open.
\<close>

fun accept_loop :: "int list \<Rightarrow> int aof \<Rightarrow> int list \<Rightarrow> int aof \<times> int list" where
  "accept_loop [] a handlers = (a, handlers)"
| "accept_loop (client_fd # accepts) a handlers =
     accept_loop accepts (registerListener client_fd a) (handlers @ [client_fd])"

definition startServer ::
  "endian \<Rightarrow> socket_calls \<Rightarrow> u16 \<Rightarrow> int list \<Rightarrow> int aof \<Rightarrow> int list \<Rightarrow> (int aof \<times> int list) exn_or \<times> int list" where
  "startServer en sc port accepts a fds =
     (case create_server_socket en sc port fds of
        (Inl e, fds') \<Rightarrow> (Inl e, fds')
      | (Inr server_fd, fds') \<Rightarrow> (Inr (accept_loop accepts a []), filter (\<lambda>fd. 0 \<le> fd) accepts @ fds'))"

section \<open>The replica\<close>

definition replica_apply ::
  "endian \<Rightarrow> 'd leveldb \<Rightarrow> options \<Rightarrow> ('l aof \<Rightarrow> 'l aof) \<Rightarrow> Message \<Rightarrow> ('d, 'l) wrapper \<Rightarrow> ('d, 'l) wrapper" where
  "replica_apply en L opts sleep header w =
     (if msg_type header = FULL_SYNC then w
      else if msg_type header = INCR_SYNC then
        let entry = snd (toDataEntity en header DataEntity_init)
        in if de_cmd entry = [] then w
           else if de_cmd entry = ''DEL'' then snd (remove L opts sleep (de_key entry) w)
           else if de_cmd entry = ''SET'' then snd (put L opts sleep (de_key entry) (de_value entry) w)
           else w
      else w)"

text \<open>
  One round of the inner loop: the result of \<^verbatim>\<open>recvFromSocket\<close> is not looked at, so the message is
  applied as far as it was filled; only an exception leaves the loop.
\<close>

definition replica_round ::
  "endian \<Rightarrow> nat \<Rightarrow> net \<Rightarrow> 'd leveldb \<Rightarrow> options \<Rightarrow> ('l aof \<Rightarrow> 'l aof) \<Rightarrow> ('d, 'l) wrapper \<times> sock
    \<Rightarrow> (('d, 'l) wrapper \<times> sock) \<times> cxx_exn option" where
  "replica_round en max_size net L opts sleep st =
     (case st of (w, s) \<Rightarrow>
       case recvFromSocket en max_size net Message_init s of
         (header, s', Inl e) \<Rightarrow> ((w, s'), Some e)
       | (header, s', Inr _) \<Rightarrow> ((replica_apply en L opts sleep header w, s'), None))"

fun replica_rounds ::
  "nat \<Rightarrow> endian \<Rightarrow> nat \<Rightarrow> net \<Rightarrow> 'd leveldb \<Rightarrow> options \<Rightarrow> ('l aof \<Rightarrow> 'l aof) \<Rightarrow> ('d, 'l) wrapper \<times> sock
    \<Rightarrow> (('d, 'l) wrapper \<times> sock) \<times> cxx_exn option" where
  "replica_rounds 0 en max_size net L opts sleep st = (st, None)"
| "replica_rounds (Suc n) en max_size net L opts sleep st =
     (case replica_round en max_size net L opts sleep st of
        (st', Some e) \<Rightarrow> (st', Some e)
      | (st', None) \<Rightarrow> replica_rounds n en max_size net L opts sleep st')"

text \<open>
  The outer loop, over a sequence of connection attempts: what the calls of an attempt return, the
  network and the bytes that arrive on it, and for how many rounds its heartbeat thread and its inner
  loop are followed.  The next attempt is made after an exception only; a descriptor is not closed on
  that path.  The heartbeat thread only sends and the inner loop only receives, so the order in which
  they are run on the connection does not matter.  The state is the wrapper, the open descriptors and
  the connections made so far.
\<close>

record attempt =
  at_calls :: socket_calls
  at_net :: net
  at_rx :: "u8 list"
  at_beats :: nat
  at_rounds :: nat

fun startReplica ::
  "endian \<Rightarrow> nat \<Rightarrow> 'd leveldb \<Rightarrow> options \<Rightarrow> ('l aof \<Rightarrow> 'l aof) \<Rightarrow> string \<Rightarrow> u16 \<Rightarrow> attempt list
    \<Rightarrow> ('d, 'l) wrapper \<times> int list \<times> (int \<times> sock) list \<Rightarrow> ('d, 'l) wrapper \<times> int list \<times> (int \<times> sock) list" where
  "startReplica en max_size L opts sleep host port [] st = st"
| "startReplica en max_size L opts sleep host port (at # ats) (w, fds, conns) =
     (case create_client_socket en (at_calls at) host port fds of
        (Inl e, fds') \<Rightarrow> startReplica en max_size L opts sleep host port ats (w, fds', conns)
      | (Inr sockfd, fds') \<Rightarrow>
          let s0 = \<lparr>sock_tx = [], sock_sends = 0, sock_rx = at_rx at, sock_recvs = 0\<rparr>;
              s1 = snd (start_heartbeat en (at_net at) (at_beats at) s0)
          in case replica_rounds (at_rounds at) en max_size (at_net at) L opts sleep (w, s1) of
               ((w', s'), Some e) \<Rightarrow>
                 startReplica en max_size L opts sleep host port ats (w', fds', conns @ [(sockfd, s')])
             | ((w', s'), None) \<Rightarrow> (w', fds', conns @ [(sockfd, s')]))"

section \<open>Commands on the wire and on the database\<close>

text \<open>What a log command means for a database: the specification of both replication and replay.\<close>

definition apply_command ::
  "'d leveldb \<Rightarrow> options \<Rightarrow> ('l aof \<Rightarrow> 'l aof) \<Rightarrow> string list \<Rightarrow> ('d, 'l) wrapper \<Rightarrow> ('d, 'l) wrapper" where
  "apply_command L opts sleep cmd w =
     (case cmd of
        [c, k, v] \<Rightarrow> if c = ''SET'' then snd (put L opts sleep k v w) else w
      | [c, k] \<Rightarrow> if c = ''DEL'' then snd (remove L opts sleep k w) else w
      | _ \<Rightarrow> w)"

text \<open>The commands that the storage engine logs, of a size the protocol can carry.\<close>

definition sendable :: "string list \<Rightarrow> bool" where
  "sendable cmd \<longleftrightarrow>
     (\<exists>k v. cmd = [''SET'', k, v] \<and> length k < 2 ^ 32 \<and> length v < 2 ^ 32)
     \<or> (\<exists>k. cmd = [''DEL'', k] \<and> length k < 2 ^ 32)"

definition command_message :: "endian \<Rightarrow> u64 \<Rightarrow> string list \<Rightarrow> Message" where
  "command_message en offset cmd =
     (case listener_entity offset cmd of
        Some (Some e) \<Rightarrow> fromDataEntity en INCR_SYNC e | _ \<Rightarrow> Message_init)"

lemma sendable_entity:
  assumes "sendable cmd"
  shows "\<exists>e. listener_entity offset cmd = Some (Some e) \<and> entity_ok e
    \<and> command_message en offset cmd = fromDataEntity en INCR_SYNC e
    \<and> de_cmd e = hd cmd \<and> de_key e = cmd ! 1 \<and> (hd cmd = ''SET'' \<longrightarrow> de_value e = cmd ! 2)"
  using assms
  by (auto simp: sendable_def listener_entity_def command_message_def entity_ok_def DataEntity_init_def Let_def)

lemma entity_message_ok:
  assumes "entity_ok e" and "length (entity_bytes e) \<le> max_size"
  shows "message_ok max_size (fromDataEntity en t e)"
proof -
  have "length (entity_bytes e) < 2 ^ 64"
    using assms(1) by (simp add: entity_ok_def entity_bytes_def)
  with assms(2) show ?thesis
    by (simp add: message_ok_def fromDataEntity_def serialize_bytes unat_of_nat)
qed

lemma listener_exec_sends:
  assumes "sendable cmd" and "\<forall>i. net_send (nets fd) i \<noteq> None"
  shows "\<exists>s'. listener_exec en nets offset fd cmd (Some socks) = Some (socks(fd := s'))
    \<and> sock_tx s' = sock_tx (socks fd) @ wire (command_message en offset cmd) \<and> sock_rx s' = sock_rx (socks fd)"
proof -
  from sendable_entity [OF assms(1)] obtain e where
    e: "listener_entity offset cmd = Some (Some e)" "command_message en offset cmd = fromDataEntity en INCR_SYNC e"
    by blast
  from sendToSocket_good [OF assms(2)] obtain s' where
    "sendToSocket en (nets fd) (fromDataEntity en INCR_SYNC e) (socks fd) = (True, s')"
    "sock_tx s' = sock_tx (socks fd) @ wire (fromDataEntity en INCR_SYNC e)" "sock_rx s' = sock_rx (socks fd)"
    by blast
  with e show ?thesis by (auto simp: listener_exec_def)
qed

lemma listener_exec_fold:
  assumes "list_all sendable cmds" and "\<forall>i. net_send (nets fd) i \<noteq> None"
  shows "\<exists>s'. fold (listener_exec en nets offset fd) cmds (Some socks) = Some (socks(fd := s'))
    \<and> sock_tx s' = sock_tx (socks fd) @ concat (map (\<lambda>c. wire (command_message en offset c)) cmds)
    \<and> sock_rx s' = sock_rx (socks fd)"
  using assms(1)
proof (induction cmds arbitrary: socks)
  case Nil
  show ?case by (intro exI [of _ "socks fd"]) simp
next
  case (Cons c cs)
  from listener_exec_sends [of c nets fd en offset socks] Cons.prems assms(2) obtain s1 where
    s1: "listener_exec en nets offset fd c (Some socks) = Some (socks(fd := s1))"
    "sock_tx s1 = sock_tx (socks fd) @ wire (command_message en offset c)" "sock_rx s1 = sock_rx (socks fd)"
    by auto
  have "list_all sendable cs" using Cons.prems by simp
  from Cons.IH [OF this, of "socks(fd := s1)"] obtain s2 where
    "fold (listener_exec en nets offset fd) cs (Some (socks(fd := s1))) = Some (socks(fd := s1, fd := s2))"
    "sock_tx s2 = sock_tx s1 @ concat (map (\<lambda>c. wire (command_message en offset c)) cs)"
    "sock_rx s2 = sock_rx s1"
    unfolding fun_upd_same by blast
  with s1 show ?case unfolding fun_upd_upd by (intro exI [of _ s2]) (simp add: fun_upd_def)
qed


text \<open>The size limit the receiver's vector puts on a command.\<close>

definition fits :: "nat \<Rightarrow> string list \<Rightarrow> bool" where
  "fits max_size cmd \<longleftrightarrow> 20 + sum_list (map length cmd) \<le> max_size"

lemma sendable_message_ok:
  assumes "sendable cmd" and "fits max_size cmd" and "listener_entity offset cmd = Some (Some e)"
  shows "message_ok max_size (fromDataEntity en t e)"
proof (rule entity_message_ok)
  show "entity_ok e" using sendable_entity [OF assms(1), of offset] assms(3) by auto
  have "length (entity_bytes e) = 20 + length (de_cmd e) + length (de_key e) + length (de_value e)"
    by (simp add: entity_bytes_def)
  with assms show "length (entity_bytes e) \<le> max_size"
    by (auto simp: sendable_def listener_entity_def fits_def DataEntity_init_def Let_def)
qed

lemma replica_apply_entity:
  assumes "msg_type header = INCR_SYNC" and "snd (toDataEntity en header DataEntity_init) = e"
    and "de_cmd e = hd cmd" "de_key e = cmd ! 1" "hd cmd = ''SET'' \<longrightarrow> de_value e = cmd ! 2" and "sendable cmd"
  shows "replica_apply en L opts sleep header w = apply_command L opts sleep cmd w"
  using assms by (auto simp: replica_apply_def apply_command_def sendable_def message_types Let_def)

lemma replica_round_applies:
  assumes "\<forall>i. net_recv net i \<noteq> None" and "sendable cmd" and "fits max_size cmd"
    and "sock_rx s = wire (command_message en' offset cmd) @ rest"
  shows "\<exists>s'. replica_round en max_size net L opts sleep (w, s)
      = ((apply_command L opts sleep cmd w, s'), None) \<and> sock_rx s' = rest"
proof -
  from sendable_entity [OF assms(2), of offset en'] obtain e where
    e: "listener_entity offset cmd = Some (Some e)" "entity_ok e"
    "command_message en' offset cmd = fromDataEntity en' INCR_SYNC e"
    "de_cmd e = hd cmd" "de_key e = cmd ! 1" "hd cmd = ''SET'' \<longrightarrow> de_value e = cmd ! 2"
    by blast
  let ?m = "fromDataEntity en' INCR_SYNC e" and ?h = "received en (fromDataEntity en' INCR_SYNC e) Message_init"
  from recv_message [OF assms(1) sendable_message_ok [OF assms(2,3) e(1)], of s en' INCR_SYNC rest en Message_init]
    assms(4) e(3)
  obtain s' where r: "recvFromSocket en max_size net Message_init s = (?h, s', Inr True)" "sock_rx s' = rest"
    by auto
  have "msg_payload ?h = entity_bytes e" "msg_type ?h = INCR_SYNC"
    by (simp_all add: received_def fromDataEntity_def serialize_bytes)
  moreover have "deserialize en (entity_bytes e) DataEntity_init = (True, e)"
    using e(2) by (simp add: deserialize_iff)
  ultimately have "replica_apply en L opts sleep ?h w = apply_command L opts sleep cmd w"
    using e assms(2) by (intro replica_apply_entity) (simp_all add: toDataEntity_def)
  with r show ?thesis by (simp add: replica_round_def)
qed

lemma replica_rounds_apply:
  assumes "\<forall>i. net_recv net i \<noteq> None" and "list_all sendable cmds" and "list_all (fits max_size) cmds"
    and "sock_rx s = concat (map (\<lambda>c. wire (command_message en' offset c)) cmds) @ rest"
  shows "\<exists>s'. replica_rounds (length cmds) en max_size net L opts sleep (w, s)
      = ((fold (apply_command L opts sleep) cmds w, s'), None) \<and> sock_rx s' = rest"
  using assms(2-)
proof (induction cmds arbitrary: w s)
  case (Cons c cs)
  from replica_round_applies [OF assms(1), of c max_size s en' offset _ en L opts sleep w] Cons.prems
  obtain s1 where s1: "replica_round en max_size net L opts sleep (w, s)
      = ((apply_command L opts sleep c w, s1), None)"
    "sock_rx s1 = concat (map (\<lambda>c. wire (command_message en' offset c)) cs) @ rest"
    by auto
  from Cons.IH [OF _ _ s1(2), of "apply_command L opts sleep c w"] Cons.prems s1(1) show ?case by auto
qed simp

text \<open>A connection with nothing left to read: every round leaves the replica as it is.\<close>

lemma recv_all_empty:
  assumes "sock_rx s = []"
  shows "\<exists>s'. recv_all net [b] s = (False, [b], s') \<and> sock_rx s' = []"
proof -
  obtain ok buf' s' where r: "recv_all net [b] s = (ok, buf', s')" by (cases "recv_all net [b] s")
  with tcp.recv_law [OF r] assms show ?thesis by auto
qed

lemma replica_rounds_idle:
  assumes "sock_rx s = []"
  shows "\<exists>s'. replica_rounds n en max_size net L opts sleep (w, s) = ((w, s'), None) \<and> sock_rx s' = []"
  using assms
proof (induction n arbitrary: s)
  case (Suc n)
  from recv_all_empty [OF Suc.prems, of net 0] obtain s1 where
    "recv_all net [0] s = (False, [0], s1)" and s1: "sock_rx s1 = []" by blast
  then have "recvFromSocket en max_size net Message_init s = (Message_init, s1, Inr False)"
    by (simp add: recvFromSocket_def)
  then have "replica_round en max_size net L opts sleep (w, s) = ((w, s1), None)"
    by (simp add: replica_round_def replica_apply_def Message_init_def message_types)
  with Suc.IH [OF s1] show ?case by simp
qed simp


section \<open>Properties\<close>

lemma sendable_resp_ok: "sendable cmd \<Longrightarrow> resp_ok cmd"
  by (auto simp: sendable_def resp_ok_def)

text \<open>
  C10: what a listener forwards is what the replica applies.  When a listener runs while the published
  offset lies before whole logged commands (the writer has written them and not yet stored the new
  offset), it sends one message per command, and a replica of either byte order that receives these
  bytes, over any splitting of the stream, applies exactly those commands in order and is left with
  an empty stream.
\<close>

theorem replication_faithful:
  assumes "aof_file a = pre @ frames cmds" and "aof_offset a = length pre" and "length pre < 2 ^ 63"
    and "list_all sendable cmds" and "list_all (fits max_size) cmds"
    and "env_open env = Opened" and "env_lseek env" and "\<forall>i. env_read env i \<noteq> None"
    and "\<forall>i. net_send (nets fd) i \<noteq> None" and "\<forall>i. net_recv net i \<noteq> None"
  shows "\<exists>socks' bytes. listener en nets env a fd (Some socks) = (Some socks', Inr True)
    \<and> sock_tx (socks' fd) = sock_tx (socks fd) @ bytes \<and> (\<forall>fd'. fd' \<noteq> fd \<longrightarrow> socks' fd' = socks fd')
    \<and> (\<forall>s. sock_rx s = bytes \<longrightarrow>
         (\<exists>s'. replica_rounds (length cmds) en' max_size net L opts sleep (w, s)
             = ((fold (apply_command L opts sleep) cmds w, s'), None) \<and> sock_rx s' = []))"
proof -
  let ?bytes = "concat (map (\<lambda>c. wire (command_message en (of_nat (length pre)) c)) cmds)"
  from listener_exec_fold [of cmds nets fd en "of_nat (length pre)" socks] assms(4,9) obtain s' where
    s': "fold (listener_exec en nets (of_nat (length pre)) fd) cmds (Some socks) = Some (socks(fd := s'))"
    "sock_tx s' = sock_tx (socks fd) @ ?bytes" by blast
  have "list_all resp_ok cmds" using assms(4) by (auto simp: list_all_iff sendable_resp_ok)
  then have "readCommandsFromOffset env (length pre) (listener_exec en nets (of_nat (length pre)) fd)
      (aof_file a) (Some socks) = (Some (socks(fd := s')), Inr True)"
    using assms no_frame_Nil s'(1) by (subst read_from_frames [where tail = "[]"]) auto
  then have l: "listener en nets env a fd (Some socks) = (Some (socks(fd := s')), Inr True)"
    by (simp add: listener_def getCurrentOffset_def assms(2))
  have rounds: "\<exists>s'. replica_rounds (length cmds) en' max_size net L opts sleep (w, s)
      = ((fold (apply_command L opts sleep) cmds w, s'), None) \<and> sock_rx s' = []" if "sock_rx s = ?bytes" for s
    using replica_rounds_apply [OF assms(10,4,5), of s en "of_nat (length pre)" "[]" en' L opts sleep w] that by simp
  show ?thesis
    using l s'(2) rounds by (intro exI [of _ "socks(fd := s')"] exI [of _ ?bytes]) simp
qed

definition example_env :: log_env where
  "example_env = \<lparr>env_open = Opened, env_fstat = True, env_lseek = True, env_read = (\<lambda>i. Some 7)\<rparr>"

definition example_sock :: "u8 list \<Rightarrow> sock" where
  "example_sock rx = \<lparr>sock_tx = [], sock_sends = 0, sock_rx = rx, sock_recvs = 0\<rparr>"

definition example_log :: "string \<Rightarrow> nat \<Rightarrow> int aof" where
  "example_log log offset = \<lparr>aof_queue = [], aof_stop = False, aof_waiting = [], aof_notified = [],
     aof_listeners = [3], aof_pc = W_written, aof_started = True, aof_stopping = False, aof_fd = True,
     aof_file = log, aof_offset = offset, aof_synced = offset, aof_last_fsync = 0, aof_accepted = [],
     aof_lost = False\<rparr>"

theorem replication_faithful_witness:
  "\<exists>socks' bytes. listener Little (\<lambda>fd. example_net) example_env
        (example_log (''x'' @ frames [[''SET'', ''k'', ''v''], [''DEL'', ''j'']]) 1) 3
        (Some (\<lambda>fd. example_sock [])) = (Some socks', Inr True)
    \<and> sock_tx (socks' 3) = bytes
    \<and> (\<exists>s'. replica_rounds 2 Big 1000 example_net mem_leveldb main_options id
          (mem_wrapper [], example_sock bytes)
        = ((fold (apply_command mem_leveldb main_options id) [[''SET'', ''k'', ''v''], [''DEL'', ''j'']]
             (mem_wrapper []), s'), None))"
proof -
  let ?cmds = "[[''SET'', ''k'', ''v''], [''DEL'', ''j'']]"
  have "list_all sendable ?cmds" "list_all (fits 1000) ?cmds"
    by (simp_all add: sendable_def fits_def)
  then obtain socks' bytes where r: "listener Little (\<lambda>fd. example_net) example_env
        (example_log (''x'' @ frames ?cmds) 1) 3 (Some (\<lambda>fd. example_sock [])) = (Some socks', Inr True)"
    "sock_tx (socks' 3) = sock_tx (example_sock []) @ bytes"
    "\<forall>s. sock_rx s = bytes \<longrightarrow> (\<exists>s'. replica_rounds (length ?cmds) Big 1000 example_net mem_leveldb main_options id
          (mem_wrapper [], s) = ((fold (apply_command mem_leveldb main_options id) ?cmds (mem_wrapper []), s'), None)
          \<and> sock_rx s' = [])"
    using replication_faithful [of "example_log (''x'' @ frames ?cmds) 1" "''x''" ?cmds 1000 example_env
        "\<lambda>fd. example_net" 3 example_net Little "\<lambda>fd. example_sock []" Big mem_leveldb main_options id "mem_wrapper []"]
      example_net_good
    by (auto simp: example_log_def example_env_def)
  from r(3) [THEN spec [of _ "example_sock bytes"]] r(1,2) show ?thesis
    by (auto simp: example_sock_def numeral_2_eq_2)
qed


lemma listener_at_end:
  assumes "aof_offset a = length (aof_file a)" and "length (aof_file a) < 2 ^ 63"
    and "env_open env = Opened" and "env_lseek env" and "\<forall>i. env_read env i \<noteq> None"
  shows "listener en nets env a fd st = (st, Inr True)"
  using assms no_frame_Nil
    read_from_frames [of "[]" "[]" "length (aof_file a)" env "aof_file a"
      "listener_exec en nets (of_nat (length (aof_file a))) fd" st]
  by (simp add: listener_def getCurrentOffset_def)

lemma fold_silent: "(\<And>x. x \<in> set xs \<Longrightarrow> f x st = st) \<Longrightarrow> fold f xs st = st"
  by (induction xs) auto



lemma entity_bytes_cut:
  assumes "j \<le> length (de_value e)"
  shows "take (length (entity_bytes e) - (length (de_value e) - j)) (entity_bytes e)
      @ replicate (length (de_value e) - j) 0
    = entity_bytes (e\<lparr>de_value := take j (de_value e) @ replicate (length (de_value e) - j) (CHR 0x00)\<rparr>)"
proof -
  let ?v = "de_value e" and ?v' = "take j (de_value e) @ replicate (length (de_value e) - j) (CHR 0x00)"
  define h where "h = rev (le_bytes 8 (unat (de_sequence e))) @ be_field (de_cmd e) @ be_field (de_key e)
    @ rev (le_bytes 4 (unat (of_nat (length ?v) :: u32)))"
  have "entity_bytes e = h @ bytes_of ?v" by (simp add: h_def entity_bytes_def be_field_def del: le_bytes.simps)
  moreover have "length ?v' = length ?v" using assms by simp
  then have "entity_bytes (e\<lparr>de_value := ?v'\<rparr>) = h @ bytes_of ?v'"
    by (simp add: h_def entity_bytes_def be_field_def del: le_bytes.simps length_append)
  moreover have "bytes_of ?v' = take j (bytes_of ?v) @ replicate (length ?v - j) 0"
    by (simp add: bytes_of_def take_map)
  ultimately show ?thesis using assms by simp
qed

text \<open>
  C36: a message that is cut off inside its value is applied all the same: the replica does not look at
  the result of the receive, and stores the value with the missing bytes read as NUL.
\<close>

theorem truncated_value_stored:
  assumes "\<forall>i. net_recv net i \<noteq> None" and "sendable [''SET'', k, v]" and "fits max_size [''SET'', k, v]"
    and "j < length v"
    and "sock_rx s = take (length (wire (command_message en' offset [''SET'', k, v])) - (length v - j))
           (wire (command_message en' offset [''SET'', k, v]))"
  shows "\<exists>s'. replica_round en max_size net L opts sleep (w, s)
      = ((snd (put L opts sleep k (take j v @ replicate (length v - j) (CHR 0x00)) w), s'), None)"
proof -
  let ?v' = "take j v @ replicate (length v - j) (CHR 0x00)"
  define e where "e = \<lparr>de_sequence = offset, de_key = k, de_value = v, de_cmd = ''SET''\<rparr>"
  let ?m = "fromDataEntity en' INCR_SYNC e" and ?e' = "e\<lparr>de_value := ?v'\<rparr>"
  have l: "listener_entity offset [''SET'', k, v] = Some (Some e)"
    by (simp add: listener_entity_def e_def DataEntity_init_def Let_def)
  then have m: "command_message en' offset [''SET'', k, v] = ?m" by (simp add: command_message_def)
  have ok: "message_ok max_size ?m" by (rule sendable_message_ok [OF assms(2,3) l])
  have v: "de_value e = v" by (simp add: e_def)
  define d where "d = length (msg_payload ?m) - (length v - j)"
  have p: "msg_payload ?m = entity_bytes e" by (simp add: fromDataEntity_def serialize_bytes)
  have len: "length v \<le> length (entity_bytes e)" by (simp add: e_def entity_bytes_def)
  have d: "d < length (msg_payload ?m)" using assms(4) len by (simp add: d_def p)
  have "sock_rx s = take (12 + d) (wire ?m)"
    using assms(4,5) len by (simp add: m length_wire d_def p add.assoc)
  from recv_cut_message [OF assms(1) ok d this, of en] obtain s' where r:
    "recvFromSocket en max_size net Message_init s = ((received en ?m Message_init)\<lparr>msg_payload :=
       take d (msg_payload ?m) @ replicate (length (msg_payload ?m) - d) 0\<rparr>, s', Inr False)" by blast
  have "length (msg_payload ?m) - d = length v - j" using assms(4) len by (simp add: d_def p)
  then have pay: "take d (msg_payload ?m) @ replicate (length (msg_payload ?m) - d) 0 = entity_bytes ?e'"
    using entity_bytes_cut [of j e, unfolded v] assms(4) by (simp add: d_def p)
  have "entity_ok ?e'" using assms(2,4) by (simp add: sendable_def entity_ok_def e_def)
  then have "deserialize en (entity_bytes ?e') DataEntity_init = (True, ?e')" by (simp add: deserialize_iff)
  then have "replica_apply en L opts sleep ((received en ?m Message_init)\<lparr>msg_payload := entity_bytes ?e'\<rparr>) w
      = snd (put L opts sleep k ?v' w)"
    by (simp add: replica_apply_def received_def fromDataEntity_def message_types toDataEntity_def e_def Let_def)
  then show ?thesis using r by (auto simp: replica_round_def pay)
qed

theorem truncated_value_stored_witness:
  "\<exists>s'. replica_round Little 1000 example_net mem_leveldb main_options id
       (mem_wrapper [], example_sock (take (length (wire (command_message Little 0 [''SET'', ''k'', ''vw''])) - 1)
          (wire (command_message Little 0 [''SET'', ''k'', ''vw'']))))
     = ((snd (put mem_leveldb main_options id ''k'' [CHR ''v'', CHR 0x00] (mem_wrapper [])), s'), None)"
proof -
  have "sendable [''SET'', ''k'', ''vw'']" "fits 1000 [''SET'', ''k'', ''vw'']"
    by (simp_all add: sendable_def fits_def)
  from truncated_value_stored [OF _ this, of example_net 1 "example_sock
      (take (length (wire (command_message Little 0 [''SET'', ''k'', ''vw''])) - 1)
          (wire (command_message Little 0 [''SET'', ''k'', ''vw''])))" Little 0 Little mem_leveldb main_options id
      "mem_wrapper []"] example_net_good
  show ?thesis by (simp add: example_sock_def)
qed


lemma recvFromSocket_tx:
  "sock_tx (fst (snd (recvFromSocket en max_size net m s))) = sock_tx s"
proof -
  have "sock_tx s' = sock_tx s" if "recv_all net buf s = (ok, buf', s')" for buf s ok buf' s'
    using tcp.recv_law [OF that] by auto
  then show ?thesis
    by (auto simp: recvFromSocket_def Let_def split: prod.splits bool.splits)
qed

lemma replica_rounds_tx:
  "replica_rounds n en max_size net L opts sleep (w, s) = ((w', s'), e) \<Longrightarrow> sock_tx s' = sock_tx s"
proof (induction n arbitrary: w s)
  case (Suc n)
  obtain m s1 r where r: "recvFromSocket en max_size net Message_init s = (m, s1, r)"
    by (cases "recvFromSocket en max_size net Message_init s")
  then have "sock_tx s1 = sock_tx s" using recvFromSocket_tx [of en max_size net Message_init s] by simp
  with Suc r show ?case by (cases r) (auto simp: replica_round_def)
qed simp

lemma replica_rounds_add:
  "replica_rounds (m + n) en max_size net L opts sleep st =
     (case replica_rounds m en max_size net L opts sleep st of
        (st', Some e) \<Rightarrow> (st', Some e) | (st', None) \<Rightarrow> replica_rounds n en max_size net L opts sleep st')"
  by (induction m arbitrary: st) (simp_all split: prod.split option.split)

text \<open>
  C37: once connected, a replica stays in its inner loop when the connection ends: it applies the whole
  commands that arrived, and from then on every round does nothing, however many there are; the
  later connection attempts are not made.  On a connection that works it has sent one heartbeat.
\<close>

theorem replica_never_reconnects:
  assumes "\<forall>i. net_recv (at_net at) i \<noteq> None" and "list_all sendable cmds" and "list_all (fits max_size) cmds"
    and "at_rx at = concat (map (\<lambda>c. wire (command_message en' offset c)) cmds)"
    and "create_client_socket en (at_calls at) host port fds = (Inr sockfd, fds')"
    and "\<forall>i. net_send (at_net at) i \<noteq> None" and "at_beats at = Suc b"
  shows "\<exists>s'. startReplica en max_size L opts sleep host port (at\<lparr>at_rounds := length cmds + n\<rparr> # ats) (w, fds, conns)
      = (fold (apply_command L opts sleep) cmds w, fds', conns @ [(sockfd, s')])
    \<and> sock_tx s' = wire (Message_init\<lparr>msg_type := HEARTBEAT\<rparr>)"
proof -
  define s where "s = \<lparr>sock_tx = [], sock_sends = 0, sock_rx = at_rx at, sock_recvs = 0\<rparr>"
  define s0 where "s0 = snd (start_heartbeat en (at_net at) (Suc b) s)"
  have s0: "sock_rx s0 = at_rx at" "sock_tx s0 = wire (Message_init\<lparr>msg_type := HEARTBEAT\<rparr>)"
    using start_heartbeat_rx [of en "at_net at" "Suc b" s] start_heartbeat_good [OF assms(6), of en b s]
    by (auto simp: s0_def s_def)
  from replica_rounds_apply [OF assms(1-3), of s0 en' offset "[]" en L opts sleep w] assms(4) s0(1) obtain s1 where
    1: "replica_rounds (length cmds) en max_size (at_net at) L opts sleep (w, s0)
      = ((fold (apply_command L opts sleep) cmds w, s1), None)" "sock_rx s1 = []"
    by auto
  from replica_rounds_idle [OF 1(2)] obtain s2 where
    2: "replica_rounds n en max_size (at_net at) L opts sleep (fold (apply_command L opts sleep) cmds w, s1)
      = ((fold (apply_command L opts sleep) cmds w, s2), None)" by blast
  have "sock_tx s2 = sock_tx s0" using replica_rounds_tx [OF 1(1)] replica_rounds_tx [OF 2] by simp
  with 1(1) 2 assms(5,7) s0(2) show ?thesis
    by (simp add: replica_rounds_add Let_def del: start_heartbeat.simps flip: s_def s0_def)
qed

definition example_attempt :: attempt where
  "example_attempt = \<lparr>at_calls = \<lparr>sc_socket = Some 5, sc_bind = (\<lambda>a. True), sc_listen = True,
      sc_accept = 6, sc_inet_pton = (\<lambda>s. None), sc_connect = (\<lambda>a. True)\<rparr>,
     at_net = example_net, at_rx = wire (command_message Little 0 [''DEL'', ''k'']), at_beats = 3, at_rounds = 0\<rparr>"

theorem replica_never_reconnects_witness:
  "\<exists>s'. startReplica Little 1000 mem_leveldb main_options id ''127.0.0.1'' 6480
       (example_attempt\<lparr>at_rounds := 1 + 100\<rparr> # [example_attempt]) (mem_wrapper [], [], [])
     = (apply_command mem_leveldb main_options id [''DEL'', ''k''] (mem_wrapper []), [5], [(5, s')])
   \<and> sock_tx s' = wire (Message_init\<lparr>msg_type := HEARTBEAT\<rparr>)"
proof -
  have "list_all sendable [[''DEL'', ''k'']]" "list_all (fits 1000) [[''DEL'', ''k'']]"
    by (simp_all add: sendable_def fits_def)
  from replica_never_reconnects [OF _ this, of example_attempt Little 0 Little "''127.0.0.1''" 6480 "[]" 5 "[5]" 2
      mem_leveldb main_options id 100 "[example_attempt]" "mem_wrapper []" "[]"] example_net_good
  show ?thesis by (simp add: example_attempt_def create_client_socket_def Let_def)
qed

text \<open>
  C38: a peer can end the master process: a header that announces a payload longer than the vector
  limit makes the receive raise, and nothing in the handler thread catches it.
\<close>

theorem oversized_header_terminates:
  assumes "\<forall>i. net_recv net i \<noteq> None" and "sock_rx s = wire m @ rest" and "max_size < unat (msg_len m)"
  shows "snd (handle_replica en max_size net clock s) = Handler_terminates Length_error"
proof -
  define s1 where "s1 = snd (send_ack en net 0 s)"
  have rx: "sock_rx s1 = sock_rx s"
    using tcp.send_seq_law [of net _ s] unfolding s1_def send_ack_def sendToSocket_def by (metis prod.collapse)
  from recv_header [OF assms(1), of "rev (le_bytes 2 (unat (msg_magic m)))"
      "rev (le_bytes 8 (unat (msg_len m)))" s1 "msg_type m" "ucast (msg_offset m)" "msg_payload m @ rest" en max_size Message_init,
      unfolded message_length_value] rx assms(2,3)
  obtain m' s' where "recvFromSocket en max_size net Message_init s1 = (m', s', Inl Length_error)"
    by (auto simp: wire_def Let_def simp del: le_bytes.simps)
  then show ?thesis by (simp add: handle_replica_def handle_loop.simps flip: s1_def)
qed

theorem oversized_header_terminates_witness:
  "snd (handle_replica Little 1000 example_net (\<lambda>i. 0)
     (example_sock (wire (Message_init\<lparr>msg_len := 2 ^ 63\<rparr>)))) = Handler_terminates Length_error"
  using oversized_header_terminates [of example_net "example_sock (wire (Message_init\<lparr>msg_len := 2 ^ 63\<rparr>))"
      "Message_init\<lparr>msg_len := 2 ^ 63\<rparr>" "[]" 1000 Little "\<lambda>i. 0"] example_net_good
  by (simp add: example_sock_def)


lemma accept_loop_eq:
  "accept_loop accepts a hs = (a\<lparr>aof_listeners := aof_listeners a @ accepts\<rparr>, hs @ accepts)"
  by (induction accepts arbitrary: a hs) (simp_all add: registerListener_def)

lemma notify_fan_out:
  assumes "distinct fds"
    and step: "\<And>fd socks. fd \<in> set fds \<Longrightarrow> \<exists>s'. call fd (Some socks) = (Some (socks(fd := s')), Inr r)
      \<and> sock_tx s' = sock_tx (socks fd) @ bytes"
  shows "\<exists>socks'. fold (\<lambda>cb w. case call cb w of (w', Inl e) \<Rightarrow> w' | (w', Inr _) \<Rightarrow> w') fds (Some socks) = Some socks'
    \<and> (\<forall>fd. sock_tx (socks' fd) = sock_tx (socks fd) @ (if fd \<in> set fds then bytes else []))"
  using assms
proof (induction fds arbitrary: socks)
  case (Cons fd fds)
  obtain s' where
    s': "call fd (Some socks) = (Some (socks(fd := s')), Inr r)" "sock_tx s' = sock_tx (socks fd) @ bytes"
    using Cons.prems(2) [OF list.set_intros(1), of socks] by blast
  have "\<exists>s'. call fd (Some socks) = (Some (socks(fd := s')), Inr r) \<and> sock_tx s' = sock_tx (socks fd) @ bytes"
    if "fd \<in> set fds" for fd socks using Cons.prems(2) [OF list.set_intros(2) [OF that], of socks] .
  moreover have "distinct fds" using Cons.prems(1) by simp
  ultimately obtain socks' where
    "fold (\<lambda>cb w. case call cb w of (w', Inl e) \<Rightarrow> w' | (w', Inr _) \<Rightarrow> w') fds (Some (socks(fd := s'))) = Some socks'"
    and tx: "\<And>x. sock_tx (socks' x) = sock_tx ((socks(fd := s')) x) @ (if x \<in> set fds then bytes else [])"
    using Cons.IH [of "socks(fd := s')"] by blast
  then have "fold (\<lambda>cb w. case call cb w of (w', Inl e) \<Rightarrow> w' | (w', Inr _) \<Rightarrow> w') (fd # fds) (Some socks) = Some socks'"
    by (simp add: s'(1))
  moreover have "sock_tx (socks' x) = sock_tx (socks x) @ (if x \<in> set (fd # fds) then bytes else [])" for x
    using tx [of x] s'(2) Cons.prems(1) by auto
  ultimately show ?case by blast
qed simp



end
