(* ===== verification/Log_Replay.thy ===== *)
theory Log_Replay
  imports Replication
begin

text \<open>
  The storage engine, its log and the recovery together.  The commands that the engine logs are a
  faithful history of the database: in every run of writes, reads, cleaner passes and writer steps,
  replaying the accepted commands from an empty database gives what a client of the engine sees.
  The operations of the engine are atomic steps here; \<open>Overlap\<close> takes them apart.
\<close>

section \<open>Replaying commands on the bindings\<close>

definition replay_command :: "string list \<Rightarrow> (string \<rightharpoonup> string) \<Rightarrow> (string \<rightharpoonup> string)" where
  "replay_command cmd m =
     (case cmd of
        [c, k, v] \<Rightarrow> if c = ''SET'' then m(k \<mapsto> v @ no_expiry) else m
      | [c, k] \<Rightarrow> if c = ''DEL'' then m(k := None) else m
      | _ \<Rightarrow> m)"

lemma replay_command_simps [simp]:
  "replay_command [''SET'', k, v] m = m(k \<mapsto> v @ no_expiry)" "replay_command [''DEL'', k] m = m(k := None)"
  by (simp_all add: replay_command_def)

lemma apply_command_raw:
  assumes "leveldb_ok L" and "leveldb_healthy L" and "w_db w \<noteq> None"
  shows "w_db (apply_command L opts sleep cmd w) \<noteq> None
    \<and> raw_view L (w_db (apply_command L opts sleep cmd w)) = replay_command cmd (raw_view L (w_db w))"
proof -
  note put = raw_view_put [OF assms] and rem = raw_view_remove [OF assms]
  have "w_db (snd (put L opts sleep k v w)) = snd (Impl_put L k (v @ no_expiry) (w_db w))" for k v
    by (simp add: put_def Let_def case_prod_beta)
  moreover have "w_db (snd (remove L opts sleep k w)) = snd (Impl_remove L k (w_db w))" for k
    by (simp add: remove_def Let_def case_prod_beta)
  ultimately show ?thesis
    using put(2,3) rem(2,3) assms(3) by (auto simp: apply_command_def replay_command_def split: list.splits)
qed

lemma apply_commands_raw:
  assumes "leveldb_ok L" and "leveldb_healthy L"
  shows "w_db w \<noteq> None \<Longrightarrow> w_db (fold (apply_command L opts sleep) cmds w) \<noteq> None
    \<and> raw_view L (w_db (fold (apply_command L opts sleep) cmds w)) = fold replay_command cmds (raw_view L (w_db w))"
proof (induction cmds arbitrary: w)
  case (Cons c cs)
  from apply_command_raw [OF assms Cons.prems, of opts sleep c]
    Cons.IH [of "apply_command L opts sleep c w"] show ?case by simp
qed simp

section \<open>Runs of the whole engine\<close>

text \<open>
  A state is the time and the wrapper.  A write is taken while the log accepts it at once: one that
  waits for space is the same write after the writer has made room.  The values of SET are free of
  tabs, and a logged command fits the log's length fields.
\<close>

definition accepting :: "options \<Rightarrow> 'l aof \<Rightarrow> bool" where
  "accepting opts a \<longleftrightarrow> \<not> aof_stop a \<and> length (aof_queue a) < max_queue_entries opts"

fun writer_event :: "aof_event \<Rightarrow> bool" where
  "writer_event (Append_async p) = False"
| "writer_event (Append_blocking p) = False"
| "writer_event Wake = False"
| "writer_event (Spurious i) = False"
| "writer_event e = True"

inductive engine_step ::
  "'d leveldb \<Rightarrow> options \<Rightarrow> ('l aof \<Rightarrow> 'l aof) \<Rightarrow> u64 \<times> ('d, 'l) wrapper \<Rightarrow> u64 \<times> ('d, 'l) wrapper \<Rightarrow> bool"
  for L opts sleep where
  step_set: "accepting opts (w_aof w) \<Longrightarrow> TAB \<notin> set v \<Longrightarrow> resp_ok [''SET'', k, v] \<Longrightarrow>
    engine_step L opts sleep (t, w) (t, snd (put L opts sleep k v w))"
| step_del: "accepting opts (w_aof w) \<Longrightarrow> resp_ok [''DEL'', k] \<Longrightarrow>
    engine_step L opts sleep (t, w) (t, snd (remove L opts sleep k w))"
| step_expire: "accepting opts (w_aof w) \<Longrightarrow> store_view L w k = Some (v, e) \<Longrightarrow>
    resp_ok [''SET'', k, v @ CHR 0x09 # to_string (unat (t + ts))] \<Longrightarrow>
    engine_step L opts sleep (t, w) (t, snd (expire L opts sleep t k ts w))"
| step_get: "engine_step L opts sleep (t, w) (t, snd (snd (get L t k [] w)))"
| step_clean: "(\<And>i. t \<le> clock i \<and> clock i \<le> t') \<Longrightarrow>
    engine_step L opts sleep (t, w) (t', ttl_cleaner L clock w)"
| step_time: "t \<le> t' \<Longrightarrow> engine_step L opts sleep (t, w) (t', w)"
| step_log: "writer_event ev \<Longrightarrow> aof_exec opts ev (w_aof w) = Some a \<Longrightarrow>
    engine_step L opts sleep (t, w) (t, w\<lparr>w_aof := a\<rparr>)"

text \<open>
  The bindings of the engine are those of the replayed log, but for expired records that have been
  removed without a trace in the log.
\<close>

definition up_to_expiry :: "u64 \<Rightarrow> (string \<rightharpoonup> string) \<Rightarrow> (string \<rightharpoonup> string) \<Rightarrow> bool" where
  "up_to_expiry t m m' \<longleftrightarrow> (\<forall>k. m k = m' k \<or> m k = None \<and> (\<exists>raw. m' k = Some raw \<and> expired_at t raw))"

definition history_ok :: "u64 \<Rightarrow> (string \<rightharpoonup> string) \<Rightarrow> string list \<Rightarrow> bool" where
  "history_ok t m payloads \<longleftrightarrow> (\<exists>cmds. payloads = map serializeToRESP cmds \<and> list_all resp_ok cmds
     \<and> up_to_expiry t m (fold replay_command cmds Map.empty))"

definition engine_inv :: "'d leveldb \<Rightarrow> options \<Rightarrow> u64 \<times> ('d, 'l) wrapper \<Rightarrow> bool" where
  "engine_inv L opts st \<longleftrightarrow> (case st of (t, w) \<Rightarrow>
     engine_ok L w \<and> aof_inv opts [] (w_aof w) \<and> history_ok t (raw_view L (w_db w)) (aof_accepted (w_aof w)))"

definition engine_start :: "'d leveldb \<Rightarrow> u64 \<times> ('d, 'l) wrapper \<Rightarrow> bool" where
  "engine_start L st \<longleftrightarrow> (case st of (t, w) \<Rightarrow>
     engine_ok L w \<and> raw_view L (w_db w) = Map.empty \<and> aof_start [] (w_aof w))"

lemma up_to_expiry_update: "up_to_expiry t m m' \<Longrightarrow> up_to_expiry t (m(k := x)) (m'(k := x))"
  by (auto simp: up_to_expiry_def)

lemma up_to_expiry_time: "up_to_expiry t m m' \<Longrightarrow> t \<le> t' \<Longrightarrow> up_to_expiry t' m m'"
  unfolding up_to_expiry_def using expired_at_mono by blast

lemma up_to_expiry_trans:
  assumes "up_to_expiry t m1 m2" and "up_to_expiry t m2 m3"
  shows "up_to_expiry t m1 m3"
  unfolding up_to_expiry_def
proof
  fix k
  show "m1 k = m3 k \<or> m1 k = None \<and> (\<exists>raw. m3 k = Some raw \<and> expired_at t raw)"
    using assms [unfolded up_to_expiry_def, THEN spec [of _ k]] by fastforce
qed

lemma history_ok_shrink:
  assumes "history_ok t m ps" and "t \<le> t'" and "up_to_expiry t' m' m"
  shows "history_ok t' m' ps"
  using assms up_to_expiry_time up_to_expiry_trans unfolding history_ok_def by blast

lemma history_ok_command:
  assumes "history_ok t m ps" and "resp_ok cmd" and "\<And>m. replay_command cmd m = m(k := x)"
  shows "history_ok t (m(k := x)) (ps @ [serializeToRESP cmd])"
proof -
  from assms(1) obtain cmds where c: "ps = map serializeToRESP cmds" "list_all resp_ok cmds"
    "up_to_expiry t m (fold replay_command cmds Map.empty)" by (auto simp: history_ok_def)
  with assms(2,3) up_to_expiry_update [OF c(3), of k x] show ?thesis
    unfolding history_ok_def by (intro exI [of _ "cmds @ [cmd]"]) simp
qed

lemma log_command_accepting:
  "accepting opts a \<Longrightarrow> log_command opts sleep cmd a = push_payload (serializeToRESP cmd) a"
  by (simp add: accepting_def log_command_def appendCommandAsync_def appendRawAsync_def)

lemma push_payload_inv:
  assumes "aof_inv opts base a" and "accepting opts a"
  shows "aof_inv opts base (push_payload p a)"
proof -
  have "aof_exec opts (Append_async p) a = Some (push_payload p a)"
    using assms(2) by (simp add: appendRawAsync_def accepting_def)
  from aof_exec_inv [OF assms(1) this] show ?thesis .
qed

lemma writer_event_accepted:
  assumes "writer_event ev" and "aof_exec opts ev a = Some a'"
  shows "aof_accepted a' = aof_accepted a"
  using assms
  by (cases ev) (auto simp: aof_op_defs writer_writev_fields split: if_splits writer_pc.splits option.splits)


lemma put_parts:
  assumes "engine_ok L w" and "accepting opts (w_aof w)"
  shows "w_aof (snd (put L opts sleep k v w)) = push_payload (serializeToRESP [''SET'', k, v]) (w_aof w)"
    and "raw_view L (w_db (snd (put L opts sleep k v w))) = (raw_view L (w_db w))(k \<mapsto> v @ no_expiry)"
  using put_raw [OF assms(1)] log_command_accepting [OF assms(2)]
  by (simp_all add: put_def Let_def case_prod_beta)

lemma remove_parts:
  assumes "engine_ok L w" and "accepting opts (w_aof w)"
  shows "w_aof (snd (remove L opts sleep k w)) = push_payload (serializeToRESP [''DEL'', k]) (w_aof w)"
    and "raw_view L (w_db (snd (remove L opts sleep k w))) = (raw_view L (w_db w))(k := None)"
  using raw_view_remove(3) [of L "w_db w" k] assms(1) log_command_accepting [OF assms(2)]
  by (simp_all add: remove_def Let_def case_prod_beta engine_ok_def)

lemma get_parts:
  assumes "engine_ok L w"
  shows "w_aof (snd (snd (get L t k [] w))) = w_aof w"
    and "up_to_expiry t (raw_view L (w_db (snd (snd (get L t k [] w))))) (raw_view L (w_db w))"
proof -
  show "w_aof (snd (snd (get L t k [] w))) = w_aof w"
    using get_refines [OF assms, of t k] by (auto split: option.splits)
  show "up_to_expiry t (raw_view L (w_db (snd (snd (get L t k [] w))))) (raw_view L (w_db w))"
  proof (cases "store_view L w k")
    case None
    then show ?thesis using get_refines [OF assms, of t k] by (simp add: up_to_expiry_def)
  next
    case (Some ve)
    then obtain v e raw where r: "store_view L w k = Some (v, e)" "raw_view L (w_db w) k = Some raw"
      "decode_record raw = Some (v, e)"
      by (cases ve; cases "raw_view L (w_db w) k") (auto simp: store_view_def)
    then show ?thesis
      using get_refines [OF assms, of t k] lazy_remove(3) [OF assms, of k]
      by (auto simp: up_to_expiry_def expired_at_def)
  qed
qed

text \<open>One logged write, and one silent removal of expired records, keep the invariant.\<close>

lemma logged_write_inv:
  assumes "engine_inv L opts (t, w)" and "accepting opts (w_aof w)" and "resp_ok cmd"
    and "\<And>m. replay_command cmd m = m(k := x)" and "engine_ok L w'"
    and "w_aof w' = push_payload (serializeToRESP cmd) (w_aof w)"
    and "raw_view L (w_db w') = (raw_view L (w_db w))(k := x)"
  shows "engine_inv L opts (t, w')"
proof -
  from assms(1) have i: "aof_inv opts [] (w_aof w)"
    "history_ok t (raw_view L (w_db w)) (aof_accepted (w_aof w))" by (simp_all add: engine_inv_def)
  from history_ok_command [OF i(2) assms(3,4)] push_payload_inv [OF i(1) assms(2)] assms(5-7) show ?thesis
    by (simp add: engine_inv_def push_payload_def)
qed

lemma silent_removal_inv:
  assumes "engine_inv L opts (t, w)" and "t \<le> t'" and "engine_ok L w'" and "w_aof w' = w_aof w"
    and "up_to_expiry t' (raw_view L (w_db w')) (raw_view L (w_db w))"
  shows "engine_inv L opts (t', w')"
  using assms history_ok_shrink [OF _ assms(2,5)] by (simp add: engine_inv_def)

lemma ttl_cleaner_parts:
  assumes "engine_ok L w" and "\<And>i. t \<le> clock i \<and> clock i \<le> t'"
  shows "engine_ok L (ttl_cleaner L clock w)" and "w_aof (ttl_cleaner L clock w) = w_aof w"
    and "up_to_expiry t' (raw_view L (w_db (ttl_cleaner L clock w))) (raw_view L (w_db w))"
proof -
  note raw = ttl_cleaner_raw [where clock = clock, OF assms]
  have "records_ok L (w_db (ttl_cleaner L clock w))"
    using raw(2) engine_ok_records [OF assms(1)] unfolding records_ok_def by (metis option.distinct(1))
  then show "engine_ok L (ttl_cleaner L clock w)" using assms(1) raw(1) by (simp add: engine_ok_def)
  show "w_aof (ttl_cleaner L clock w) = w_aof w" by (simp add: ttl_cleaner_def split: option.splits)
  show "up_to_expiry t' (raw_view L (w_db (ttl_cleaner L clock w))) (raw_view L (w_db w))"
    using raw(2) by (simp add: up_to_expiry_def)
qed

lemma engine_step_inv:
  assumes "engine_step L opts sleep st st'" and "engine_inv L opts st"
  shows "engine_inv L opts st'"
  using assms
proof (cases rule: engine_step.cases)
  case (step_set w v k t)
  with assms(2) have ok: "engine_ok L w" by (simp add: engine_inv_def)
  show ?thesis
    unfolding step_set(2)
    by (rule logged_write_inv [OF assms(2) [unfolded step_set(1)] step_set(3,5) _ put_refines(2) [OF ok step_set(4)]
        put_parts [OF ok step_set(3)]]) simp
next
  case (step_del w k t)
  with assms(2) have ok: "engine_ok L w" by (simp add: engine_inv_def)
  show ?thesis
    unfolding step_del(2)
    by (rule logged_write_inv [OF assms(2) [unfolded step_del(1)] step_del(3,4) _ remove_refines(2) [OF ok]
        remove_parts [OF ok step_del(3)]]) simp
next
  case (step_expire w k v e t ts)
  with assms(2) have ok: "engine_ok L w" by (simp add: engine_inv_def)
  define u where "u = v @ CHR 0x09 # to_string (unat (t + ts))"
  have x: "expire L opts sleep t k ts w = put L opts sleep k u w"
    using expire_present(1) [OF ok step_expire(4)] by (simp add: u_def)
  show ?thesis
    unfolding step_expire(2) x
    by (rule logged_write_inv [OF assms(2) [unfolded step_expire(1)] step_expire(3) step_expire(5) [folded u_def] _
        expire_refines(2) [OF ok, of opts sleep t k ts, unfolded x] put_parts [OF ok step_expire(3)]]) simp
next
  case (step_get t w k)
  with assms(2) have ok: "engine_ok L w" by (simp add: engine_inv_def)
  with step_get assms(2) get_parts [OF ok] get_engine_ok [OF ok] show ?thesis
    by (auto intro: silent_removal_inv)
next
  case (step_clean t clock t' w)
  with assms(2) have ok: "engine_ok L w" by (simp add: engine_inv_def)
  have "t \<le> t'" using step_clean(3) [of 0] by (meson order.trans)
  with step_clean(1,2) assms(2) ttl_cleaner_parts [where clock = clock, OF ok step_clean(3)] show ?thesis
    by (auto intro: silent_removal_inv)
next
  case (step_time t t' w)
  have "engine_ok L w" using assms(2) step_time(1) by (simp add: engine_inv_def)
  then show ?thesis
    unfolding step_time(2)
    by (intro silent_removal_inv [OF assms(2) [unfolded step_time(1)] step_time(3)]) (simp_all add: up_to_expiry_def)
next
  case (step_log ev w a t)
  with assms(2) show ?thesis
    using aof_exec_inv [of opts "[]" "w_aof w" ev a] writer_event_accepted [OF step_log(3,4)]
    by (simp add: engine_inv_def engine_ok_def)
qed

lemma aof_start_accepted: "aof_start base a \<Longrightarrow> aof_accepted a = []"
  by (auto simp: aof_start_def Aof_construct_def openFile_def startWriter_def)

interpretation whole: transition_invariant "engine_start L" "engine_step L opts sleep" "engine_inv L opts"
  for L :: "'d leveldb" and opts :: options and sleep :: "'l aof \<Rightarrow> 'l aof"
proof unfold_locales
  fix st :: "u64 \<times> ('d, 'l) wrapper"
  assume "engine_start L st"
  then show "engine_inv L opts st"
    using aof_start_inv aof_start_accepted
    by (auto simp: engine_start_def engine_inv_def history_ok_def up_to_expiry_def intro!: exI [of _ "[]"])
qed (rule engine_step_inv)


text \<open>Removed expired records show at no later time.\<close>

lemma visible_up_to_expiry:
  assumes "up_to_expiry t m (raw_view L' (w_db w'))" and "m k = raw_view L (w_db w) k" and "t \<le> t'"
  shows "visible t' (store_view L' w') k = visible t' (store_view L w) k"
proof -
  from assms(1,2) have "raw_view L (w_db w) k = raw_view L' (w_db w') k
      \<or> raw_view L (w_db w) k = None \<and> (\<exists>raw. raw_view L' (w_db w') k = Some raw \<and> expired_at t raw)"
    unfolding up_to_expiry_def by metis
  then show ?thesis using expired_at_mono [OF _ assms(3)] by (auto simp: visible_raw)
qed

text \<open>Once the writer has caught up, recovery brings the bindings of the history back.\<close>

lemma history_rebuilds:
  assumes "aof_inv opts [] a" and "history_ok t m (aof_accepted a)"
    and "\<not> aof_lost a" and "aof_queue a = []" and "pending (aof_pc a) = []"
    and "engine_ok L' fresh" and "raw_view L' (w_db fresh) = Map.empty"
    and "env_open env = Opened" and "env_fstat env" and "\<forall>i. env_read env i \<noteq> None"
  shows "up_to_expiry t m (raw_view L' (w_db (fst (recoverFromAOF env (apply_command L' opts' sleep') tr
            (aof_file a) offset fresh))))"
proof -
  from assms(2) obtain cmds where c: "aof_accepted a = map serializeToRESP cmds" "list_all resp_ok cmds"
    "up_to_expiry t m (fold replay_command cmds Map.empty)" by (auto simp: history_ok_def)
  have "aof_file a = frames cmds @ []"
    using assms(1,3-5) c(1) by (simp add: aof_inv_def log_complete_def frames_def)
  note r = recover_executes [OF c(2) no_frame_Nil assms(8-10) this, of "apply_command L' opts' sleep'" tr offset fresh]
  from assms(6) apply_commands_raw [of L' fresh opts' sleep' cmds] assms(7)
  have "raw_view L' (w_db (fold (apply_command L' opts' sleep') cmds fresh)) = fold replay_command cmds Map.empty"
    by (simp add: engine_ok_def)
  with c(3) show ?thesis by (simp add: r)
qed

lemma recovery_rebuilds_database:
  assumes "engine_start L (t0, w0)" and "(engine_step L opts sleep)\<^sup>*\<^sup>* (t0, w0) (t, w)"
    and "\<not> aof_lost (w_aof w)" and "aof_queue (w_aof w) = []" and "pending (aof_pc (w_aof w)) = []"
    and "engine_ok L' fresh" and "raw_view L' (w_db fresh) = Map.empty"
    and "env_open env = Opened" and "env_fstat env" and "\<forall>i. env_read env i \<noteq> None" and "t \<le> t'"
  shows "visible t' (store_view L' (fst (recoverFromAOF env (apply_command L' opts' sleep') tr
            (aof_file (w_aof w)) offset fresh)))
    = visible t' (store_view L w)"
proof -
  from whole.reachable_inv [OF assms(1,2)] have i: "aof_inv opts [] (w_aof w)"
    "history_ok t (raw_view L (w_db w)) (aof_accepted (w_aof w))" by (simp_all add: engine_inv_def)
  from visible_up_to_expiry [OF history_rebuilds [OF i assms(3-10)] refl assms(11)] show ?thesis by blast
qed

end
