(* ===== verification/Overlap.thy ===== *)
theory Overlap
  imports Log_Replay
begin

text \<open>
  Operations of the engine that overlap.  The server handles every client in a thread of its own, and
  no lock of \<^verbatim>\<open>LevelDBWrapper\<close> spans an operation: \<^verbatim>\<open>put\<close> and \<^verbatim>\<open>remove\<close> first log and then store, \<^verbatim>\<open>get\<close> reads
  and then removes what has expired, \<^verbatim>\<open>expire\<close> reads and then puts, and the cleaner works on an old snapshot.
  Here every one of these halves is a step of its own, of any number of threads, among the steps of the
  cleaner, the log writer and the clock.  As long as no two operations on one key overlap the log is
  still a faithful history; without that discipline updates are lost.
\<close>

section \<open>The halves of the operations\<close>

definition put_log ::
  "options \<Rightarrow> ('l aof \<Rightarrow> 'l aof) \<Rightarrow> string \<Rightarrow> string \<Rightarrow> ('d, 'l) wrapper \<Rightarrow> ('d, 'l) wrapper" where
  "put_log opts sleep key val w = w\<lparr>w_aof := log_command opts sleep [''SET'', key, val] (w_aof w)\<rparr>"

definition put_store :: "'d leveldb \<Rightarrow> string \<Rightarrow> string \<Rightarrow> ('d, 'l) wrapper \<Rightarrow> bool \<times> ('d, 'l) wrapper" where
  "put_store L key val w =
     (case Impl_put L key (val @ no_expiry) (w_db w) of (ok, dbo) \<Rightarrow> (ok, w\<lparr>w_db := dbo\<rparr>))"

definition remove_log ::
  "options \<Rightarrow> ('l aof \<Rightarrow> 'l aof) \<Rightarrow> string \<Rightarrow> ('d, 'l) wrapper \<Rightarrow> ('d, 'l) wrapper" where
  "remove_log opts sleep key w = w\<lparr>w_aof := log_command opts sleep [''DEL'', key] (w_aof w)\<rparr>"

definition remove_store :: "'d leveldb \<Rightarrow> string \<Rightarrow> ('d, 'l) wrapper \<Rightarrow> bool \<times> ('d, 'l) wrapper" where
  "remove_store L key w = (case Impl_remove L key (w_db w) of (ok, dbo) \<Rightarrow> (ok, w\<lparr>w_db := dbo\<rparr>))"

text \<open>\<^verbatim>\<open>get\<close> up to the removal: its result, or \<open>None\<close> where it goes on to remove the key.\<close>

definition get_read :: "'d leveldb \<Rightarrow> u64 \<Rightarrow> string \<Rightarrow> string \<Rightarrow> ('d, 'l) wrapper \<Rightarrow> (bool \<times> string) option" where
  "get_read L now key value0 w =
     (let value = snd (Impl_get L key value0 (w_db w))
      in if value = [] then Some (False, value)
         else case str_find TAB value of
           None \<Rightarrow> Some (True, value)
         | Some tab_pos \<Rightarrow>
             (case stoull (drop (tab_pos + 1) value) of
                Inl _ \<Rightarrow> Some (False, value)
              | Inr expire_time \<Rightarrow>
                  if expire_time = - 1 then Some (True, take tab_pos value)
                  else if expire_time \<le> now then None
                  else Some (True, take tab_pos value)))"

definition get_remove :: "'d leveldb \<Rightarrow> string \<Rightarrow> ('d, 'l) wrapper \<Rightarrow> ('d, 'l) wrapper" where
  "get_remove L key w = w\<lparr>w_db := snd (Impl_remove L key (w_db w))\<rparr>"

text \<open>\<^verbatim>\<open>expire\<close> up to its call of \<^verbatim>\<open>put\<close>: the value that it will put.\<close>

definition expire_read :: "'d leveldb \<Rightarrow> u64 \<Rightarrow> string \<Rightarrow> u64 \<Rightarrow> ('d, 'l) wrapper \<Rightarrow> string option" where
  "expire_read L now key ts w =
     (let value = snd (Impl_get L key [] (w_db w))
      in if value = [] then None
         else
           let actual_value = (case str_find TAB value of None \<Rightarrow> value | Some tab_pos \<Rightarrow> take tab_pos value)
           in Some (actual_value @ CHR 0x09 # to_string (unat (now + ts))))"

text \<open>Run without a pause the halves are the operations.\<close>

lemma put_halves: "put L opts sleep k v w = put_store L k v (put_log opts sleep k v w)"
  by (simp add: put_def put_store_def put_log_def Let_def split: prod.splits)

lemma remove_halves: "remove L opts sleep k w = remove_store L k (remove_log opts sleep k w)"
  by (simp add: remove_def remove_store_def remove_log_def Let_def split: prod.splits)

lemma get_halves:
  "get L now k v0 w =
     (case get_read L now k v0 w of Some (ok, v) \<Rightarrow> (ok, v, w) | None \<Rightarrow> (False, [], get_remove L k w))"
  by (simp add: get_def get_read_def get_remove_def Let_def split: option.splits sum.splits)

lemma expire_halves:
  "expire L opts sleep now k ts w =
     (case expire_read L now k ts w of None \<Rightarrow> (False, w) | Some v \<Rightarrow> put L opts sleep k v w)"
  by (simp add: expire_def expire_read_def Let_def)

section \<open>Threads\<close>

text \<open>Where a thread is inside an operation.\<close>

datatype op_pc =
    Put_logging string string
  | Put_storing string string
  | Del_logging string
  | Del_storing string
  | Get_reading string
  | Get_removing string
  | Expire_reading string u64

text \<open>
  The next step of a thread: where it is afterwards, or \<open>None\<close> while it waits for space in the log.
\<close>

fun op_next ::
  "'d leveldb \<Rightarrow> options \<Rightarrow> u64 \<Rightarrow> op_pc \<Rightarrow> ('d, 'l) wrapper \<Rightarrow> (op_pc option \<times> ('d, 'l) wrapper) option" where
  "op_next L opts now (Put_logging k v) w =
     (if accepting opts (w_aof w) then Some (Some (Put_storing k v), put_log opts id k v w) else None)"
| "op_next L opts now (Put_storing k v) w = Some (None, snd (put_store L k v w))"
| "op_next L opts now (Del_logging k) w =
     (if accepting opts (w_aof w) then Some (Some (Del_storing k), remove_log opts id k w) else None)"
| "op_next L opts now (Del_storing k) w = Some (None, snd (remove_store L k w))"
| "op_next L opts now (Get_reading k) w =
     (case get_read L now k [] w of Some _ \<Rightarrow> Some (None, w) | None \<Rightarrow> Some (Some (Get_removing k), w))"
| "op_next L opts now (Get_removing k) w = Some (None, get_remove L k w)"
| "op_next L opts now (Expire_reading k ts) w =
     (case expire_read L now k ts w of None \<Rightarrow> Some (None, w) | Some v \<Rightarrow> Some (Some (Put_logging k v), w))"

record ('d, 'l) overlap =
  ov_time :: u64
  ov_wrapper :: "('d, 'l) wrapper"
  ov_ops :: "nat \<Rightarrow> op_pc option"             \<comment> \<open>what each thread is doing\<close>
  ov_scan :: "(string \<times> string) list"        \<comment> \<open>what the cleaner's iterator has still to show\<close>

datatype ov_event =
    Ov_begin nat op_pc
  | Ov_next nat
  | Ov_scan
  | Ov_visit
  | Ov_tick u64
  | Ov_log aof_event

fun op_starts :: "op_pc \<Rightarrow> bool" where
  "op_starts (Put_storing k v) = False"
| "op_starts (Del_storing k) = False"
| "op_starts (Get_removing k) = False"
| "op_starts _ = True"

fun ov_exec ::
  "'d leveldb \<Rightarrow> options \<Rightarrow> ov_event \<Rightarrow> ('d, 'l) overlap \<Rightarrow> ('d, 'l) overlap option" where
  "ov_exec L opts (Ov_begin i op) s =
     (if ov_ops s i = None \<and> op_starts op then Some (s\<lparr>ov_ops := (ov_ops s)(i \<mapsto> op)\<rparr>) else None)"
| "ov_exec L opts (Ov_next i) s =
     (case ov_ops s i of
        None \<Rightarrow> None
      | Some op \<Rightarrow>
          map_option (\<lambda>(pc, w). s\<lparr>ov_wrapper := w, ov_ops := (ov_ops s)(i := pc)\<rparr>)
            (op_next L opts (ov_time s) op (ov_wrapper s)))"
| "ov_exec L opts Ov_scan s =
     (if ov_scan s \<noteq> [] then None
      else map_option (\<lambda>es. s\<lparr>ov_scan := es\<rparr>) (Impl_newIterator L (w_db (ov_wrapper s))))"
| "ov_exec L opts Ov_visit s =
     (case ov_scan s of
        [] \<Rightarrow> None
      | e # es \<Rightarrow>
          Some (s\<lparr>ov_scan := es,
            ov_wrapper := (ov_wrapper s)\<lparr>w_db := cleaner_entry L (ov_time s) e (w_db (ov_wrapper s))\<rparr>\<rparr>))"
| "ov_exec L opts (Ov_tick t) s = (if ov_time s \<le> t then Some (s\<lparr>ov_time := t\<rparr>) else None)"
| "ov_exec L opts (Ov_log ev) s =
     (if writer_event ev
      then map_option (\<lambda>a. s\<lparr>ov_wrapper := (ov_wrapper s)\<lparr>w_aof := a\<rparr>\<rparr>) (aof_exec opts ev (w_aof (ov_wrapper s)))
      else None)"

fun ov_run :: "'d leveldb \<Rightarrow> options \<Rightarrow> ov_event list \<Rightarrow> ('d, 'l) overlap \<Rightarrow> ('d, 'l) overlap option" where
  "ov_run L opts [] s = Some s"
| "ov_run L opts (e # es) s = (case ov_exec L opts e s of None \<Rightarrow> None | Some s' \<Rightarrow> ov_run L opts es s')"


section \<open>The discipline\<close>

fun op_key :: "op_pc \<Rightarrow> string" where
  "op_key (Put_logging k v) = k"
| "op_key (Put_storing k v) = k"
| "op_key (Del_logging k) = k"
| "op_key (Del_storing k) = k"
| "op_key (Get_reading k) = k"
| "op_key (Get_removing k) = k"
| "op_key (Expire_reading k ts) = k"

fun op_fits :: "op_pc \<Rightarrow> bool" where
  "op_fits (Put_logging k v) \<longleftrightarrow> TAB \<notin> set v \<and> resp_ok [''SET'', k, v]"
| "op_fits (Del_logging k) \<longleftrightarrow> resp_ok [''DEL'', k]"
| "op_fits _ \<longleftrightarrow> True"

text \<open>
  No two operations on one key at a time; the cleaner does not visit an entry that has been
  overwritten since its iterator was made; commands fit the length fields of the log.
\<close>

fun polite :: "'d leveldb \<Rightarrow> ov_event \<Rightarrow> ('d, 'l) overlap \<Rightarrow> bool" where
  "polite L (Ov_begin i op) s \<longleftrightarrow>
     op_fits op \<and> (\<forall>j op'. ov_ops s j = Some op' \<longrightarrow> op_key op' \<noteq> op_key op)"
| "polite L (Ov_next i) s \<longleftrightarrow>
     (case ov_ops s i of
        Some (Expire_reading k ts) \<Rightarrow>
          (case expire_read L (ov_time s) k ts (ov_wrapper s) of Some v \<Rightarrow> resp_ok [''SET'', k, v] | None \<Rightarrow> True)
      | _ \<Rightarrow> True)"
| "polite L Ov_visit s \<longleftrightarrow>
     (case ov_scan s of
        [] \<Rightarrow> True
      | (k, raw) # _ \<Rightarrow> raw_view L (w_db (ov_wrapper s)) k \<in> {None, Some raw})"
| "polite L _ s \<longleftrightarrow> True"

inductive overlap_step :: "'d leveldb \<Rightarrow> options \<Rightarrow> ('d, 'l) overlap \<Rightarrow> ('d, 'l) overlap \<Rightarrow> bool" for L opts where
  overlap_step: "polite L e s \<Longrightarrow> ov_exec L opts e s = Some s' \<Longrightarrow> overlap_step L opts s s'"

inductive_cases overlap_stepE: "overlap_step L opts s s'"

definition overlap_start :: "'d leveldb \<Rightarrow> ('d, 'l) overlap \<Rightarrow> bool" where
  "overlap_start L s \<longleftrightarrow>
     engine_start L (ov_time s, ov_wrapper s) \<and> ov_ops s = (\<lambda>i. None) \<and> ov_scan s = []"

section \<open>The invariant\<close>

text \<open>What an operation that has been logged will still do to the bindings.\<close>

fun op_effect :: "op_pc \<Rightarrow> (string \<times> string option) option" where
  "op_effect (Put_storing k v) = Some (k, Some (v @ no_expiry))"
| "op_effect (Del_storing k) = Some (k, None)"
| "op_effect _ = None"

fun op_ok :: "u64 \<Rightarrow> (string \<rightharpoonup> string) \<Rightarrow> op_pc \<Rightarrow> bool" where
  "op_ok t r (Put_logging k v) \<longleftrightarrow> decode_record (v @ no_expiry) \<noteq> None \<and> resp_ok [''SET'', k, v]"
| "op_ok t r (Put_storing k v) \<longleftrightarrow> decode_record (v @ no_expiry) \<noteq> None"
| "op_ok t r (Del_logging k) \<longleftrightarrow> resp_ok [''DEL'', k]"
| "op_ok t r (Get_removing k) \<longleftrightarrow> (\<forall>raw. r k = Some raw \<longrightarrow> expired_at t raw)"
| "op_ok t r _ \<longleftrightarrow> True"

definition exclusive :: "(nat \<Rightarrow> op_pc option) \<Rightarrow> bool" where
  "exclusive ops \<longleftrightarrow>
     (\<forall>i j op op'. ops i = Some op \<longrightarrow> ops j = Some op' \<longrightarrow> op_key op = op_key op' \<longrightarrow> i = j)"

text \<open>\<open>m\<close> are the bindings once the logged operations have been stored.\<close>

definition settled :: "(nat \<Rightarrow> op_pc option) \<Rightarrow> (string \<rightharpoonup> string) \<Rightarrow> (string \<rightharpoonup> string) \<Rightarrow> bool" where
  "settled ops r m \<longleftrightarrow>
     (\<forall>k. (\<exists>i op. ops i = Some op \<and> op_effect op = Some (k, m k))
        \<or> (\<forall>i op x. ops i = Some op \<longrightarrow> op_effect op \<noteq> Some (k, x)) \<and> m k = r k)"

definition ov_inv :: "'d leveldb \<Rightarrow> options \<Rightarrow> ('d, 'l) overlap \<Rightarrow> bool" where
  "ov_inv L opts s \<longleftrightarrow>
     engine_ok L (ov_wrapper s) \<and> aof_inv opts [] (w_aof (ov_wrapper s)) \<and> exclusive (ov_ops s)
   \<and> (\<forall>i op. ov_ops s i = Some op \<longrightarrow> op_ok (ov_time s) (raw_view L (w_db (ov_wrapper s))) op)
   \<and> (\<exists>m. settled (ov_ops s) (raw_view L (w_db (ov_wrapper s))) m
        \<and> history_ok (ov_time s) m (aof_accepted (w_aof (ov_wrapper s))))"

lemma effect_key: "op_effect op = Some (k, x) \<Longrightarrow> k = op_key op"
  by (cases op) auto

lemma exclusive_update: "exclusive ops \<Longrightarrow> ops i = Some op \<Longrightarrow> op_key op' = op_key op \<Longrightarrow> exclusive (ops(i \<mapsto> op'))"
  unfolding exclusive_def by (simp add: fun_upd_def) metis

lemma exclusive_end: "exclusive ops \<Longrightarrow> exclusive (ops(i := None))"
  unfolding exclusive_def by (auto split: if_splits)

lemma exclusive_begin:
  "exclusive ops \<Longrightarrow> (\<And>j op'. ops j = Some op' \<Longrightarrow> op_key op' \<noteq> op_key op) \<Longrightarrow> exclusive (ops(i \<mapsto> op))"
  unfolding exclusive_def by (simp add: fun_upd_def) metis

text \<open>The four kinds of steps: one without effect, one that logs, one that stores, one that removes.\<close>

definition no_effect :: "op_pc option \<Rightarrow> bool" where
  "no_effect o' \<longleftrightarrow> (\<forall>op. o' = Some op \<longrightarrow> op_effect op = None)"

lemma settled_neutral:
  assumes "settled ops r m" and "no_effect (ops i)" and "no_effect pc"
  shows "settled (ops(i := pc)) r m"
  unfolding settled_def
proof
  fix k
  have "(\<exists>j op. (ops(i := pc)) j = Some op \<and> op_effect op = Some (k, x))
      \<longleftrightarrow> (\<exists>j op. ops j = Some op \<and> op_effect op = Some (k, x))" for x
    using assms(2,3) unfolding no_effect_def by (metis fun_upd_apply option.distinct(1))
  then show "(\<exists>j op. (ops(i := pc)) j = Some op \<and> op_effect op = Some (k, m k))
      \<or> (\<forall>j op x. (ops(i := pc)) j = Some op \<longrightarrow> op_effect op \<noteq> Some (k, x)) \<and> m k = r k"
    using assms(1) unfolding settled_def by metis
qed

lemma settled_log:
  assumes "settled ops r m" and "exclusive ops" and "ops i = Some op" and "op_effect op = None"
    and "op_key op' = op_key op" and "op_effect op' = Some (k, x)"
  shows "settled (ops(i \<mapsto> op')) r (m(k := x))"
  unfolding settled_def
proof
  fix k'
  show "(\<exists>j o'. (ops(i \<mapsto> op')) j = Some o' \<and> op_effect o' = Some (k', (m(k := x)) k'))
      \<or> (\<forall>j o' y. (ops(i \<mapsto> op')) j = Some o' \<longrightarrow> op_effect o' \<noteq> Some (k', y)) \<and> (m(k := x)) k' = r k'"
  proof (cases "k' = k")
    case True
    with assms(6) show ?thesis by (metis fun_upd_same)
  next
    case False
    have "(\<exists>j o'. (ops(i \<mapsto> op')) j = Some o' \<and> op_effect o' = Some (k', y))
        \<longleftrightarrow> (\<exists>j o'. ops j = Some o' \<and> op_effect o' = Some (k', y))" for y
      using assms(3,4,6) False by (metis fun_upd_apply option.distinct(1) option.inject prod.inject)
    with assms(1) False show ?thesis unfolding settled_def fun_upd_other [OF False] by metis
  qed
qed

lemma settled_store:
  assumes "settled ops r m" and "exclusive ops" and "ops i = Some op" and "op_effect op = Some (k, x)"
  shows "settled (ops(i := None)) (r(k := x)) m"
  unfolding settled_def
proof
  fix k'
  have only: "j = i" if "ops j = Some o'" "op_effect o' = Some (k, y)" for j o' y
    using that assms(2,3,4) effect_key unfolding exclusive_def by metis
  show "(\<exists>j o'. (ops(i := None)) j = Some o' \<and> op_effect o' = Some (k', m k'))
      \<or> (\<forall>j o' y. (ops(i := None)) j = Some o' \<longrightarrow> op_effect o' \<noteq> Some (k', y)) \<and> m k' = (r(k := x)) k'"
  proof (cases "k' = k")
    case True
    have "m k = x" using assms(1,3,4) only unfolding settled_def by (metis option.inject prod.inject)
    with True only show ?thesis by (metis fun_upd_apply option.distinct(1))
  next
    case False
    have "(\<exists>j o'. (ops(i := None)) j = Some o' \<and> op_effect o' = Some (k', y))
        \<longleftrightarrow> (\<exists>j o'. ops j = Some o' \<and> op_effect o' = Some (k', y))" for y
      using assms(3,4) False by (metis fun_upd_apply option.distinct(1) option.inject prod.inject)
    with assms(1) False show ?thesis unfolding settled_def fun_upd_other [OF False] by metis
  qed
qed

lemma settled_remove:
  assumes "settled ops r m" and "\<And>raw. r k = Some raw \<Longrightarrow> expired_at t raw"
  shows "\<exists>m'. settled ops (r(k := None)) m' \<and> up_to_expiry t m' m"
proof (cases "\<exists>i op x. ops i = Some op \<and> op_effect op = Some (k, x)")
  case True
  then have "settled ops (r(k := None)) m"
    using assms(1) unfolding settled_def by (metis fun_upd_apply)
  then show ?thesis by (auto simp: up_to_expiry_def)
next
  case False
  then have m: "m k = r k" using assms(1) unfolding settled_def by metis
  from False assms(1) have "settled ops (r(k := None)) (m(k := None))"
    unfolding settled_def by (metis fun_upd_apply)
  moreover have "up_to_expiry t (m(k := None)) m" using m assms(2) by (auto simp: up_to_expiry_def)
  ultimately show ?thesis by blast
qed


lemma op_ok_later:
  "op_ok t r op \<Longrightarrow> t \<le> t' \<Longrightarrow> r' (op_key op) = r (op_key op) \<or> r' (op_key op) = None \<Longrightarrow> op_ok t' r' op"
  by (cases op) (auto dest: expired_at_mono)

lemma inv_neutral:
  assumes "ov_inv L opts s" and "no_effect (ov_ops s i)" and "no_effect pc" and "exclusive ((ov_ops s)(i := pc))"
    and "\<And>op. pc = Some op \<Longrightarrow> op_ok (ov_time s) (raw_view L (w_db (ov_wrapper s))) op"
  shows "ov_inv L opts (s\<lparr>ov_ops := (ov_ops s)(i := pc)\<rparr>)"
  using assms settled_neutral [of "ov_ops s" _ _ i pc] by (auto simp: ov_inv_def split: if_splits)

lemma inv_log:
  assumes "ov_inv L opts s" and "ov_ops s i = Some op" and "op_effect op = None" and "op_key op' = op_key op"
    and "op_effect op' = Some (k, x)" and "op_ok (ov_time s) (raw_view L (w_db (ov_wrapper s))) op'"
    and "accepting opts (w_aof (ov_wrapper s))" and "resp_ok cmd" and "\<And>m. replay_command cmd m = m(k := x)"
  shows "ov_inv L opts (s\<lparr>ov_wrapper := (ov_wrapper s)\<lparr>w_aof := push_payload (serializeToRESP cmd) (w_aof (ov_wrapper s))\<rparr>,
    ov_ops := (ov_ops s)(i \<mapsto> op')\<rparr>)"
proof -
  let ?w = "ov_wrapper s"
  from assms(1) obtain m where m: "settled (ov_ops s) (raw_view L (w_db ?w)) m"
    "history_ok (ov_time s) m (aof_accepted (w_aof ?w))" "exclusive (ov_ops s)" "aof_inv opts [] (w_aof ?w)"
    unfolding ov_inv_def by blast
  from settled_log [OF m(1,3) assms(2-5)] history_ok_command [OF m(2) assms(8,9)]
    push_payload_inv [OF m(4) assms(7)] exclusive_update [OF m(3) assms(2,4)] assms(1,6)
  show ?thesis by (auto simp: ov_inv_def engine_ok_def push_payload_def split: if_splits)
qed

lemma inv_store:
  assumes "ov_inv L opts s" and "ov_ops s i = Some op" and "op_effect op = Some (k, x)"
    and "engine_ok L w" and "w_aof w = w_aof (ov_wrapper s)"
    and "raw_view L (w_db w) = (raw_view L (w_db (ov_wrapper s)))(k := x)"
  shows "ov_inv L opts (s\<lparr>ov_wrapper := w, ov_ops := (ov_ops s)(i := None)\<rparr>)"
proof -
  let ?r = "raw_view L (w_db (ov_wrapper s))"
  from assms(1) obtain m where m: "settled (ov_ops s) ?r m"
    "history_ok (ov_time s) m (aof_accepted (w_aof (ov_wrapper s)))" "exclusive (ov_ops s)"
    "aof_inv opts [] (w_aof (ov_wrapper s))" and ok: "\<And>j o'. ov_ops s j = Some o' \<Longrightarrow> op_ok (ov_time s) ?r o'"
    unfolding ov_inv_def by blast
  have "op_ok (ov_time s) (?r(k := x)) o'" if "ov_ops s j = Some o'" "j \<noteq> i" for j o'
  proof -
    have "op_key o' \<noteq> k" using that m(3) assms(2) effect_key [OF assms(3)] unfolding exclusive_def by metis
    then show ?thesis by (intro op_ok_later [OF ok [OF that(1)]]) simp_all
  qed
  with settled_store [OF m(1,3) assms(2,3)] m exclusive_end [OF m(3), of i] assms(4-6) show ?thesis
    by (auto simp: ov_inv_def split: if_splits)
qed

lemma inv_remove:
  assumes "ov_inv L opts s" and "\<And>raw. raw_view L (w_db (ov_wrapper s)) k = Some raw \<Longrightarrow> expired_at (ov_time s) raw"
  shows "ov_inv L opts (s\<lparr>ov_wrapper := get_remove L k (ov_wrapper s)\<rparr>)"
proof -
  let ?r = "raw_view L (w_db (ov_wrapper s))"
  from assms(1) obtain m where m: "settled (ov_ops s) ?r m" "engine_ok L (ov_wrapper s)"
    "history_ok (ov_time s) m (aof_accepted (w_aof (ov_wrapper s)))" "exclusive (ov_ops s)"
    "aof_inv opts [] (w_aof (ov_wrapper s))" and ok: "\<And>j o'. ov_ops s j = Some o' \<Longrightarrow> op_ok (ov_time s) ?r o'"
    unfolding ov_inv_def by blast
  have "op_ok (ov_time s) (?r(k := None)) o'" if "ov_ops s j = Some o'" for j o'
    by (rule op_ok_later [OF ok [OF that]]) simp_all
  moreover obtain m' where "settled (ov_ops s) (?r(k := None)) m'" "up_to_expiry (ov_time s) m' m"
    using settled_remove [OF m(1) assms(2)] by blast
  moreover note history_ok_shrink [OF m(3) order.refl this(2)]
  ultimately show ?thesis
    using m lazy_remove(1,3) [OF m(2), of k] by (auto simp: ov_inv_def get_remove_def)
qed

lemma get_read_cases:
  assumes "engine_ok L w"
  shows "get_read L t k [] w =
    (case store_view L w k of None \<Rightarrow> Some (False, [])
     | Some (v, e) \<Rightarrow> if live t e then Some (True, v) else None)"
  using assms
proof (cases rule: raw_value_cases [where k = k])
  case (present raw v e p)
  then show ?thesis by (auto simp: get_read_def Let_def live_def)
qed (simp add: get_read_def)

lemma expire_read_cases:
  assumes "engine_ok L w"
  shows "expire_read L t k ts w =
    map_option (\<lambda>(v, e). v @ CHR 0x09 # to_string (unat (t + ts))) (store_view L w k)"
  using assms
proof (cases rule: raw_value_cases [where k = k])
  case (present raw v e p)
  then show ?thesis by (simp add: expire_read_def Let_def)
qed (simp add: expire_read_def)

lemma get_read_expired:
  assumes "engine_ok L w" and "get_read L t k [] w = None" and "raw_view L (w_db w) k = Some raw"
  shows "expired_at t raw"
proof -
  have "decode_record raw \<noteq> None" using engine_ok_records [OF assms(1)] assms(3) unfolding records_ok_def by blast
  with assms get_read_cases [OF assms(1), of t k] show ?thesis
    by (auto simp: store_view_def expired_at_def split: option.splits if_splits)
qed

lemma expire_read_ok:
  assumes "engine_ok L w" and "expire_read L t k ts w = Some u"
  shows "decode_record (u @ no_expiry) \<noteq> None"
proof -
  from assms(2) expire_read_cases [OF assms(1), of t k ts] obtain v e where
    v: "store_view L w k = Some (v, e)" "u = v @ CHR 0x09 # to_string (unat (t + ts))" by auto
  from decode_record_expiring [OF expire_present(2) [OF assms(1) v(1)], of "t + ts"] v(2) show ?thesis by simp
qed

lemma put_store_raw:
  assumes "leveldb_ok L" and "leveldb_healthy L" and "w_db w \<noteq> None"
  shows "raw_view L (w_db (snd (put_store L k v w))) = (raw_view L (w_db w))(k \<mapsto> v @ no_expiry)"
    and "w_db (snd (put_store L k v w)) \<noteq> None" and "w_aof (snd (put_store L k v w)) = w_aof w"
  using raw_view_put [OF assms, of k "v @ no_expiry"] by (simp_all add: put_store_def case_prod_beta)

lemma put_store_ok:
  assumes "engine_ok L w" and "decode_record (v @ no_expiry) \<noteq> None"
  shows "engine_ok L (snd (put_store L k v w))"
proof -
  have L: "leveldb_ok L" "leveldb_healthy L" "w_db w \<noteq> None" using assms(1) by (simp_all add: engine_ok_def)
  note r = put_store_raw [OF L, of k v]
  from records_ok_update [OF engine_ok_records [OF assms(1)] r(1)] assms(2) L r(2) show ?thesis
    by (simp add: engine_ok_def)
qed

lemma remove_store_get_remove: "snd (remove_store L k w) = get_remove L k w"
  by (simp add: remove_store_def get_remove_def split: prod.splits)


lemma op_next_inv:
  assumes "ov_inv L opts s" and "ov_ops s i = Some op" and "polite L (Ov_next i) s"
    and "op_next L opts (ov_time s) op (ov_wrapper s) = Some (pc, w)"
  shows "ov_inv L opts (s\<lparr>ov_wrapper := w, ov_ops := (ov_ops s)(i := pc)\<rparr>)"
proof -
  let ?w = "ov_wrapper s" and ?r = "raw_view L (w_db (ov_wrapper s))"
  from assms(1,2) have e: "engine_ok L ?w" "exclusive (ov_ops s)" "op_ok (ov_time s) ?r op"
    by (auto simp: ov_inv_def)
  note neutral = inv_neutral [OF assms(1), of i] and log = inv_log [OF assms(1,2)]
  show ?thesis
  proof (cases op)
    case (Put_logging k v)
    with assms(4) e(3) log [of "Put_storing k v" k "Some (v @ no_expiry)" "[''SET'', k, v]"] show ?thesis
      by (auto simp: put_log_def log_command_accepting split: if_splits)
  next
    case (Put_storing k v)
    with assms(4) e inv_store [OF assms(1,2) _ put_store_ok [OF e(1)], of k "Some (v @ no_expiry)" v k]
      put_store_raw [of L ?w k v] show ?thesis by (auto simp: engine_ok_def)
  next
    case (Del_logging k)
    with assms(4) e(3) log [of "Del_storing k" k None "[''DEL'', k]"] show ?thesis
      by (auto simp: remove_log_def log_command_accepting split: if_splits)
  next
    case (Del_storing k)
    with assms(4) inv_store [OF assms(1,2) _ lazy_remove(1) [OF e(1), of k], of k None]
      lazy_remove(3) [OF e(1), of k] show ?thesis
      by (auto simp: remove_store_get_remove get_remove_def)
  next
    case (Get_reading k)
    with assms(2,4) neutral [of None] neutral [of "Some (Get_removing k)"] exclusive_end [OF e(2)]
      exclusive_update [OF e(2) assms(2), of "Get_removing k"] get_read_expired [OF e(1)]
    show ?thesis by (auto simp: no_effect_def split: option.splits)
  next
    case (Get_removing k)
    have "ov_inv L opts (s\<lparr>ov_wrapper := get_remove L k ?w\<rparr>)"
      using inv_remove [OF assms(1)] e(3) Get_removing by simp
    from inv_neutral [OF this, of i None] assms(2,4) Get_removing exclusive_end [OF e(2)] show ?thesis
      by (simp add: no_effect_def)
  next
    case (Expire_reading k ts)
    with assms(2-4) neutral [of None] exclusive_end [OF e(2)] expire_read_ok [OF e(1)]
      neutral [where pc = "Some (Put_logging k _)"] exclusive_update [OF e(2) assms(2), of "Put_logging k _"]
    show ?thesis by (auto simp: no_effect_def split: option.splits)
  qed
qed


lemma inv_begin:
  assumes "ov_inv L opts s" and "polite L (Ov_begin i op) s" and "ov_ops s i = None" and "op_starts op"
  shows "ov_inv L opts (s\<lparr>ov_ops := (ov_ops s)(i \<mapsto> op)\<rparr>)"
proof (rule inv_neutral [OF assms(1)])
  show "exclusive ((ov_ops s)(i \<mapsto> op))" using assms(1,2) by (auto simp: ov_inv_def intro: exclusive_begin)
  show "op_ok (ov_time s) (raw_view L (w_db (ov_wrapper s))) o'" if "Some op = Some o'" for o'
    using that assms(2,4) by (cases op) (auto simp: decode_record_plain)
qed (use assms(3,4) in \<open>cases op; auto simp: no_effect_def\<close>)+

lemma ov_exec_inv:
  assumes "ov_inv L opts s" and "polite L e s" and "ov_exec L opts e s = Some s'"
  shows "ov_inv L opts s'"
proof (cases e)
  case (Ov_begin i op)
  with inv_begin [OF assms(1)] assms(2,3) show ?thesis by (auto split: if_splits)
next
  case (Ov_next i)
  with assms(3) obtain op pc w where "ov_ops s i = Some op"
    "op_next L opts (ov_time s) op (ov_wrapper s) = Some (pc, w)"
    "s' = s\<lparr>ov_wrapper := w, ov_ops := (ov_ops s)(i := pc)\<rparr>" by (auto split: option.splits)
  with op_next_inv [OF assms(1)] assms(2) Ov_next show ?thesis by metis
next
  case Ov_scan
  with assms(1,3) show ?thesis by (auto simp: ov_inv_def split: if_splits)
next
  case Ov_visit
  then obtain k raw es where v: "ov_scan s = (k, raw) # es" using assms(3) by (auto split: list.splits)
  show ?thesis
  proof (cases "expired_at (ov_time s) raw")
    case True
    have "ov_inv L opts (s\<lparr>ov_wrapper := get_remove L k (ov_wrapper s)\<rparr>)"
      by (rule inv_remove [OF assms(1)]) (use assms(2) Ov_visit v True in auto)
    with assms(3) Ov_visit v True show ?thesis
      by (auto simp: cleaner_entry_expired get_remove_def ov_inv_def)
  next
    case False
    with assms(1,3) Ov_visit v show ?thesis by (auto simp: cleaner_entry_expired ov_inv_def)
  qed
next
  case (Ov_tick t)
  then have t: "ov_time s \<le> t" "s' = s\<lparr>ov_time := t\<rparr>" using assms(3) by (auto split: if_splits)
  with assms(1) op_ok_later [OF _ t(1)] history_ok_shrink [OF _ t(1)] show ?thesis
    by (fastforce simp: ov_inv_def up_to_expiry_def)
next
  case (Ov_log ev)
  with assms(1,3) aof_exec_inv [of opts "[]"] writer_event_accepted show ?thesis
    by (fastforce simp: ov_inv_def engine_ok_def split: if_splits)
qed


interpretation overlapped: transition_invariant "overlap_start L" "overlap_step L opts" "ov_inv L opts"
  for L :: "'d leveldb" and opts :: options
proof unfold_locales
  fix s :: "('d, 'l) overlap"
  assume "overlap_start L s"
  then show "ov_inv L opts s"
    using whole.start_inv [of L "(ov_time s, ov_wrapper s)"]
    by (auto simp: overlap_start_def ov_inv_def engine_inv_def exclusive_def settled_def)
next
  fix s s' :: "('d, 'l) overlap"
  assume "ov_inv L opts s" and "overlap_step L opts s s'"
  then show "ov_inv L opts s'" by (elim overlap_stepE) (rule ov_exec_inv)
qed

definition example_race :: "((string \<times> string) list, nat) overlap" where
  "example_race = \<lparr>ov_time = 9,
     ov_wrapper = mem_wrapper [(''k'', (''old'' @ CHR 0x09 # to_string (unat (7 :: u64))) @ no_expiry)],
     ov_ops = (\<lambda>i. None), ov_scan = []\<rparr>"

lemma example_race_facts:
  "engine_ok mem_leveldb (ov_wrapper example_race)"
  "store_view mem_leveldb (ov_wrapper example_race) ''k'' = Some (''old'', 7)"
  "accepting main_options (w_aof (ov_wrapper example_race))"
  "length (aof_queue (w_aof (ov_wrapper example_race))) + 1 < max_queue_entries main_options"
  "ov_time example_race = 9" "ov_ops example_race i = None"
proof -
  have d: "decode_record ((''old'' @ CHR 0x09 # to_string (unat (7 :: u64))) @ no_expiry) = Some (''old'', 7)"
    by (rule decode_record_expiring) simp
  then show "engine_ok mem_leveldb (ov_wrapper example_race)"
    unfolding example_race_def overlap.select_convs by (intro mem_wrapper_ok) (simp del: append.simps)
  show "store_view mem_leveldb (ov_wrapper example_race) ''k'' = Some (''old'', 7)"
    using d by (simp add: example_race_def store_view_def raw_view_def mem_wrapper_def mem_leveldb_def del: append.simps)
qed (simp_all add: example_race_def mem_wrapper_def example_aof_def startWriter_def accepting_def main_options_def
    default_options_def)

section \<open>Properties\<close>


fun polite_run :: "'d leveldb \<Rightarrow> options \<Rightarrow> ov_event list \<Rightarrow> ('d, 'l) overlap \<Rightarrow> bool" where
  "polite_run L opts [] s \<longleftrightarrow> True"
| "polite_run L opts (e # es) s \<longleftrightarrow>
     polite L e s \<and> (case ov_exec L opts e s of None \<Rightarrow> False | Some s' \<Rightarrow> polite_run L opts es s')"

lemma polite_run_steps:
  "polite_run L opts es s \<Longrightarrow> ov_run L opts es s = Some s' \<Longrightarrow> (overlap_step L opts)\<^sup>*\<^sup>* s s'"
proof (induction es arbitrary: s)
  case (Cons e es)
  then show ?case by (auto split: option.splits intro: converse_rtranclp_into_rtranclp overlap_step)
qed simp

definition example_overlap :: "((string \<times> string) list, nat) overlap" where
  "example_overlap = \<lparr>ov_time = 5, ov_wrapper = \<lparr>w_db = Some [],
     w_aof = (case Aof_construct True 0 [] of Inr a \<Rightarrow> a)\<rparr>, ov_ops = (\<lambda>i. None), ov_scan = []\<rparr>"



text \<open>
  C31: without that discipline a read can undo a write.  Let a thread read a key whose record has expired, and
  let another thread run a whole SET on the key before the first one goes on to remove the expired record.
  SET has returned true and its command is the last in the log, but the key is gone: clients see
  nothing, and a replica or a restart, which replay the log, bring the value back.
\<close>

theorem get_removes_fresh_value:
  fixes L :: "'d leveldb" and L' :: "'e leveldb"
  assumes "engine_ok L (ov_wrapper s)" and "accepting opts (w_aof (ov_wrapper s))" and "i \<noteq> j"
    and "ov_ops s i = None" and "ov_ops s j = None"
    and "store_view L (ov_wrapper s) k = Some (v, e)" and "\<not> live (ov_time s) e" and "TAB \<notin> set v'" and "engine_ok L' r"
  shows "\<exists>s'. ov_run L opts [Ov_begin i (Get_reading k), Ov_next i, Ov_begin j (Put_logging k v'), Ov_next j, Ov_next j,
      Ov_next i] s = Some s'
    \<and> visible t (store_view L (ov_wrapper s')) k = None
    \<and> aof_accepted (w_aof (ov_wrapper s')) = aof_accepted (w_aof (ov_wrapper s)) @ [serializeToRESP [''SET'', k, v']]
    \<and> visible t (store_view L' (apply_command L' opts' sleep' [''SET'', k, v'] r)) k = Some v'"
proof -
  define w1 where "w1 = put_log opts id k v' (ov_wrapper s)"
  define w2 where "w2 = get_remove L k (snd (put_store L k v' w1))"
  have L: "leveldb_ok L" "leveldb_healthy L" "w_db w1 \<noteq> None" and e1: "engine_ok L w1"
    using assms(1) by (simp_all add: engine_ok_def w1_def put_log_def)
  have e2: "engine_ok L (snd (put_store L k v' w1))"
    by (rule put_store_ok [OF e1]) (simp add: decode_record_plain [OF assms(8)])
  have g: "get_read L (ov_time s) k [] (ov_wrapper s) = None"
    using get_read_cases [OF assms(1), of "ov_time s" k] assms(6,7) by simp
  have "visible t (store_view L w2) k = None"
    using lazy_remove(2) [OF e2, of k] by (simp add: w2_def get_remove_def visible_def)
  moreover have "aof_accepted (w_aof w2) = aof_accepted (w_aof (ov_wrapper s)) @ [serializeToRESP [''SET'', k, v']]"
    using put_store_raw(3) [OF L, of k v'] assms(2)
    by (simp add: w2_def get_remove_def w1_def put_log_def log_command_accepting push_payload_def)
  moreover have "visible t (store_view L' (apply_command L' opts' sleep' [''SET'', k, v'] r)) k = Some v'"
    using apply_command_raw [of L' r opts' sleep' "[''SET'', k, v']"] assms(9) decode_record_plain [OF assms(8)]
    by (simp add: engine_ok_def visible_def store_view_def live_def)
  ultimately show ?thesis
    using assms(2-5) g by (simp add: w1_def [symmetric] w2_def [symmetric])
qed

theorem get_removes_fresh_value_witness:
  "\<exists>s'. ov_run mem_leveldb main_options [Ov_begin 0 (Get_reading ''k''), Ov_next 0, Ov_begin 1 (Put_logging ''k'' ''new''),
      Ov_next 1, Ov_next 1, Ov_next 0] example_race = Some s'
    \<and> visible 10 (store_view mem_leveldb (ov_wrapper s')) ''k'' = None
    \<and> visible 10 (store_view mem_leveldb (apply_command mem_leveldb main_options id [''SET'', ''k'', ''new''] (mem_wrapper [])))
        ''k'' = Some ''new''"
proof -
  have "\<not> live (ov_time example_race) 7" by (simp add: example_race_facts(5) live_def)
  from get_removes_fresh_value [OF example_race_facts(1,3) zero_neq_one example_race_facts(6,6,2) this _ mem_wrapper_empty,
      of "''new''" 10 main_options id] show ?thesis by (auto simp del: ov_run.simps)
qed

text \<open>
  C32: \<^verbatim>\<open>EXPIRE\<close> reads a value and puts it back with its expiry time.  Let another thread run a whole SET on the
  key in between: the value that the client was told is stored is lost, from the database and for those
  that replay the log, and the old value is back with the new expiry time.
\<close>

theorem expire_restores_old_value:
  fixes L :: "'d leveldb"
  assumes "engine_ok L (ov_wrapper s)" and "aof_stop (w_aof (ov_wrapper s)) = False"
    and "length (aof_queue (w_aof (ov_wrapper s))) + 1 < max_queue_entries opts" and "i \<noteq> j"
    and "ov_ops s i = None" and "ov_ops s j = None" and "store_view L (ov_wrapper s) k = Some (v, e)" and "TAB \<notin> set v'"
  shows "\<exists>s'. ov_run L opts [Ov_begin i (Expire_reading k ts), Ov_next i, Ov_begin j (Put_logging k v'), Ov_next j,
      Ov_next j, Ov_next i, Ov_next i] s = Some s'
    \<and> store_view L (ov_wrapper s') k = Some (v, ov_time s + ts)
    \<and> aof_accepted (w_aof (ov_wrapper s')) = aof_accepted (w_aof (ov_wrapper s)) @ map serializeToRESP
        [[''SET'', k, v'], [''SET'', k, v @ CHR 0x09 # to_string (unat (ov_time s + ts))]]"
proof -
  define u where "u = v @ CHR 0x09 # to_string (unat (ov_time s + ts))"
  define w1 where "w1 = put_log opts id k v' (ov_wrapper s)"
  define w2 where "w2 = snd (put_store L k v' w1)"
  define w3 where "w3 = put_log opts id k u w2"
  define w4 where "w4 = snd (put_store L k u w3)"
  have acc: "accepting opts (w_aof (ov_wrapper s))" using assms(2,3) by (simp add: accepting_def)
  have L: "leveldb_ok L" "leveldb_healthy L" "w_db w1 \<noteq> None"
    using assms(1) by (simp_all add: engine_ok_def w1_def put_log_def)
  note s2 = put_store_raw [OF L, of k v', folded w2_def]
  have w3: "w_db w3 \<noteq> None" using s2(2) by (simp add: w3_def put_log_def)
  note s4 = put_store_raw [OF L(1,2) w3, of k u, folded w4_def]
  have a1: "w_aof w1 = push_payload (serializeToRESP [''SET'', k, v']) (w_aof (ov_wrapper s))"
    using acc by (simp add: w1_def put_log_def log_command_accepting)
  have acc2: "accepting opts (w_aof w2)" using a1 s2(3) assms(2,3) by (simp add: accepting_def push_payload_def)
  have a4: "w_aof w4 = push_payload (serializeToRESP [''SET'', k, u]) (w_aof w2)"
    using s4(3) acc2 by (simp add: w3_def put_log_def log_command_accepting)
  have x: "expire_read L (ov_time s) k ts (ov_wrapper s) = Some u"
    using expire_read_cases [OF assms(1), of "ov_time s" k ts] assms(7) by (simp add: u_def)
  have "store_view L w4 k = Some (v, ov_time s + ts)"
    using s4(1) decode_record_expiring [OF expire_present(2) [OF assms(1,7)], of "ov_time s + ts"]
    by (simp add: store_view_def u_def)
  then show ?thesis
    using assms(4-6) acc acc2 x a1 a4 s2(3)
    by (simp add: w1_def [symmetric] w2_def [symmetric] w3_def [symmetric] w4_def [symmetric] u_def [symmetric] push_payload_def)
qed

theorem expire_restores_old_value_witness:
  "\<exists>s'. ov_run mem_leveldb main_options [Ov_begin 0 (Expire_reading ''k'' 5), Ov_next 0, Ov_begin 1 (Put_logging ''k'' ''new''),
      Ov_next 1, Ov_next 1, Ov_next 0, Ov_next 0] example_race = Some s'
    \<and> store_view mem_leveldb (ov_wrapper s') ''k'' = Some (''old'', 14)"
proof -
  have "aof_stop (w_aof (ov_wrapper example_race)) = False" using example_race_facts(3) by (simp add: accepting_def)
  from expire_restores_old_value [OF example_race_facts(1) this example_race_facts(4) zero_neq_one
      example_race_facts(6,6,2), of "''new''" 5] example_race_facts(5) show ?thesis by (auto simp del: ov_run.simps)
qed


text \<open>
  C33: two SET commands on one key that overlap can be logged in one order and stored in the other: the
  database then answers with the first value and the log, replayed on a replica or at a restart,
  with the second.
\<close>

theorem overlapping_sets_diverge:
  fixes L :: "'d leveldb" and L' :: "'e leveldb"
  assumes "engine_ok L (ov_wrapper s)" and "aof_stop (w_aof (ov_wrapper s)) = False"
    and "length (aof_queue (w_aof (ov_wrapper s))) + 1 < max_queue_entries opts" and "i \<noteq> j"
    and "ov_ops s i = None" and "ov_ops s j = None" and "TAB \<notin> set v1" and "TAB \<notin> set v2" and "engine_ok L' r"
  shows "\<exists>s'. ov_run L opts [Ov_begin i (Put_logging k v1), Ov_next i, Ov_begin j (Put_logging k v2), Ov_next j,
      Ov_next j, Ov_next i] s = Some s'
    \<and> aof_accepted (w_aof (ov_wrapper s'))
        = aof_accepted (w_aof (ov_wrapper s)) @ map serializeToRESP [[''SET'', k, v1], [''SET'', k, v2]]
    \<and> visible t (store_view L (ov_wrapper s')) k = Some v1
    \<and> visible t (store_view L' (fold (apply_command L' opts' sleep') [[''SET'', k, v1], [''SET'', k, v2]] r)) k = Some v2"
proof -
  define w1 where "w1 = put_log opts id k v1 (ov_wrapper s)"
  define w2 where "w2 = put_log opts id k v2 w1"
  define w3 where "w3 = snd (put_store L k v2 w2)"
  define w4 where "w4 = snd (put_store L k v1 w3)"
  have acc: "accepting opts (w_aof (ov_wrapper s))" using assms(2,3) by (simp add: accepting_def)
  then have a1: "w_aof w1 = push_payload (serializeToRESP [''SET'', k, v1]) (w_aof (ov_wrapper s))"
    by (simp add: w1_def put_log_def log_command_accepting)
  then have acc1: "accepting opts (w_aof w1)" using assms(2,3) by (simp add: accepting_def push_payload_def)
  have L: "leveldb_ok L" "leveldb_healthy L" "w_db w2 \<noteq> None" "leveldb_ok L'" "leveldb_healthy L'" "w_db r \<noteq> None"
    using assms(1,9) by (simp_all add: engine_ok_def w1_def w2_def put_log_def)
  note s3 = put_store_raw [OF L(1-3), of k v2, folded w3_def]
  note s4 = put_store_raw [OF L(1,2) s3(2), of k v1, folded w4_def]
  have "aof_accepted (w_aof w4)
      = aof_accepted (w_aof (ov_wrapper s)) @ map serializeToRESP [[''SET'', k, v1], [''SET'', k, v2]]"
    using s3(3) s4(3) acc1 a1 by (simp add: w2_def put_log_def log_command_accepting push_payload_def)
  moreover have "visible t (store_view L w4) k = Some v1"
    using s4(1) decode_record_plain [OF assms(7)] by (simp add: visible_def store_view_def live_def)
  moreover have "visible t (store_view L' (fold (apply_command L' opts' sleep') [[''SET'', k, v1], [''SET'', k, v2]] r)) k = Some v2"
    using apply_commands_raw [OF L(4-6), of opts' sleep' "[[''SET'', k, v1], [''SET'', k, v2]]"] decode_record_plain [OF assms(8)]
    by (simp add: visible_def store_view_def live_def)
  ultimately show ?thesis
    using assms(4-6) acc acc1 by (simp add: w1_def [symmetric] w2_def [symmetric] w3_def [symmetric] w4_def [symmetric])
qed

theorem overlapping_sets_diverge_witness:
  "\<exists>s'. ov_run mem_leveldb main_options [Ov_begin 0 (Put_logging ''k'' ''a''), Ov_next 0, Ov_begin 1 (Put_logging ''k'' ''b''),
      Ov_next 1, Ov_next 1, Ov_next 0] example_race = Some s'
    \<and> visible 1 (store_view mem_leveldb (ov_wrapper s')) ''k'' = Some ''a''
    \<and> visible 1 (store_view mem_leveldb (fold (apply_command mem_leveldb main_options id)
         [[''SET'', ''k'', ''a''], [''SET'', ''k'', ''b'']] (mem_wrapper []))) ''k'' = Some ''b''"
proof -
  have "aof_stop (w_aof (ov_wrapper example_race)) = False" using example_race_facts(3) by (simp add: accepting_def)
  from overlapping_sets_diverge [OF example_race_facts(1) this example_race_facts(4) zero_neq_one
      example_race_facts(6,6) _ _ mem_wrapper_empty, of "''a''" "''b''" "''k''" 1 main_options id]
  show ?thesis by (auto simp del: ov_run.simps fold_simps)
qed

end
