(* ===== verification/Aof_Shutdown.thy ===== *)
theory Aof_Shutdown
  imports Aof_Writer
begin

text \<open>
  The end of the log: once the stop flag is up the writer thread finishes.  Each of its turns lowers a
  measure of what is queued, what is being written and where the thread is; no other thread raises it,
  and until the thread has finished it always has a turn to take.  The destructor of \<^verbatim>\<open>Aof\<close> is \<^verbatim>\<open>stop\<close>.
\<close>

section \<open>Stop and the destructor\<close>

text \<open>
  A whole call of \<^verbatim>\<open>stop\<close>: \<open>join\<close> is what the threads do to the object from the request to the moment
  the writer thread has finished.  A call that finds the flag up returns at once.
\<close>

definition Aof_stop :: "options \<Rightarrow> ('l aof \<Rightarrow> 'l aof) \<Rightarrow> 'l aof \<Rightarrow> 'l aof" where
  "Aof_stop opts join s = (if aof_stop s then s else stop_complete opts (join (stop_request s)))"

definition Aof_destroy :: "options \<Rightarrow> ('l aof \<Rightarrow> 'l aof) \<Rightarrow> 'l aof \<Rightarrow> 'l aof" where
  "Aof_destroy opts join s = Aof_stop opts join s"

text \<open>What is closed stays closed: a second call, such as the destructor's after \<^verbatim>\<open>stop\<close>, does nothing.\<close>

lemma Aof_stop_twice:
  assumes "\<And>a. aof_stop a \<Longrightarrow> aof_stop (join a)"
  shows "Aof_destroy opts join (Aof_stop opts join s) = Aof_stop opts join s"
proof -
  have "aof_stop (Aof_stop opts join s)"
    using assms [of "stop_request s"]
    by (auto simp: Aof_stop_def stop_complete_def do_fsync_def stop_request_def Let_def)
  then show ?thesis by (simp add: Aof_destroy_def Aof_stop_def)
qed

section \<open>The measure\<close>

definition payload_cost :: "string list \<Rightarrow> nat" where
  "payload_cost ps = sum_list (map (\<lambda>p. length p + 1) ps)"

fun pc_rank :: "writer_pc \<Rightarrow> nat" where
  "pc_rank W_off = 0"
| "pc_rank W_exit = 0"
| "pc_rank W_final = 1"
| "pc_rank W_empty = 2"
| "pc_rank W_top = 3"
| "pc_rank W_stored = 4"
| "pc_rank W_written = 5"
| "pc_rank (W_writing iovs) = 6"

definition stop_cost :: "'l aof \<Rightarrow> nat" where
  "stop_cost s = 10 * payload_cost (aof_queue s) + 5 * payload_cost (pending (aof_pc s)) + pc_rank (aof_pc s)"

text \<open>A turn of the writer, with a \<^verbatim>\<open>writev\<close> that writes something; and what else may happen meanwhile.\<close>

fun writer_turn :: "aof_event \<Rightarrow> bool" where
  "writer_turn Collect = True"
| "writer_turn (Idle now) = True"
| "writer_turn (Writev r) = is_bytes r"
| "writer_turn Store_offset = True"
| "writer_turn (Sync now) = True"
| "writer_turn Finish = True"
| "writer_turn _ = False"

fun meanwhile :: "aof_event \<Rightarrow> bool" where
  "meanwhile (Append_async p) = True"
| "meanwhile (Append_blocking p) = True"
| "meanwhile Wake = True"
| "meanwhile (Spurious i) = True"
| "meanwhile Stop_request = True"
| "meanwhile (Writev r) = (r = Wv_EINTR)"
| "meanwhile _ = False"

text \<open>The writer has been told to stop and has not been closed; all payloads have bytes.\<close>

definition winding_down :: "'l aof \<Rightarrow> bool" where
  "winding_down s \<longleftrightarrow> aof_stop s \<and> aof_fd s \<and> aof_pc s \<noteq> W_off
     \<and> list_all (\<lambda>p. p \<noteq> []) (aof_queue s) \<and> list_all (\<lambda>p. p \<noteq> []) (pending (aof_pc s))
     \<and> (\<forall>iovs. aof_pc s = W_writing iovs \<longrightarrow> iovs \<noteq> [])"

lemma payload_cost_simps [simp]:
  "payload_cost [] = 0" "payload_cost (p # ps) = length p + 1 + payload_cost ps"
  "payload_cost (ps @ qs) = payload_cost ps + payload_cost qs"
  by (simp_all add: payload_cost_def)

lemma payload_cost_pos: "ps \<noteq> [] \<Longrightarrow> 0 < payload_cost ps"
  by (cases ps) simp_all

lemma payload_cost_advance_le: "payload_cost (advance n iovs) \<le> payload_cost iovs"
  by (induction n iovs rule: advance.induct) auto

lemma payload_cost_advance:
  assumes "0 < n" and "iovs \<noteq> []"
  shows "payload_cost (advance n iovs) < payload_cost iovs"
proof -
  obtain m v vs where "n = Suc m" "iovs = v # vs" using assms by (cases n; cases iovs) auto
  then show ?thesis using payload_cost_advance_le [of "Suc m - length v" vs] by auto
qed

section \<open>A turn lowers it\<close>

lemma writev_turn:
  assumes "winding_down s" and "aof_pc s = W_writing iovs" and "is_bytes r" and "writer_writev r s iovs = Some t"
  shows "winding_down t \<and> stop_cost t < stop_cost s \<and> aof_lost t = aof_lost s"
proof -
  obtain k where k: "r = Wv_bytes k" "0 < k" using assms(3) by (cases r) (auto simp: is_bytes_def)
  let ?slice = "concat (take IOV_MAX_SLICE iovs)"
  let ?n = "min k (length ?slice)"
  have ne: "iovs \<noteq> []" "list_all (\<lambda>p. p \<noteq> []) iovs" using assms(1,2) by (auto simp: winding_down_def)
  then have "?slice \<noteq> []" by (cases iovs) (auto simp: IOV_MAX_SLICE_def)
  then have n: "0 < ?n" using k(2) by simp
  have t: "t = s\<lparr>aof_file := aof_file s @ take ?n ?slice,
      aof_pc := (if advance ?n iovs = [] then W_written else W_writing (advance ?n iovs))\<rparr>"
    using assms(1,4) k(1) by (auto simp: winding_down_def writer_writev_def writev_step_def Let_def)
  from payload_cost_advance [OF n ne(1)] show ?thesis
    using assms(1,2) ne(2) by (auto simp: t winding_down_def stop_cost_def advance_nonempty)
qed

lemma collect_turn:
  assumes "winding_down s" and "aof_pc s = W_top" and "0 < max_batch_entries opts" and "0 < max_batch_bytes opts"
  shows "winding_down (writer_collect opts s) \<and> stop_cost (writer_collect opts s) < stop_cost s"
proof -
  obtain b r where br: "take_batch opts 0 0 (aof_queue s) = (b, r)" by fastforce
  have q: "aof_queue s = b @ r" using take_batch_append [of opts 0 0 "aof_queue s"] br by simp
  have "b = [] \<longrightarrow> aof_queue s = []" using take_batch_progress [of opts "aof_queue s" b r] br assms(3,4) by blast
  moreover have "b \<noteq> [] \<longrightarrow> 0 < payload_cost b" using payload_cost_pos by blast
  ultimately show ?thesis
    using assms(1,2) br q by (auto simp: writer_collect_def winding_down_def stop_cost_def Let_def)
qed

lemma turn_decreases:
  assumes "winding_down s" and "writer_turn ev" and "aof_exec opts ev s = Some t"
    and "0 < max_batch_entries opts" and "0 < max_batch_bytes opts"
  shows "winding_down t \<and> stop_cost t < stop_cost s \<and> aof_lost t = aof_lost s"
proof (cases ev)
  case (Writev r)
  with assms obtain iovs where "aof_pc s = W_writing iovs" "writer_writev r s iovs = Some t"
    by (auto split: writer_pc.splits)
  with writev_turn [OF assms(1)] assms(2) Writev show ?thesis by auto
next
  case Collect
  with collect_turn [OF assms(1) _ assms(4,5)] assms(3) show ?thesis by (auto split: if_splits)
qed (use assms in \<open>auto simp: winding_down_def stop_cost_def aof_op_defs split: if_splits\<close>)

lemma meanwhile_keeps:
  assumes "winding_down s" and "meanwhile ev" and "aof_exec opts ev s = Some t"
  shows "winding_down t \<and> stop_cost t = stop_cost s \<and> aof_lost t = aof_lost s"
proof (cases ev)
  case (Writev r)
  with assms show ?thesis
    by (auto simp: winding_down_def stop_cost_def writer_writev_def writev_step_def split: writer_pc.splits if_splits)
next
  case Wake
  with assms show ?thesis
    by (auto simp: winding_down_def stop_cost_def aof_op_defs split: list.splits if_splits)
qed (use assms in \<open>auto simp: winding_down_def stop_cost_def aof_op_defs split: if_splits\<close>)

lemma turn_enabled:
  assumes "winding_down s" and "aof_pc s \<noteq> W_exit"
  shows "\<exists>ev. writer_turn ev \<and> aof_exec opts ev s \<noteq> None"
proof (cases "aof_pc s")
  case W_top
  then show ?thesis by (intro exI [of _ Collect]) simp
next
  case W_empty
  then show ?thesis by (intro exI [of _ "Idle 0"]) simp
next
  case (W_writing iovs)
  with assms(1) show ?thesis
    by (intro exI [of _ "Writev (Wv_bytes 1)"])
      (auto simp: winding_down_def is_bytes_def writer_writev_def writev_step_def Let_def)
next
  case W_written
  then show ?thesis by (intro exI [of _ Store_offset]) simp
next
  case W_stored
  then show ?thesis by (intro exI [of _ "Sync 0"]) simp
next
  case W_final
  then show ?thesis by (intro exI [of _ Finish]) simp
qed (use assms in \<open>auto simp: winding_down_def\<close>)

section \<open>Every run\<close>

lemma winding_run:
  assumes "list_all (\<lambda>ev. writer_turn ev \<or> meanwhile ev) evs" and "aof_run opts evs s = Some t" and "winding_down s"
    and "0 < max_batch_entries opts" and "0 < max_batch_bytes opts"
  shows "winding_down t \<and> stop_cost t + length (filter writer_turn evs) \<le> stop_cost s \<and> aof_lost t = aof_lost s"
  using assms(1-3)
proof (induction evs arbitrary: s)
  case (Cons ev evs)
  then obtain u where u: "aof_exec opts ev s = Some u" "aof_run opts evs u = Some t" by (auto split: option.splits)
  show ?case
  proof (cases "writer_turn ev")
    case True
    with turn_decreases [OF Cons.prems(3) _ u(1) assms(4,5)] Cons.IH [OF _ u(2)] Cons.prems(1) show ?thesis by auto
  next
    case False
    with meanwhile_keeps [OF Cons.prems(3) _ u(1)] Cons.IH [OF _ u(2)] Cons.prems(1) show ?thesis by auto
  qed
qed simp

lemma aof_run_append: "aof_run opts (es @ fs) s = Option.bind (aof_run opts es s) (aof_run opts fs)"
  by (induction es arbitrary: s) (auto split: option.splits)

lemma winding_finishes:
  assumes "winding_down s" and "0 < max_batch_entries opts" and "0 < max_batch_bytes opts"
  shows "\<exists>evs t. list_all writer_turn evs \<and> aof_run opts evs s = Some t \<and> aof_pc t = W_exit"
  using assms(1)
proof (induction "stop_cost s" arbitrary: s rule: less_induct)
  case less
  show ?case
  proof (cases "aof_pc s = W_exit")
    case True
    then show ?thesis by (intro exI [of _ "[]"]) simp
  next
    case False
    from turn_enabled [OF less.prems this, of opts] obtain ev u where
      ev: "writer_turn ev" "aof_exec opts ev s = Some u" by auto
    from turn_decreases [OF less.prems ev assms(2,3)] less.hyps [of u] obtain evs t where
      "list_all writer_turn evs" "aof_run opts evs u = Some t" "aof_pc t = W_exit" by auto
    with ev show ?thesis by (intro exI [of _ "ev # evs"] exI [of _ t]) simp
  qed
qed

lemma stop_request_winding:
  assumes "aof_fd s" and "aof_pc s \<noteq> W_off" and "list_all (\<lambda>p. p \<noteq> []) (aof_queue s @ pending (aof_pc s))"
    and "\<forall>iovs. aof_pc s = W_writing iovs \<longrightarrow> iovs \<noteq> []"
  shows "winding_down (stop_request s)"
  using assms by (auto simp: winding_down_def stop_request_def)

section \<open>Properties\<close>

text \<open>
  C17: \<^verbatim>\<open>stop\<close> does not wait for ever.  Once the flag is up, in every interleaving of the writer with
  producers and further calls of \<^verbatim>\<open>stop\<close>, as long as the calls of \<^verbatim>\<open>writev\<close> that are not interrupted write
  something, the writer takes at most a number of turns that is fixed by what is queued; until it has
  finished it always has a turn to take, and taking turns it finishes.
\<close>

theorem stop_ends_writer:
  assumes "winding_down s" and "0 < max_batch_entries opts" and "0 < max_batch_bytes opts"
    and "list_all (\<lambda>ev. writer_turn ev \<or> meanwhile ev) evs" and "aof_run opts evs s = Some t"
  shows "length (filter writer_turn evs) \<le> stop_cost s
    \<and> (aof_pc t \<noteq> W_exit \<longrightarrow> (\<exists>ev. writer_turn ev \<and> aof_exec opts ev t \<noteq> None))
    \<and> (\<exists>evs' u. list_all writer_turn evs' \<and> aof_run opts (evs @ evs') s = Some u \<and> aof_pc u = W_exit
         \<and> aof_lost u = aof_lost s)"
proof -
  from winding_run [OF assms(4,5,1-3)] have t: "winding_down t" "length (filter writer_turn evs) \<le> stop_cost s"
    "aof_lost t = aof_lost s" by auto
  from winding_finishes [OF t(1) assms(2,3)] obtain evs' u where
    u: "list_all writer_turn evs'" "aof_run opts evs' t = Some u" "aof_pc u = W_exit" by blast
  have "list_all (\<lambda>ev. writer_turn ev \<or> meanwhile ev) evs'" using u(1) by (auto simp: list_all_iff)
  from winding_run [OF this u(2) t(1) assms(2,3)] t u assms(5) turn_enabled [OF t(1), of opts] show ?thesis
    by (auto simp: aof_run_append)
qed

theorem stop_ends_writer_witness:
  "\<exists>s u :: nat aof. aof_run main_options [Append_async ''one'', Stop_request] example_aof = Some s
     \<and> (\<exists>evs. list_all writer_turn evs \<and> aof_run main_options evs s = Some u \<and> aof_pc u = W_exit) \<and> \<not> aof_lost u"
proof -
  obtain s :: "nat aof" where s: "aof_run main_options [Append_async ''one'', Stop_request] example_aof = Some s"
    and w: "winding_down s" "\<not> aof_lost s"
    by (simp add: aof_eval winding_down_def)
  from stop_ends_writer [OF w(1), of main_options "[]" s] s w(2) show ?thesis
    by (auto simp: main_options_def default_options_def)
qed


end
