(* ===== verification/Log_Positions.thy ===== *)
theory Log_Positions
  imports Durability Aof_Shutdown
begin

text \<open>
  Where payloads and published offsets lie in the log: in every reachable state the queue is the end of
  the accepted payloads, whatever a producer holds is one of the payloads that were appended, and, as
  long as no write failed, the published offset is the end of a whole payload.  The readers of the log
  that start at the published offset rest on the last fact.
\<close>

text \<open>\<open>P\<close> is what is known of the payloads that producers append.\<close>

fun appends :: "(string \<Rightarrow> bool) \<Rightarrow> aof_event \<Rightarrow> bool" where
  "appends P (Append_async p) = P p"
| "appends P (Append_blocking p) = P p"
| "appends P _ = True"

definition queue_ends :: "'l aof \<Rightarrow> bool" where
  "queue_ends s \<longleftrightarrow> (\<exists>taken. aof_accepted s = taken @ aof_queue s)"

definition payloads_from :: "(string \<Rightarrow> bool) \<Rightarrow> 'l aof \<Rightarrow> bool" where
  "payloads_from P s \<longleftrightarrow> list_all P (aof_accepted s) \<and> list_all P (aof_waiting s) \<and> list_all P (aof_notified s)"

definition batch_ok :: "'l aof \<Rightarrow> bool" where
  "batch_ok s \<longleftrightarrow> list_all (\<lambda>p. p \<noteq> []) (pending (aof_pc s)) \<and> (\<forall>iovs. aof_pc s = W_writing iovs \<longrightarrow> iovs \<noteq> [])"

definition at_boundary :: "string \<Rightarrow> string list \<Rightarrow> nat \<Rightarrow> bool" where
  "at_boundary base ps n \<longleftrightarrow> (\<exists>k \<le> length ps. n = length base + length (concat (take k ps)))"

definition offset_bounds :: "string \<Rightarrow> 'l aof \<Rightarrow> bool" where
  "offset_bounds base s \<longleftrightarrow> (\<not> aof_lost s \<longrightarrow> at_boundary base (aof_accepted s) (aof_offset s))"

definition positions_ok :: "(string \<Rightarrow> bool) \<Rightarrow> string \<Rightarrow> 'l aof \<Rightarrow> bool" where
  "positions_ok P base s \<longleftrightarrow> queue_ends s \<and> payloads_from P s \<and> batch_ok s \<and> offset_bounds base s"

lemma at_boundary_append: "at_boundary base ps n \<Longrightarrow> at_boundary base (ps @ qs) n"
  unfolding at_boundary_def by (metis length_append take_append append_Nil2 diff_is_0_eq take_0 trans_le_add1)

lemma collect_ends:
  assumes "queue_ends s"
  shows "queue_ends (writer_collect opts s)"
proof -
  from assms obtain taken where "aof_accepted s = taken @ aof_queue s" by (auto simp: queue_ends_def)
  then have "aof_accepted s = (taken @ pending (aof_pc (writer_collect opts s))) @ aof_queue (writer_collect opts s)"
    by (simp add: writer_collect_queue)
  then show ?thesis unfolding queue_ends_def writer_collect_fields by blast
qed

lemma queue_ends_exec:
  assumes "queue_ends s" and "aof_exec opts ev s = Some t"
  shows "queue_ends t"
proof (cases ev)
  case (Writev r)
  with assms show ?thesis by (auto simp: queue_ends_def writer_writev_fields split: writer_pc.splits)
next
  case Collect
  with assms collect_ends show ?thesis by (auto split: if_splits)
next
  case Wake
  with assms show ?thesis by (auto simp: queue_ends_def aof_op_defs split: list.splits if_splits)
qed (use assms in \<open>auto simp: queue_ends_def aof_op_defs split: if_splits\<close>)

lemma payloads_from_exec:
  assumes "payloads_from P s" and "appends P ev" and "aof_exec opts ev s = Some t"
  shows "payloads_from P t"
proof (cases ev)
  case (Writev r)
  with assms obtain iovs where "writer_writev r s iovs = Some t" by (auto split: writer_pc.splits)
  then show ?thesis using assms(1) by (cases rule: writer_writevE) (auto simp: payloads_from_def)
next
  case Collect
  with assms show ?thesis
    by (auto simp: payloads_from_def writer_collect_def Let_def split: if_splits prod.splits)
next
  case Wake
  with assms show ?thesis by (auto simp: payloads_from_def aof_op_defs split: list.splits if_splits)
next
  case (Spurious i)
  with assms show ?thesis
    by (auto simp: payloads_from_def list_all_iff split: if_splits dest!: in_set_takeD in_set_dropD)
qed (use assms in \<open>auto simp: payloads_from_def aof_op_defs split: if_splits\<close>)

lemma batch_ok_exec:
  assumes "batch_ok s" and "queue_ends s" and "payloads_from P s" and "\<And>p. P p \<Longrightarrow> p \<noteq> []"
    and "aof_exec opts ev s = Some t"
  shows "batch_ok t"
proof (cases ev)
  case (Writev r)
  with assms obtain iovs where "aof_pc s = W_writing iovs" "writer_writev r s iovs = Some t"
    by (auto split: writer_pc.splits)
  then show ?thesis
    using assms(1) by (elim writer_writevE) (auto simp: batch_ok_def advance_nonempty)
next
  case Collect
  obtain b r where br: "take_batch opts 0 0 (aof_queue s) = (b, r)" by fastforce
  then have "set b \<subseteq> set (aof_queue s)" using take_batch_append [OF br] by (metis Un_upper1 set_append)
  moreover have "set (aof_queue s) \<subseteq> set (aof_accepted s)" using assms(2) by (auto simp: queue_ends_def)
  ultimately have "list_all (\<lambda>p. p \<noteq> []) b" using assms(3,4) by (auto simp: payloads_from_def list_all_iff)
  with Collect assms(5) br show ?thesis by (auto simp: batch_ok_def writer_collect_def Let_def split: if_splits)
next
  case Wake
  with assms show ?thesis by (auto simp: batch_ok_def aof_op_defs split: list.splits if_splits)
qed (use assms in \<open>auto simp: batch_ok_def aof_op_defs split: if_splits\<close>)

text \<open>When the writer publishes the offset the file is whole payloads.\<close>

lemma file_at_boundary:
  assumes "log_complete base s" and "queue_ends s" and "\<not> aof_lost s" and "pending (aof_pc s) = []"
  shows "at_boundary base (aof_accepted s) (length (aof_file s))"
proof -
  obtain taken where t: "aof_accepted s = taken @ aof_queue s" using assms(2) by (auto simp: queue_ends_def)
  with assms(1,3,4) have "aof_file s = base @ concat taken" by (simp add: log_complete_def)
  with t show ?thesis unfolding at_boundary_def by (intro exI [of _ "length taken"]) simp
qed

lemma offset_bounds_exec:
  assumes "offset_bounds base s" and "log_complete base s" and "queue_ends s" and "aof_exec opts ev s = Some t"
  shows "offset_bounds base t"
proof (cases ev)
  case (Writev r)
  with assms obtain iovs where "writer_writev r s iovs = Some t" by (auto split: writer_pc.splits)
  then show ?thesis using assms(1) by (cases rule: writer_writevE) (auto simp: offset_bounds_def)
next
  case Store_offset
  with assms file_at_boundary [OF assms(2,3)] show ?thesis
    by (auto simp: offset_bounds_def writer_store_offset_def split: if_splits)
next
  case Collect
  with assms show ?thesis by (auto simp: offset_bounds_def split: if_splits)
next
  case Wake
  with assms show ?thesis
    by (auto simp: offset_bounds_def aof_op_defs at_boundary_append split: list.splits if_splits)
qed (use assms in \<open>auto simp: offset_bounds_def aof_op_defs at_boundary_append split: if_splits\<close>)

lemma positions_ok_exec:
  assumes "positions_ok P base s" and "aof_inv opts base s" and "\<And>p. P p \<Longrightarrow> p \<noteq> []" and "appends P ev"
    and "aof_exec opts ev s = Some t"
  shows "positions_ok P base t"
  using assms queue_ends_exec [OF _ assms(5)] payloads_from_exec [OF _ assms(4,5)]
    batch_ok_exec [OF _ _ _ assms(3,5), of P] offset_bounds_exec [OF _ _ _ assms(5), of base]
  unfolding positions_ok_def aof_inv_def by blast

lemma positions_ok_start: "aof_start base s \<Longrightarrow> positions_ok P base s"
  by (auto simp: aof_start_def Aof_construct_def openFile_def startWriter_def positions_ok_def queue_ends_def
      payloads_from_def batch_ok_def offset_bounds_def at_boundary_def)

end
