(* ===== verification/Replicated_Log.thy ===== *)
theory Replicated_Log
  imports Log_Replay Log_Positions
begin

text \<open>
  The log and its replicas as they run together.  Any number of threads append commands; each of them,
  after it has released the lock of the log, copies the list of listeners and calls one after the other:
  it reads the published offset, opens the log there, and after every call of \<^verbatim>\<open>read\<close> sends a message for
  each command that the bytes read so far complete, while the log may grow.  The writer thread, new
  connections and their handlers go on meanwhile.  A step is a critical section, one system call on
  the log, or one call of \<^verbatim>\<open>send_all\<close>, of which a message takes several.  The theory shows that as long as
  the calls for two messages on one connection are kept apart every connection carries messages of
  accepted commands and nothing else, and what happens when they are not, which no lock prevents.
\<close>

section \<open>A listener taken apart\<close>

text \<open>The readers run their callback on the commands that they find; here these are collected.\<close>

definition collect :: "string list \<Rightarrow> string list list \<Rightarrow> string list list" where
  "collect c cs = cs @ [c]"

lemma collect_fold: "fold collect cs cs0 = cs0 @ cs"
  by (induction cs arbitrary: cs0) (simp_all add: collect_def)

lemma drain_collect:
  "drain exec_fn buf parsed good (fold exec_fn cs st) =
     (case drain collect buf parsed good cs of (cs', r) \<Rightarrow> (fold exec_fn cs' st, r))"
proof (induction collect buf parsed good cs rule: drain.induct)
  case (1 buf parsed good cs)
  show ?case
  proof (cases "tryParseRESPArray (drop parsed buf)")
    case (Inl e)
    then show ?thesis by (simp add: drain.simps)
  next
    case (Inr q)
    then obtain ok ps n where q: "tryParseRESPArray (drop parsed buf) = Inr (ok, ps, n)" by (cases q) auto
    show ?thesis
    proof (cases ok)
      case True
      have "exec_fn ps (fold exec_fn cs st) = fold exec_fn (collect ps cs) st" by (simp add: collect_def)
      with 1 q True show ?thesis
        by (subst drain.simps, subst (2) drain.simps) (simp del: fold_append)
    next
      case False
      with q show ?thesis by (simp add: drain.simps)
    qed
  qed
qed

text \<open>
  The inner loop of the readers on the bytes collected so far: the commands that it executes, and what
  is left of the bytes, or \<open>None\<close> when an exception ends the reader.
\<close>

definition read_chunk :: "string \<Rightarrow> string list list \<times> string option" where
  "read_chunk buf =
     (case drain collect buf 0 0 [] of
        (cmds, Inl e) \<Rightarrow> (cmds, None)
      | (cmds, Inr (parsed, good)) \<Rightarrow> (cmds, Some (drop parsed buf)))"

text \<open>
  A step of the machine reads a chunk and takes the commands out of it; with the commands executed this
  is one iteration of the loop of the reader, whatever the callback does with them.
\<close>

lemma drain_good:
  "drain exec_fn buf parsed (good + k) st =
     (case drain exec_fn buf parsed good st of
        (st', Inl e) \<Rightarrow> (st', Inl e) | (st', Inr (p, g)) \<Rightarrow> (st', Inr (p, g + k)))"
proof (induction exec_fn buf parsed good st rule: drain.induct)
  case (1 exec_fn buf parsed good st)
  then show ?case
    by (subst drain.simps, subst (2) drain.simps) (auto simp: add.assoc add.commute [of k] add.left_commute split: sum.splits)
qed

lemma read_loop_chunk:
  assumes "posix_read (rd i) rest = Some chunk" and "chunk \<noteq> []" and "read_chunk (buf @ chunk) = (cmds, bufo)"
  shows "\<exists>e good'. read_loop exec_fn rd i rest buf good st =
    (case bufo of None \<Rightarrow> (fold exec_fn cmds st, Read_raised e)
     | Some buf' \<Rightarrow> read_loop exec_fn rd (Suc i) (drop (length chunk) rest) buf' good' (fold exec_fn cmds st))"
proof -
  obtain cmds' r where d: "drain collect (buf @ chunk) 0 0 [] = (cmds', r)" by fastforce
  with drain_collect [of exec_fn "buf @ chunk" 0 0 "[]" st]
  have "drain exec_fn (buf @ chunk) 0 0 st = (fold exec_fn cmds' st, r)" by simp
  with drain_good [of exec_fn "buf @ chunk" 0 0 good st] assms d show ?thesis
    by (subst read_loop.simps) (auto simp: read_chunk_def split: sum.splits)
qed

section \<open>The machine\<close>

text \<open>
  Where a thread is: outside; about to copy the list of listeners; with the connections whose listeners
  it has still to call; past the read of the offset; about to call \<^verbatim>\<open>read\<close>, with the position in the file
  and the bytes collected; with the commands of a chunk still to forward and what is left of the
  bytes; inside a message, with the calls of \<^verbatim>\<open>send_all\<close> still to make and where it goes on.
\<close>

datatype notify_pc =
    Nt_idle
  | Nt_copy
  | Nt_calls "int list"
  | Nt_opening int nat "int list"
  | Nt_reading int nat nat string "int list"
  | Nt_commands int nat nat "string option" "string list list" "int list"
  | Nt_sending int "u8 list list" notify_pc

record repl =
  rl_aof :: "int aof"
  rl_socks :: socks
  rl_threads :: "nat \<Rightarrow> notify_pc"

datatype repl_event =
    Rl_append nat "string list"
  | Rl_append_blocking nat "string list"
  | Rl_copy nat
  | Rl_offset nat
  | Rl_open nat bool
  | Rl_read nat "nat option"
  | Rl_message nat
  | Rl_piece nat
  | Rl_accept nat int
  | Rl_log aof_event

definition calls_left :: "int list \<Rightarrow> notify_pc" where
  "calls_left fds = (if fds = [] then Nt_idle else Nt_calls fds)"

definition chunk_left ::
  "int \<Rightarrow> nat \<Rightarrow> nat \<Rightarrow> string option \<Rightarrow> string list list \<Rightarrow> int list \<Rightarrow> notify_pc" where
  "chunk_left fd offset pos bufo cmds fds =
     (if cmds \<noteq> [] then Nt_commands fd offset pos bufo cmds fds
      else case bufo of None \<Rightarrow> calls_left fds | Some buf \<Rightarrow> Nt_reading fd offset pos buf fds)"

definition pieces_left :: "int \<Rightarrow> u8 list list \<Rightarrow> notify_pc \<Rightarrow> notify_pc" where
  "pieces_left fd ps after = (if ps = [] then after else Nt_sending fd ps after)"

definition after_append :: "nat \<Rightarrow> int aof \<times> bool \<Rightarrow> repl \<Rightarrow> repl" where
  "after_append i appended s =
     s\<lparr>rl_aof := fst appended, rl_threads := (rl_threads s)(i := (if snd appended then Nt_copy else Nt_idle))\<rparr>"

text \<open>The next command of a chunk: \<open>None\<close> when its entity reads past the end of the command.\<close>

definition next_message :: "endian \<Rightarrow> int \<Rightarrow> nat \<Rightarrow> string list \<Rightarrow> notify_pc \<Rightarrow> notify_pc option" where
  "next_message en fd offset cmd after =
     (case listener_entity (of_nat offset) cmd of
        None \<Rightarrow> None
      | Some None \<Rightarrow> Some after
      | Some (Some e) \<Rightarrow> Some (pieces_left fd (message_pieces en (fromDataEntity en INCR_SYNC e)) after))"

definition set_thread :: "nat \<Rightarrow> notify_pc \<Rightarrow> repl \<Rightarrow> repl" where
  "set_thread i pc s = s\<lparr>rl_threads := (rl_threads s)(i := pc)\<rparr>"

fun repl_exec :: "endian \<Rightarrow> (int \<Rightarrow> net) \<Rightarrow> options \<Rightarrow> repl_event \<Rightarrow> repl \<Rightarrow> repl option" where
  "repl_exec en nets opts (Rl_append i cmd) s =
     (if rl_threads s i = Nt_idle
      then Some (after_append i (appendCommandAsync opts cmd (rl_aof s)) s) else None)"
| "repl_exec en nets opts (Rl_append_blocking i cmd) s =
     (if rl_threads s i = Nt_idle \<and> has_space opts (rl_aof s)
      then Some (after_append i (blocking_resume (serializeToRESP cmd) (rl_aof s)) s) else None)"
| "repl_exec en nets opts (Rl_copy i) s =
     (if rl_threads s i = Nt_copy then Some (set_thread i (calls_left (aof_listeners (rl_aof s))) s) else None)"
| "repl_exec en nets opts (Rl_offset i) s =
     (case rl_threads s i of
        Nt_calls (fd # fds) \<Rightarrow> Some (set_thread i (Nt_opening fd (getCurrentOffset (rl_aof s)) fds) s)
      | _ \<Rightarrow> None)"
| "repl_exec en nets opts (Rl_open i opened) s =
     (case rl_threads s i of
        Nt_opening fd offset fds \<Rightarrow>
          Some (set_thread i (if opened \<and> offset < 2 ^ 63 then Nt_reading fd offset offset [] fds else calls_left fds) s)
      | _ \<Rightarrow> None)"
| "repl_exec en nets opts (Rl_read i choice) s =
     (case rl_threads s i of
        Nt_reading fd offset pos buf fds \<Rightarrow>
          (case posix_read choice (drop pos (aof_file (rl_aof s))) of
             None \<Rightarrow> Some (set_thread i (calls_left fds) s)
           | Some chunk \<Rightarrow>
               if chunk = [] then Some (set_thread i (calls_left fds) s)
               else (case read_chunk (buf @ chunk) of
                  (cmds, bufo) \<Rightarrow> Some (set_thread i (chunk_left fd offset (pos + length chunk) bufo cmds fds) s)))
      | _ \<Rightarrow> None)"
| "repl_exec en nets opts (Rl_message i) s =
     (case rl_threads s i of
        Nt_commands fd offset pos bufo (cmd # cmds) fds \<Rightarrow>
          map_option (\<lambda>pc. set_thread i pc s) (next_message en fd offset cmd (chunk_left fd offset pos bufo cmds fds))
      | _ \<Rightarrow> None)"
| "repl_exec en nets opts (Rl_piece i) s =
     (case rl_threads s i of
        Nt_sending fd (p # ps) after \<Rightarrow>
          (case send_all (nets fd) p (rl_socks s fd) of
             (ok, sock) \<Rightarrow>
               Some (set_thread i (if ok then pieces_left fd ps after else after) (s\<lparr>rl_socks := (rl_socks s)(fd := sock)\<rparr>)))
      | _ \<Rightarrow> None)"
| "repl_exec en nets opts (Rl_accept i fd) s =
     (if rl_threads s i = Nt_idle
      then Some (set_thread i (pieces_left fd (message_pieces en (Message_init\<lparr>msg_type := ACK\<rparr>)) Nt_idle)
             (s\<lparr>rl_aof := registerListener fd (rl_aof s)\<rparr>))
      else None)"
| "repl_exec en nets opts (Rl_log ev) s =
     (if writer_event ev then map_option (\<lambda>a. s\<lparr>rl_aof := a\<rparr>) (aof_exec opts ev (rl_aof s)) else None)"

fun repl_run :: "endian \<Rightarrow> (int \<Rightarrow> net) \<Rightarrow> options \<Rightarrow> repl_event list \<Rightarrow> repl \<Rightarrow> repl option" where
  "repl_run en nets opts [] s = Some s"
| "repl_run en nets opts (e # es) s =
     (case repl_exec en nets opts e s of None \<Rightarrow> None | Some s' \<Rightarrow> repl_run en nets opts es s')"


section \<open>The discipline\<close>

text \<open>A thread is inside a message on a connection.\<close>

fun mid_message :: "int \<Rightarrow> notify_pc \<Rightarrow> bool" where
  "mid_message fd (Nt_sending fd' ps after) \<longleftrightarrow> fd' = fd"
| "mid_message fd _ \<longleftrightarrow> False"

definition free_connection :: "repl \<Rightarrow> int \<Rightarrow> bool" where
  "free_connection s fd \<longleftrightarrow> (\<forall>j. \<not> mid_message fd (rl_threads s j))"

text \<open>
  The commands are those of the engine, of a size that replicas take; a message is begun on a connection
  on which no other message is being sent.
\<close>

fun repl_admits :: "nat \<Rightarrow> repl_event \<Rightarrow> repl \<Rightarrow> bool" where
  "repl_admits max_size (Rl_append i cmd) s \<longleftrightarrow> sendable cmd \<and> fits max_size cmd"
| "repl_admits max_size (Rl_append_blocking i cmd) s \<longleftrightarrow> sendable cmd \<and> fits max_size cmd"
| "repl_admits max_size (Rl_message i) s \<longleftrightarrow>
     (case rl_threads s i of Nt_commands fd offset pos bufo cmds fds \<Rightarrow> free_connection s fd | _ \<Rightarrow> True)"
| "repl_admits max_size (Rl_accept i fd) s \<longleftrightarrow> free_connection s fd"
| "repl_admits max_size _ s \<longleftrightarrow> True"

inductive repl_step ::
  "endian \<Rightarrow> (int \<Rightarrow> net) \<Rightarrow> options \<Rightarrow> nat \<Rightarrow> repl \<Rightarrow> repl \<Rightarrow> bool" for en nets opts max_size where
  repl_step: "repl_admits max_size e s \<Longrightarrow> repl_exec en nets opts e s = Some s' \<Longrightarrow> repl_step en nets opts max_size s s'"

inductive_cases repl_stepE: "repl_step en nets opts max_size s s'"

definition repl_start :: "string \<Rightarrow> repl \<Rightarrow> bool" where
  "repl_start base s \<longleftrightarrow> aof_start base (rl_aof s) \<and> (\<forall>fd. sock_tx (rl_socks s fd) = [])
     \<and> rl_threads s = (\<lambda>i. Nt_idle)"

section \<open>What a connection carries\<close>

text \<open>\<open>good\<close> commands have been accepted by the log and are of a size that replicas take.\<close>

definition good :: "nat \<Rightarrow> string list \<Rightarrow> string list \<Rightarrow> bool" where
  "good max_size accepted cmd \<longleftrightarrow> sendable cmd \<and> fits max_size cmd \<and> serializeToRESP cmd \<in> set accepted"

definition carried_message :: "endian \<Rightarrow> nat \<Rightarrow> string list \<Rightarrow> Message \<Rightarrow> bool" where
  "carried_message en max_size accepted m \<longleftrightarrow> m = Message_init\<lparr>msg_type := ACK\<rparr>
     \<or> (\<exists>offset cmd. m = command_message en offset cmd \<and> good max_size accepted cmd)"

definition payload_ok :: "nat \<Rightarrow> string \<Rightarrow> bool" where
  "payload_ok max_size p \<longleftrightarrow> (\<exists>cmd. p = serializeToRESP cmd \<and> sendable cmd \<and> fits max_size cmd)"

text \<open>
  The bytes that a reader holds are those of the log, present and to come, from the end of a whole payload
  up to its position.
\<close>

definition reading_ok :: "string \<Rightarrow> string list \<Rightarrow> nat \<Rightarrow> string \<Rightarrow> bool" where
  "reading_ok base accepted pos buf \<longleftrightarrow>
     (\<exists>b. at_boundary base accepted b \<and> b \<le> pos \<and> pos \<le> length (base @ concat accepted)
        \<and> buf = drop b (take pos (base @ concat accepted)))"

fun thread_fine :: "string \<Rightarrow> nat \<Rightarrow> string list \<Rightarrow> notify_pc \<Rightarrow> bool" where
  "thread_fine base max_size accepted (Nt_opening fd offset fds) \<longleftrightarrow> at_boundary base accepted offset"
| "thread_fine base max_size accepted (Nt_reading fd offset pos buf fds) \<longleftrightarrow> reading_ok base accepted pos buf"
| "thread_fine base max_size accepted (Nt_commands fd offset pos bufo cmds fds) \<longleftrightarrow>
     list_all (good max_size accepted) cmds \<and> (\<forall>buf. bufo = Some buf \<longrightarrow> reading_ok base accepted pos buf)"
| "thread_fine base max_size accepted (Nt_sending fd ps after) \<longleftrightarrow>
     thread_fine base max_size accepted after \<and> (\<forall>fd'. \<not> mid_message fd' after)"
| "thread_fine base max_size accepted _ \<longleftrightarrow> True"

text \<open>A connection carries whole messages, and the first part of the one that a thread is sending.\<close>

definition stream_ok :: "endian \<Rightarrow> nat \<Rightarrow> string list \<Rightarrow> (nat \<Rightarrow> notify_pc) \<Rightarrow> int \<Rightarrow> u8 list \<Rightarrow> bool" where
  "stream_ok en max_size accepted threads fd tx \<longleftrightarrow>
     (\<exists>ms. list_all (carried_message en max_size accepted) ms
        \<and> ((\<forall>i. \<not> mid_message fd (threads i)) \<and> tx = concat (map wire ms)
         \<or> (\<exists>i ps after m sent. threads i = Nt_sending fd ps after \<and> (\<forall>j. j \<noteq> i \<longrightarrow> \<not> mid_message fd (threads j))
              \<and> carried_message en max_size accepted m \<and> tx = concat (map wire ms) @ sent \<and> sent @ concat ps = wire m)))"

definition repl_inv :: "endian \<Rightarrow> options \<Rightarrow> nat \<Rightarrow> string \<Rightarrow> repl \<Rightarrow> bool" where
  "repl_inv en opts max_size base s \<longleftrightarrow>
     aof_inv opts base (rl_aof s) \<and> positions_ok (payload_ok max_size) base (rl_aof s)
   \<and> (\<not> aof_lost (rl_aof s) \<longrightarrow>
        (\<forall>i. thread_fine base max_size (aof_accepted (rl_aof s)) (rl_threads s i))
      \<and> (\<forall>fd. stream_ok en max_size (aof_accepted (rl_aof s)) (rl_threads s) fd (sock_tx (rl_socks s fd))))"

lemma good_mono: "good max_size ps cmd \<Longrightarrow> good max_size (ps @ qs) cmd"
  by (simp add: good_def)

lemma carried_mono: "carried_message en max_size ps m \<Longrightarrow> carried_message en max_size (ps @ qs) m"
  unfolding carried_message_def using good_mono by blast

lemma reading_ok_mono:
  assumes "reading_ok base ps pos buf"
  shows "reading_ok base (ps @ qs) pos buf"
proof -
  from assms obtain b where "at_boundary base ps b" "b \<le> pos" "pos \<le> length (base @ concat ps)"
    "buf = drop b (take pos (base @ concat ps))" unfolding reading_ok_def by blast
  then show ?thesis unfolding reading_ok_def
    by (intro exI [of _ b]) (simp add: at_boundary_append)
qed

lemma thread_fine_mono: "thread_fine base max_size ps pc \<Longrightarrow> thread_fine base max_size (ps @ qs) pc"
  using good_mono reading_ok_mono by (induction pc) (auto simp: at_boundary_append list_all_iff)

lemma stream_ok_mono: "stream_ok en max_size ps th fd tx \<Longrightarrow> stream_ok en max_size (ps @ qs) th fd tx"
  unfolding stream_ok_def list_all_iff using carried_mono by blast

lemma payload_nonempty: "payload_ok max_size p \<Longrightarrow> p \<noteq> []"
  by (auto simp: payload_ok_def serializeToRESP_def)

lemma calls_left_fine [simp]: "thread_fine base max_size ps (calls_left fds)" "\<not> mid_message fd (calls_left fds)"
  by (simp_all add: calls_left_def)

lemma chunk_left_fine:
  "list_all (good max_size ps) cmds \<Longrightarrow> (\<And>buf. bufo = Some buf \<Longrightarrow> reading_ok base ps pos buf) \<Longrightarrow>
   thread_fine base max_size ps (chunk_left fd offset pos bufo cmds fds)"
  by (simp add: chunk_left_def split: option.split)

lemma chunk_left_mid [simp]: "\<not> mid_message fd' (chunk_left fd offset pos bufo cmds fds)"
  by (simp add: chunk_left_def split: option.split)

lemma payloads_commands:
  "list_all (payload_ok max_size) ps \<Longrightarrow>
   \<exists>cmds. ps = map serializeToRESP cmds \<and> list_all (\<lambda>c. sendable c \<and> fits max_size c) cmds"
proof (induction ps)
  case (Cons p ps)
  then obtain cmd cmds where "p = serializeToRESP cmd" "sendable cmd" "fits max_size cmd"
    "ps = map serializeToRESP cmds" "list_all (\<lambda>c. sendable c \<and> fits max_size c) cmds" by (auto simp: payload_ok_def)
  then show ?case by (intro exI [of _ "cmd # cmds"]) simp
qed simp

lemma drop_take_drop: "b \<le> n \<Longrightarrow> drop b (take n xs) @ drop n xs = drop b xs"
  by (metis append_take_drop_id drop_drop drop_take le_add_diff_inverse2)

lemma drop_take_add: "b \<le> n \<Longrightarrow> n \<le> length xs \<Longrightarrow> drop b (take (n + k) xs) = drop b (take n xs) @ take k (drop n xs)"
  by (simp add: take_add)

text \<open>From the end of a whole payload a reader finds accepted commands only, and stops at such an end again.\<close>

lemma read_chunk_accepted:
  assumes "list_all (payload_ok max_size) accepted" and "reading_ok base accepted pos buf"
    and "read_chunk buf = (cmds, bufo)"
  shows "list_all (good max_size accepted) cmds \<and> (\<forall>buf'. bufo = Some buf' \<longrightarrow> reading_ok base accepted pos buf')"
proof -
  obtain hist where h: "accepted = map serializeToRESP hist" "list_all (\<lambda>c. sendable c \<and> fits max_size c) hist"
    using payloads_commands [OF assms(1)] by blast
  let ?whole = "base @ frames hist"
  have whole: "base @ concat accepted = ?whole" by (simp add: h(1) frames_def)
  from assms(2) obtain k where k: "k \<le> length hist" "length base + length (frames (take k hist)) \<le> pos"
    "pos \<le> length ?whole" "buf = drop (length base + length (frames (take k hist))) (take pos ?whole)"
    unfolding reading_ok_def at_boundary_def whole by (auto simp: h(1) frames_def take_map)
  let ?b = "length base + length (frames (take k hist))"
  have split: "frames hist = frames (take k hist) @ frames (drop k hist)" by (simp flip: frames_simps(3))
  have "drop ?b ?whole = frames (drop k hist)" unfolding split by simp
  with drop_take_drop [OF k(2), of ?whole] k(4)
  have rest: "drop 0 buf @ drop pos ?whole = frames (drop k hist) @ []" by (simp only: drop_0 append_Nil2)
  have ok: "list_all resp_ok (drop k hist)"
    using h(2) sendable_resp_ok by (auto simp: list_all_iff dest: in_set_dropD)
  from drain_stream [OF ok no_frame_Nil rest, of collect 0 "[]"] obtain "done" todo where
    d: "drop k hist = done @ todo" "drain collect buf 0 0 [] = (fold collect done [], Inr (length (frames done), length (frames done)))"
    "drop (length (frames done)) buf @ drop pos ?whole = frames todo" by auto
  from d(1) rest have "length (frames done) + length (frames todo) = length buf + length (drop pos ?whole)"
    by (metis append_Nil2 drop_0 frames_simps(3) length_append)
  moreover from d(3) have "length (drop (length (frames done)) buf) + length (drop pos ?whole) = length (frames todo)"
    by (metis length_append)
  ultimately have le: "length (frames done) \<le> length buf" by simp
  have cmds: "cmds = done" "bufo = Some (drop (length (frames done)) buf)"
    using assms(3) unfolding read_chunk_def d(2) collect_fold by auto
  have "take (k + length done) hist = take k hist @ done"
    using d(1) by (simp add: take_add)
  then have "?b + length (frames done) = length base + length (frames (take (k + length done) hist))" by simp
  moreover have "k + length done \<le> length hist"
    using k(1) arg_cong [OF d(1), of length] by simp
  ultimately have "at_boundary base accepted (?b + length (frames done))"
    unfolding at_boundary_def using h(1) by (intro exI [of _ "k + length done"]) (simp add: frames_def take_map)
  moreover have "drop (length (frames done)) buf = drop (?b + length (frames done)) (take pos ?whole)"
    by (simp add: k(4) add.commute)
  moreover have "?b + length (frames done) \<le> pos" using le k(2-4) by simp
  ultimately have "reading_ok base accepted pos (drop (length (frames done)) buf)"
    unfolding reading_ok_def whole using k(3) by blast
  moreover have "set done \<subseteq> set hist" using d(1) by (metis Un_upper1 order.trans set_append set_drop_subset)
  ultimately show ?thesis using cmds h by (auto simp: list_all_iff good_def)
qed


section \<open>The invariant\<close>

lemma lost_stays: "aof_exec opts ev a = Some a' \<Longrightarrow> aof_lost a \<Longrightarrow> aof_lost a'"
proof (cases ev)
  case (Writev r)
  moreover assume "aof_exec opts ev a = Some a'" "aof_lost a"
  ultimately show ?thesis by (auto simp: writer_writev_def split: writer_pc.splits option.splits prod.splits if_splits)
qed (auto simp: aof_op_defs split: list.splits if_splits)

text \<open>A step of a thread that begins or ends no message.\<close>

lemma stream_ok_quiet:
  assumes "stream_ok en max_size ps th fd tx" and "\<And>fd'. \<not> mid_message fd' (th i)" and "\<And>fd'. \<not> mid_message fd' pc"
  shows "stream_ok en max_size ps (th(i := pc)) fd tx"
proof -
  have "mid_message fd' ((th(i := pc)) j) = mid_message fd' (th j)" for fd' j using assms(2,3) by simp
  moreover have "(th(i := pc)) j = Nt_sending fd qs after \<longleftrightarrow> th j = Nt_sending fd qs after" for j qs after
    using assms(2,3) by (metis fun_upd_apply mid_message.simps(1))
  ultimately show ?thesis using assms(1) unfolding stream_ok_def by simp
qed

lemma repl_inv_thread:
  assumes "repl_inv en opts max_size base s" and "\<And>fd. \<not> mid_message fd (rl_threads s i)" and "\<And>fd. \<not> mid_message fd pc"
    and "\<not> aof_lost (rl_aof s) \<Longrightarrow> thread_fine base max_size (aof_accepted (rl_aof s)) pc"
  shows "repl_inv en opts max_size base (set_thread i pc s)"
  using assms stream_ok_quiet [of _ _ _ "rl_threads s" _ _ i pc] by (simp add: repl_inv_def set_thread_def)

text \<open>A step of the log that accepts further payloads \<open>ps\<close>.\<close>

lemma repl_inv_log:
  assumes "repl_inv en opts max_size base s" and "aof_exec opts ev (rl_aof s) = Some a"
    and "appends (payload_ok max_size) ev" and "aof_accepted a = aof_accepted (rl_aof s) @ ps"
  shows "repl_inv en opts max_size base (s\<lparr>rl_aof := a\<rparr>)"
proof -
  from assms(1) have i: "aof_inv opts base (rl_aof s)" "positions_ok (payload_ok max_size) base (rl_aof s)"
    by (simp_all add: repl_inv_def)
  have "positions_ok (payload_ok max_size) base a"
    by (rule positions_ok_exec [OF i(2,1) payload_nonempty assms(3,2)])
  with assms(1) lost_stays [OF assms(2)] thread_fine_mono stream_ok_mono aof_exec_inv [OF i(1) assms(2)] show ?thesis
    by (auto simp: repl_inv_def assms(4))
qed

lemma repl_inv_append:
  assumes "repl_inv en opts max_size base s" and "aof_exec opts ev (rl_aof s) = Some (fst appended)"
    and "appends (payload_ok max_size) ev" and "aof_accepted (fst appended) = aof_accepted (rl_aof s) @ ps"
    and "rl_threads s i = Nt_idle"
  shows "repl_inv en opts max_size base (after_append i appended s)"
  using repl_inv_thread [OF repl_inv_log [OF assms(1-4)], of i "if snd appended then Nt_copy else Nt_idle"] assms(5)
  by (simp add: after_append_def set_thread_def)

text \<open>A message begins, and goes on.\<close>

lemma message_pieces_nonempty: "message_pieces en m \<noteq> []"
  by (simp add: message_pieces_def)

lemma repl_inv_begin:
  assumes "repl_inv en opts max_size base s" and "free_connection s fd" and "\<And>fd'. \<not> mid_message fd' (rl_threads s i)"
    and "\<not> aof_lost (rl_aof s) \<Longrightarrow> carried_message en max_size (aof_accepted (rl_aof s)) m
      \<and> thread_fine base max_size (aof_accepted (rl_aof s)) after"
    and "\<And>fd'. \<not> mid_message fd' after"
  shows "repl_inv en opts max_size base (set_thread i (Nt_sending fd (message_pieces en m) after) s)"
proof -
  let ?th = "(rl_threads s)(i := Nt_sending fd (message_pieces en m) after)" and ?ps = "aof_accepted (rl_aof s)"
  have "stream_ok en max_size ?ps ?th fd' (sock_tx (rl_socks s fd'))" if l: "\<not> aof_lost (rl_aof s)" for fd'
  proof (cases "fd' = fd")
    case True
    from assms(1) l assms(2) obtain ms where ms: "list_all (carried_message en max_size ?ps) ms"
      "sock_tx (rl_socks s fd) = concat (map wire ms)"
      unfolding repl_inv_def stream_ok_def free_connection_def by (metis mid_message.simps(1))
    have "\<forall>j. j \<noteq> i \<longrightarrow> \<not> mid_message fd (?th j)" using assms(2) by (simp add: free_connection_def)
    with ms assms(4) [OF l] message_fields [of en m] True show ?thesis
      unfolding stream_ok_def by (intro exI [of _ ms] conjI disjI2 exI [of _ i] exI [of _ "message_pieces en m"]
          exI [of _ after] exI [of _ m] exI [of _ "[]"]) simp_all
  next
    case False
    have "mid_message fd' (?th j) = mid_message fd' (rl_threads s j)" for j using assms(3) False by simp
    moreover have "?th j = Nt_sending fd' qs a \<longleftrightarrow> rl_threads s j = Nt_sending fd' qs a" for j qs a
      using assms(3) False by (metis fun_upd_apply mid_message.simps(1))
    moreover have "stream_ok en max_size ?ps (rl_threads s) fd' (sock_tx (rl_socks s fd'))"
      using assms(1) l by (simp add: repl_inv_def)
    ultimately show ?thesis unfolding stream_ok_def by simp
  qed
  with assms(1,4,5) show ?thesis by (simp add: repl_inv_def set_thread_def)
qed

lemma send_all_good:
  assumes "\<forall>i. net_send net i \<noteq> None"
  shows "\<exists>c'. send_all net p c = (True, c') \<and> sock_tx c' = sock_tx c @ p"
  using tcp.send_seq_good [OF assms, of "[p]" c] by (auto split: prod.splits bool.splits)

lemma repl_inv_piece:
  assumes "repl_inv en opts max_size base s" and "rl_threads s i = Nt_sending fd (p # ps) after"
    and "sock_tx c = sock_tx (rl_socks s fd) @ p"
  shows "repl_inv en opts max_size base (set_thread i (pieces_left fd ps after) (s\<lparr>rl_socks := (rl_socks s)(fd := c)\<rparr>))"
proof -
  let ?th = "(rl_threads s)(i := pieces_left fd ps after)" and ?acc = "aof_accepted (rl_aof s)"
  have "stream_ok en max_size ?acc ?th fd' (sock_tx (((rl_socks s)(fd := c)) fd'))
      \<and> thread_fine base max_size ?acc (pieces_left fd ps after)" if l: "\<not> aof_lost (rl_aof s)" for fd'
  proof -
    from assms(1) l have inv: "stream_ok en max_size ?acc (rl_threads s) fd'' (sock_tx (rl_socks s fd''))"
      "thread_fine base max_size ?acc (rl_threads s i)" for fd'' by (simp_all add: repl_inv_def)
    from inv(2) assms(2) have after: "thread_fine base max_size ?acc after" "\<And>fd''. \<not> mid_message fd'' after" by simp_all
    have "stream_ok en max_size ?acc ?th fd' (sock_tx (((rl_socks s)(fd := c)) fd'))"
    proof (cases "fd' = fd")
      case True
      from inv(1) [of fd] assms(2) obtain ms m sent where ms: "list_all (carried_message en max_size ?acc) ms"
        "carried_message en max_size ?acc m" "\<forall>j. j \<noteq> i \<longrightarrow> \<not> mid_message fd (rl_threads s j)"
        "sock_tx (rl_socks s fd) = concat (map wire ms) @ sent" "sent @ concat (p # ps) = wire m"
        unfolding stream_ok_def by (metis mid_message.simps(1) notify_pc.inject(5))
      show ?thesis
      proof (cases "ps = []")
        case last: True
        have "\<forall>j. \<not> mid_message fd (?th j)" using ms(3) after(2) last by (simp add: pieces_left_def)
        with ms True last assms(3) show ?thesis
          unfolding stream_ok_def by (intro exI [of _ "ms @ [m]"] conjI disjI1) simp_all
      next
        case False
        then have "?th i = Nt_sending fd ps after" "\<forall>j. j \<noteq> i \<longrightarrow> \<not> mid_message fd (?th j)"
          using ms(3) by (simp_all add: pieces_left_def)
        with ms True assms(3) show ?thesis
          unfolding stream_ok_def by (intro exI [of _ ms] conjI disjI2 exI [of _ i] exI [of _ ps]
              exI [of _ after] exI [of _ m] exI [of _ "sent @ p"]) simp_all
      qed
    next
      case False
      have "mid_message fd' (?th j) = mid_message fd' (rl_threads s j)" for j
        using assms(2) False after(2) by (simp add: pieces_left_def)
      moreover have "?th j = Nt_sending fd' qs a \<longleftrightarrow> rl_threads s j = Nt_sending fd' qs a" for j qs a
        using calculation [of j] assms(2) False by (auto simp: pieces_left_def split: if_splits)
      ultimately show ?thesis using inv(1) [of fd'] False unfolding stream_ok_def by simp
    qed
    with after show ?thesis by (simp add: pieces_left_def)
  qed
  with assms(1) show ?thesis by (simp add: repl_inv_def set_thread_def)
qed


lemma pieces_left_message: "pieces_left fd (message_pieces en m) after = Nt_sending fd (message_pieces en m) after"
  by (simp add: pieces_left_def message_pieces_nonempty)

lemma next_message_good:
  assumes "sendable cmd"
  shows "next_message en fd offset cmd after
    = Some (Nt_sending fd (message_pieces en (command_message en (of_nat offset) cmd)) after)"
  using sendable_entity [OF assms, of "of_nat offset" en] by (auto simp: next_message_def pieces_left_message)

lemma repl_inv_listeners:
  "repl_inv en opts max_size base (s\<lparr>rl_aof := registerListener fd (rl_aof s)\<rparr>) = repl_inv en opts max_size base s"
  by (simp add: registerListener_def positions_ok_def queue_ends_def payloads_from_def batch_ok_def offset_bounds_def
      aof_inv_def queue_bounded_def log_complete_def offset_exact_def synced_ok_def thread_ok_def repl_inv_def)

lemma inv_fine:
  assumes "repl_inv en opts max_size base s" and "rl_threads s i = pc" and "\<not> aof_lost (rl_aof s)"
  shows "thread_fine base max_size (aof_accepted (rl_aof s)) pc"
  using assms by (auto simp: repl_inv_def)

lemma repl_inv_read:
  assumes "repl_inv en opts max_size base s" and "rl_threads s i = Nt_reading fd offset pos buf fds"
    and "posix_read choice (drop pos (aof_file (rl_aof s))) = Some chunk" and "read_chunk (buf @ chunk) = (cmds, bufo)"
  shows "repl_inv en opts max_size base (set_thread i (chunk_left fd offset (pos + length chunk) bufo cmds fds) s)"
proof (rule repl_inv_thread [OF assms(1)])
  let ?acc = "aof_accepted (rl_aof s)" and ?whole = "base @ concat (aof_accepted (rl_aof s))"
  assume l: "\<not> aof_lost (rl_aof s)"
  from assms(1) l obtain rest where w: "?whole = aof_file (rl_aof s) @ rest" and p: "list_all (payload_ok max_size) ?acc"
    by (auto simp: repl_inv_def aof_inv_def log_complete_def positions_ok_def payloads_from_def)
  from assms(3) obtain n where n: "chunk = take n (drop pos (aof_file (rl_aof s)))"
    by (auto simp: posix_read_def)
  from inv_fine [OF assms(1,2) l] obtain b where b: "at_boundary base ?acc b" "b \<le> pos" "pos \<le> length ?whole"
    "buf = drop b (take pos ?whole)" by (auto simp: reading_ok_def)
  have c: "chunk = take (length chunk) (drop pos ?whole)" "pos + length chunk \<le> length ?whole"
    using b(3) unfolding w n by (auto simp: min_def)
  have "buf @ chunk = drop b (take (pos + length chunk) ?whole)"
    unfolding drop_take_add [OF b(2,3)] b(4) [symmetric] c(1) [symmetric] ..
  then have "reading_ok base ?acc (pos + length chunk) (buf @ chunk)"
    unfolding reading_ok_def using b(1,2) c(2) by (intro exI [of _ b]) simp
  from read_chunk_accepted [OF p this assms(4)]
  show "thread_fine base max_size ?acc (chunk_left fd offset (pos + length chunk) bufo cmds fds)"
    by (intro chunk_left_fine) auto
qed (simp_all add: assms(2))

lemma at_boundary_reading:
  assumes "at_boundary base ps n"
  shows "reading_ok base ps n []"
proof -
  from assms obtain k where k: "n = length base + length (concat (take k ps))" by (auto simp: at_boundary_def)
  have "concat ps = concat (take k ps) @ concat (drop k ps)" by (metis append_take_drop_id concat_append)
  with k have "n \<le> length (base @ concat ps)" by (metis add_left_mono le_add1 length_append)
  with assms show ?thesis unfolding reading_ok_def by (intro exI [of _ n]) simp
qed

lemma repl_inv_open:
  assumes "repl_inv en opts max_size base s" and "rl_threads s i = Nt_opening fd offset fds"
  shows "repl_inv en opts max_size base
    (set_thread i (if opened \<and> offset < 2 ^ 63 then Nt_reading fd offset offset [] fds else calls_left fds) s)"
  using repl_inv_thread [OF assms(1), of i] assms(2) inv_fine [OF assms] at_boundary_reading by simp

lemma repl_inv_message:
  assumes "repl_inv en opts max_size base s" and "rl_threads s i = Nt_commands fd offset pos bufo (cmd # cmds) fds"
    and "next_message en fd offset cmd (chunk_left fd offset pos bufo cmds fds) = Some pc" and "free_connection s fd"
  shows "repl_inv en opts max_size base (set_thread i pc s)"
proof (cases "aof_lost (rl_aof s)")
  case True
  with assms(1) show ?thesis by (simp add: repl_inv_def set_thread_def)
next
  case False
  from inv_fine [OF assms(1,2) False] have g: "good max_size (aof_accepted (rl_aof s)) cmd"
    "thread_fine base max_size (aof_accepted (rl_aof s)) (chunk_left fd offset pos bufo cmds fds)"
    by (auto intro: chunk_left_fine)
  then have "carried_message en max_size (aof_accepted (rl_aof s)) (command_message en (of_nat offset) cmd)"
    by (auto simp: carried_message_def)
  moreover have "sendable cmd" using g(1) by (simp add: good_def)
  ultimately show ?thesis
    using repl_inv_begin [OF assms(1,4), of i] assms(2,3) g(2) next_message_good by auto
qed

lemma repl_exec_inv:
  assumes "repl_inv en opts max_size base s" and "repl_admits max_size e s" and "repl_exec en nets opts e s = Some s'"
    and "\<forall>fd i. net_send (nets fd) i \<noteq> None"
  shows "repl_inv en opts max_size base s'"
proof (cases e)
  case (Rl_append i cmd)
  have "\<exists>ps. aof_accepted (fst (appendCommandAsync opts cmd (rl_aof s))) = aof_accepted (rl_aof s) @ ps"
    by (simp add: appendCommandAsync_def appendRawAsync_def push_payload_def)
  with repl_inv_append [OF assms(1), of "Append_async (serializeToRESP cmd)" "appendCommandAsync opts cmd (rl_aof s)"]
    assms(2,3) Rl_append show ?thesis by (auto simp: payload_ok_def appendCommandAsync_def split: if_splits)
next
  case (Rl_append_blocking i cmd)
  have "\<exists>ps. aof_accepted (fst (blocking_resume (serializeToRESP cmd) (rl_aof s))) = aof_accepted (rl_aof s) @ ps"
    by (simp add: blocking_resume_def push_payload_def)
  with repl_inv_append [OF assms(1), of "Append_blocking (serializeToRESP cmd)" "blocking_resume (serializeToRESP cmd) (rl_aof s)"]
    assms(2,3) Rl_append_blocking show ?thesis by (auto simp: payload_ok_def split: if_splits)
next
  case (Rl_copy i)
  with repl_inv_thread [OF assms(1), of i] assms(3) show ?thesis by (auto split: if_splits)
next
  case (Rl_offset i)
  have "thread_fine base max_size (aof_accepted (rl_aof s)) (Nt_opening fd (getCurrentOffset (rl_aof s)) fds)"
    if "\<not> aof_lost (rl_aof s)" for fd fds
    using that assms(1) by (simp add: repl_inv_def positions_ok_def offset_bounds_def getCurrentOffset_def)
  with repl_inv_thread [OF assms(1), of i] assms(3) Rl_offset show ?thesis by (auto split: notify_pc.splits list.splits)
next
  case (Rl_open i opened)
  with assms(3) obtain fd offset fds where "rl_threads s i = Nt_opening fd offset fds"
    "s' = set_thread i (if opened \<and> offset < 2 ^ 63 then Nt_reading fd offset offset [] fds else calls_left fds) s"
    by (auto split: notify_pc.splits)
  then show ?thesis using repl_inv_open [OF assms(1)] by simp
next
  case (Rl_read i choice)
  with assms(3) obtain fd offset pos buf fds where r: "rl_threads s i = Nt_reading fd offset pos buf fds"
    by (auto split: notify_pc.splits)
  with assms(3) Rl_read consider "s' = set_thread i (calls_left fds) s"
    | chunk cmds bufo where "posix_read choice (drop pos (aof_file (rl_aof s))) = Some chunk"
      "read_chunk (buf @ chunk) = (cmds, bufo)" "s' = set_thread i (chunk_left fd offset (pos + length chunk) bufo cmds fds) s"
    by (auto split: option.splits if_splits prod.splits)
  then show ?thesis
    using repl_inv_thread [OF assms(1), of i "calls_left fds"] repl_inv_read [OF assms(1) r] r by cases auto
next
  case (Rl_message i)
  with assms(3) obtain fd offset pos bufo cmd cmds fds pc where r: "rl_threads s i = Nt_commands fd offset pos bufo (cmd # cmds) fds"
    "next_message en fd offset cmd (chunk_left fd offset pos bufo cmds fds) = Some pc" "s' = set_thread i pc s"
    by (auto split: notify_pc.splits list.splits)
  with repl_inv_message [OF assms(1) r(1,2)] assms(2) Rl_message show ?thesis by simp
next
  case (Rl_piece i)
  with assms(3) obtain fd p ps after where r: "rl_threads s i = Nt_sending fd (p # ps) after"
    by (auto split: notify_pc.splits list.splits)
  from send_all_good [of "nets fd" p "rl_socks s fd"] assms(4) obtain c where
    "send_all (nets fd) p (rl_socks s fd) = (True, c)" "sock_tx c = sock_tx (rl_socks s fd) @ p" by blast
  with repl_inv_piece [OF assms(1) r] assms(3) Rl_piece r show ?thesis by auto
next
  case (Rl_accept i fd)
  let ?s = "s\<lparr>rl_aof := registerListener fd (rl_aof s)\<rparr>"
  have "repl_inv en opts max_size base ?s" using assms(1) by (simp add: repl_inv_listeners)
  from repl_inv_begin [OF this, of fd i "Message_init\<lparr>msg_type := ACK\<rparr>" Nt_idle] assms(2,3) Rl_accept show ?thesis
    by (auto simp: free_connection_def carried_message_def pieces_left_message split: if_splits)
next
  case (Rl_log ev)
  with assms(3) obtain a where a: "writer_event ev" "aof_exec opts ev (rl_aof s) = Some a" "s' = s\<lparr>rl_aof := a\<rparr>"
    by (auto split: if_splits)
  have "appends (payload_ok max_size) ev" using a(1) by (cases ev) auto
  from repl_inv_log [OF assms(1) a(2) this, of "[]"] writer_event_accepted [OF a(1,2)] show ?thesis by (simp add: a(3))
qed

interpretation replicated: transition_invariant "repl_start base" "repl_step en nets opts max_size"
    "\<lambda>s. (\<forall>fd i. net_send (nets fd) i \<noteq> None) \<longrightarrow> repl_inv en opts max_size base s"
  for base :: string and en :: endian and nets :: "int \<Rightarrow> net" and opts :: options and max_size :: nat
proof unfold_locales
  fix s :: repl
  assume "repl_start base s"
  then show "(\<forall>fd i. net_send (nets fd) i \<noteq> None) \<longrightarrow> repl_inv en opts max_size base s"
    using aof_start_inv positions_ok_start
    by (auto simp: repl_start_def repl_inv_def stream_ok_def intro!: exI [of _ "[]"])
next
  fix s s' :: repl
  assume "(\<forall>fd i. net_send (nets fd) i \<noteq> None) \<longrightarrow> repl_inv en opts max_size base s"
    and "repl_step en nets opts max_size s s'"
  then show "(\<forall>fd i. net_send (nets fd) i \<noteq> None) \<longrightarrow> repl_inv en opts max_size base s'"
    by (auto elim!: repl_stepE intro: repl_exec_inv)
qed

section \<open>What a replica makes of it\<close>

lemma replica_round_ack:
  assumes "\<forall>i. net_recv net i \<noteq> None" and "sock_rx c = wire (Message_init\<lparr>msg_type := ACK\<rparr>) @ rest"
  shows "\<exists>c'. replica_round en max_size net L opts sleep (w, c) = ((w, c'), None) \<and> sock_rx c' = rest"
proof -
  have "message_ok max_size (Message_init\<lparr>msg_type := ACK\<rparr>)" by (simp add: message_ok_def Message_init_def)
  from recv_message [OF assms(1) this assms(2), of en Message_init] show ?thesis
    by (auto simp: replica_round_def replica_apply_def received_def Message_init_def message_types)
qed

lemma replica_applies_carried:
  assumes "list_all (carried_message en max_size accepted) ms" and "\<forall>i. net_recv net i \<noteq> None"
  shows "\<exists>cmds. list_all (good max_size accepted) cmds
    \<and> (\<forall>w c. sock_rx c = concat (map wire ms) @ rest \<longrightarrow>
         (\<exists>c'. replica_rounds (length ms) en' max_size net L opts sleep (w, c)
             = ((fold (apply_command L opts sleep) cmds w, c'), None) \<and> sock_rx c' = rest))"
  using assms(1)
proof (induction ms)
  case Nil
  show ?case by (intro exI [of _ "[]"]) simp
next
  case (Cons m ms)
  then obtain cmds where c: "list_all (good max_size accepted) cmds"
    "\<And>w c. sock_rx c = concat (map wire ms) @ rest \<Longrightarrow> \<exists>c'. replica_rounds (length ms) en' max_size net L opts sleep (w, c)
        = ((fold (apply_command L opts sleep) cmds w, c'), None) \<and> sock_rx c' = rest" by auto
  from Cons.prems consider "m = Message_init\<lparr>msg_type := ACK\<rparr>"
    | offset cmd where "m = command_message en offset cmd" "good max_size accepted cmd" by (auto simp: carried_message_def)
  then show ?case
  proof cases
    case 1
    have "\<exists>c'. replica_rounds (length (m # ms)) en' max_size net L opts sleep (w, c)
        = ((fold (apply_command L opts sleep) cmds w, c'), None) \<and> sock_rx c' = rest"
      if "sock_rx c = concat (map wire (m # ms)) @ rest" for w c
      using replica_round_ack [OF assms(2), of c "concat (map wire ms) @ rest" en' max_size L opts sleep w] that 1 c(2) by auto
    with c(1) show ?thesis by blast
  next
    case 2
    have "\<exists>c'. replica_rounds (length (m # ms)) en' max_size net L opts sleep (w, c)
        = ((fold (apply_command L opts sleep) (cmd # cmds) w, c'), None) \<and> sock_rx c' = rest"
      if "sock_rx c = concat (map wire (m # ms)) @ rest" for w c
      using replica_round_applies [OF assms(2), of cmd max_size c en offset "concat (map wire ms) @ rest" en' L opts sleep w]
        that 2 c(2) by (auto simp: good_def)
    with c(1) 2(2) show ?thesis by (intro exI [of _ "cmd # cmds"]) auto
  qed
qed


lemma repl_run_append: "repl_run en nets opts (es @ fs) s = Option.bind (repl_run en nets opts es s) (repl_run en nets opts fs)"
  by (induction es arbitrary: s) (auto split: option.splits)

text \<open>The calls of one thread for the rest of a message, one after the other.\<close>

lemma piece_run:
  assumes "\<forall>fd i. net_send (nets fd) i \<noteq> None"
  shows "ps \<noteq> [] \<Longrightarrow> rl_threads s i = Nt_sending fd ps after \<Longrightarrow>
    \<exists>c. repl_run en nets opts (replicate (length ps) (Rl_piece i)) s
        = Some (set_thread i after (s\<lparr>rl_socks := (rl_socks s)(fd := c)\<rparr>))
      \<and> sock_tx c = sock_tx (rl_socks s fd) @ concat ps"
proof (induction ps arbitrary: s)
  case (Cons p ps)
  from send_all_good [of "nets fd" p "rl_socks s fd"] assms obtain c1 where
    c1: "send_all (nets fd) p (rl_socks s fd) = (True, c1)" "sock_tx c1 = sock_tx (rl_socks s fd) @ p" by blast
  let ?s1 = "set_thread i (pieces_left fd ps after) (s\<lparr>rl_socks := (rl_socks s)(fd := c1)\<rparr>)"
  have s1: "repl_exec en nets opts (Rl_piece i) s = Some ?s1" using c1(1) Cons.prems(2) by simp
  show ?case
  proof (cases "ps = []")
    case True
    have "repl_run en nets opts [Rl_piece i] s = Some ?s1" by (simp only: repl_run.simps s1 option.case)
    with True c1(2) show ?thesis by (intro exI [of _ c1]) (simp only: pieces_left_def, simp add: fun_upd_def)
  next
    case False
    then have "rl_threads ?s1 i = Nt_sending fd ps after" by (simp add: set_thread_def pieces_left_def)
    from Cons.IH [OF False this] obtain c where
      c: "repl_run en nets opts (replicate (length ps) (Rl_piece i)) ?s1
          = Some (set_thread i after (?s1\<lparr>rl_socks := (rl_socks ?s1)(fd := c)\<rparr>))"
        "sock_tx c = sock_tx (rl_socks ?s1 fd) @ concat ps" by blast
    have run: "repl_run en nets opts (replicate (length (p # ps)) (Rl_piece i)) s
        = repl_run en nets opts (replicate (length ps) (Rl_piece i)) ?s1"
      by (simp only: length_Cons replicate_Suc repl_run.simps s1 option.case)
    have "set_thread i after (?s1\<lparr>rl_socks := (rl_socks ?s1)(fd := c)\<rparr>)
        = set_thread i after (s\<lparr>rl_socks := (rl_socks s)(fd := c)\<rparr>)"
      by (simp add: set_thread_def)
    then have "repl_run en nets opts (replicate (length (p # ps)) (Rl_piece i)) s
        = Some (set_thread i after (s\<lparr>rl_socks := (rl_socks s)(fd := c)\<rparr>))"
      unfolding run c(1) by (rule arg_cong)
    moreover have "sock_tx c = sock_tx (rl_socks s fd) @ concat (p # ps)" using c(2) c1(2) by (simp add: set_thread_def)
    ultimately show ?thesis by blast
  qed
qed simp

lemma repl_run_steps:
  assumes "repl_run en nets opts es s = Some s'"
    and "\<And>n u. n < length es \<Longrightarrow> repl_run en nets opts (take n es) s = Some u \<Longrightarrow> repl_admits max_size (es ! n) u"
  shows "(repl_step en nets opts max_size)\<^sup>*\<^sup>* s s'"
  using assms
proof (induction es arbitrary: s)
  case (Cons e es)
  then obtain u where u: "repl_exec en nets opts e s = Some u" "repl_run en nets opts es u = Some s'"
    by (auto split: option.splits)
  have "repl_admits max_size e s" using Cons.prems(2) [of 0 s] by simp
  moreover have "repl_admits max_size (es ! n) u'" if "n < length es" "repl_run en nets opts (take n es) u = Some u'" for n u'
    using Cons.prems(2) [of "Suc n" u'] that u(1) by simp
  ultimately show ?case using Cons.IH [OF u(2)] u(1) by (blast intro: converse_rtranclp_into_rtranclp repl_step)
qed simp

lemma repl_run_always:
  assumes "repl_run en nets opts es s = Some s'" and "list_all (\<lambda>e. \<forall>u. repl_admits max_size e u) es"
  shows "(repl_step en nets opts max_size)\<^sup>*\<^sup>* s s'"
  using assms by (auto intro!: repl_run_steps simp: list_all_length)

lemma piece_steps:
  assumes "\<forall>fd i. net_send (nets fd) i \<noteq> None" and "rl_threads s i = Nt_sending fd (message_pieces en m) after"
  shows "\<exists>c. (repl_step en nets opts max_size)\<^sup>*\<^sup>* s (set_thread i after (s\<lparr>rl_socks := (rl_socks s)(fd := c)\<rparr>))
    \<and> sock_tx c = sock_tx (rl_socks s fd) @ wire m"
proof -
  have "\<forall>u. repl_admits max_size (Rl_piece i) u" by simp
  then have "list_all (\<lambda>e. \<forall>u. repl_admits max_size e u) (replicate (length (message_pieces en m)) (Rl_piece i))"
    by (auto simp: list_all_iff)
  with piece_run [OF assms(1) message_pieces_nonempty assms(2), of en opts] repl_run_always show ?thesis
    by (metis message_fields)
qed

text \<open>A whole message, sent while nothing else is being sent on the connection.\<close>

lemma whole_message_run:
  assumes "\<forall>fd i. net_send (nets fd) i \<noteq> None" and "rl_threads s i = Nt_commands fd offset pos bufo (cmd # cmds) fds"
    and "sendable cmd" and "free_connection s fd"
  shows "\<exists>c. (repl_step en nets opts max_size)\<^sup>*\<^sup>* s
        (set_thread i (chunk_left fd offset pos bufo cmds fds) (s\<lparr>rl_socks := (rl_socks s)(fd := c)\<rparr>))
      \<and> sock_tx c = sock_tx (rl_socks s fd) @ wire (command_message en (of_nat offset) cmd)"
proof -
  let ?m = "command_message en (of_nat offset) cmd" and ?after = "chunk_left fd offset pos bufo cmds fds"
  let ?s1 = "set_thread i (Nt_sending fd (message_pieces en ?m) ?after) s"
  have "repl_exec en nets opts (Rl_message i) s = Some ?s1" using assms(2,3) by (simp add: next_message_good)
  moreover have "repl_admits max_size (Rl_message i) s" using assms(2,4) by simp
  ultimately have first: "repl_step en nets opts max_size s ?s1" by (blast intro: repl_step)
  have "rl_threads ?s1 i = Nt_sending fd (message_pieces en ?m) ?after" by (simp add: set_thread_def)
  from piece_steps [OF assms(1) this] obtain c where
    "(repl_step en nets opts max_size)\<^sup>*\<^sup>* ?s1 (set_thread i ?after (?s1\<lparr>rl_socks := (rl_socks ?s1)(fd := c)\<rparr>))"
    "sock_tx c = sock_tx (rl_socks ?s1 fd) @ wire ?m" by blast
  moreover have "set_thread i ?after (?s1\<lparr>rl_socks := (rl_socks ?s1)(fd := c)\<rparr>)
      = set_thread i ?after (s\<lparr>rl_socks := (rl_socks s)(fd := c)\<rparr>)" "rl_socks ?s1 = rl_socks s"
    by (simp_all add: set_thread_def)
  ultimately show ?thesis using first by (metis converse_rtranclp_into_rtranclp)
qed

definition example_repl :: repl where
  "example_repl = \<lparr>rl_aof = (case Aof_construct True 0 [] of Inr a \<Rightarrow> a), rl_socks = (\<lambda>fd. example_sock []),
     rl_threads = (\<lambda>i. Nt_idle)\<rparr>"

text \<open>A run in which two threads come to forward the same command, which only the first of them appended.\<close>

lemma example_repl_forwards:
  "\<exists>s. (repl_step Little (\<lambda>fd. example_net) main_options 100)\<^sup>*\<^sup>* example_repl s
     \<and> rl_threads s 0 = Nt_commands 3 0 20 (Some []) [[''DEL'', ''k'']] []
     \<and> rl_threads s 1 = Nt_commands 3 0 20 (Some []) [[''DEL'', ''k'']] [] \<and> free_connection s 3
     \<and> sock_tx (rl_socks s 3) = wire (Message_init\<lparr>msg_type := ACK\<rparr>)
     \<and> aof_accepted (rl_aof s) = map serializeToRESP [[''DEL'', ''k''], [''DEL'', ''q'']] \<and> \<not> aof_lost (rl_aof s)"
proof -
  let ?p = "serializeToRESP [''DEL'', ''k'']" and ?nets = "\<lambda>fd :: int. example_net"
  let ?step = "repl_step Little ?nets main_options 100"
  let ?es = "[Rl_append 0 [''DEL'', ''k''], Rl_log Collect, Rl_log (Writev (Wv_bytes (length ?p))),
    Rl_append 1 [''DEL'', ''q''], Rl_copy 0, Rl_copy 1, Rl_offset 0, Rl_offset 1, Rl_open 0 True, Rl_open 1 True,
    Rl_read 0 (Some 9000), Rl_read 1 (Some 9000)]"
  have len: "length ?p = 20" and rd: "read_chunk ?p = ([[''DEL'', ''k'']], Some [])" by code_simp+
  have fits: "sendable [''DEL'', ''k'']" "sendable [''DEL'', ''q'']" "fits 100 [''DEL'', ''k'']" "fits 100 [''DEL'', ''q'']"
    by (simp_all add: sendable_def fits_def)
  have net: "\<forall>fd i. net_send (?nets fd) i \<noteq> None" "\<forall>i. net_recv example_net i \<noteq> None"
    by (simp_all add: example_net_good)
  obtain s1 where s1: "?step example_repl s1"
    "rl_aof s1 = registerListener 3 (rl_aof example_repl)" "rl_socks s1 = rl_socks example_repl"
    "rl_threads s1 = (\<lambda>i. Nt_idle)(2 := Nt_sending 3 (message_pieces Little (Message_init\<lparr>msg_type := ACK\<rparr>)) Nt_idle)"
  proof
    show "?step example_repl (set_thread 2 (Nt_sending 3 (message_pieces Little (Message_init\<lparr>msg_type := ACK\<rparr>)) Nt_idle)
        (example_repl\<lparr>rl_aof := registerListener 3 (rl_aof example_repl)\<rparr>))"
      by (rule repl_step [of _ "Rl_accept 2 3"])
        (simp_all add: example_repl_def free_connection_def pieces_left_message)
  qed (simp_all add: set_thread_def example_repl_def)
  from piece_steps [OF net(1), of s1 2 3 Little "Message_init\<lparr>msg_type := ACK\<rparr>" Nt_idle main_options 100] s1(4)
  obtain c0 where c0: "?step\<^sup>*\<^sup>* s1 (set_thread 2 Nt_idle (s1\<lparr>rl_socks := (rl_socks s1)(3 := c0)\<rparr>))"
    "sock_tx c0 = wire (Message_init\<lparr>msg_type := ACK\<rparr>)"
    by (auto simp: s1(3) example_repl_def example_sock_def)
  let ?s2 = "set_thread 2 Nt_idle (s1\<lparr>rl_socks := (rl_socks s1)(3 := c0)\<rparr>)"
  obtain s3 where s3: "repl_run Little ?nets main_options ?es ?s2 = Some s3"
    and f: "rl_threads s3 0 = Nt_commands 3 0 20 (Some []) [[''DEL'', ''k'']] []"
      "rl_threads s3 1 = Nt_commands 3 0 20 (Some []) [[''DEL'', ''k'']] []" "free_connection s3 3"
      "rl_socks s3 3 = c0" "aof_accepted (rl_aof s3) = [?p, serializeToRESP [''DEL'', ''q'']]" "\<not> aof_lost (rl_aof s3)"
    using len rd by (simp add: s1 example_repl_def Aof_construct_def openFile_def registerListener_def after_append_def
      appendCommandAsync_def calls_left_def chunk_left_def set_thread_def posix_read_def BUF_def getCurrentOffset_def
      free_connection_def aof_eval)
  have "?step\<^sup>*\<^sup>* ?s2 s3"
    using repl_run_steps [OF s3, of 100] fits by (simp add: nth_Cons split: nat.split)
  with s1(1) c0(1) have run3: "?step\<^sup>*\<^sup>* example_repl s3" by (meson converse_rtranclp_into_rtranclp rtranclp_trans)
  then show ?thesis using f c0(2) by auto
qed

section \<open>Properties\<close>




lemma le_value_snoc: "le_value (xs @ [b]) = le_value xs + 256 ^ length xs * unat b"
  by (induction xs) (simp_all add: algebra_simps)

text \<open>A message that goes out whole after the first byte of another one.\<close>

lemma interleaved_bytes_raise:
  assumes "\<forall>i. net_recv net i \<noteq> None" and "msg_magic m2 = 0x9798" and "max_size < 0x98 * 2 ^ 56"
    and "sock_rx c = msg_type m1 # wire m2 @ rest"
  shows "\<exists>c'. replica_round en max_size net L opts sleep (w, c) = ((w, c'), Some Length_error)"
proof -
  let ?len = "rev (le_bytes 8 (unat (msg_len m2)))"
  have "rev (le_bytes 2 (unat (msg_magic m2))) = [0x97, 0x98]"
  proof -
    have "le_bytes 2 38808 = [0x98, 0x97]" by (subst numeral_2_eq_2) simp
    moreover have "unat (msg_magic m2) = 38808" unfolding assms(2) by simp
    ultimately show ?thesis by simp
  qed
  with assms(4) have rx: "sock_rx c = msg_type m1 # msg_type m2 # [ucast (msg_offset m2), 0x97]
      @ (0x98 # take 7 ?len) @ (drop 7 ?len @ msg_payload m2 @ rest)"
    unfolding wire_def by (simp del: le_bytes.simps)
  have "0x98 * 2 ^ 56 \<le> le_value (rev (0x98 # take 7 ?len))" by (simp add: le_value_snoc del: le_bytes.simps)
  with assms(3) have big: "max_size < le_value (rev (0x98 # take 7 ?len))" by linarith
  from recv_header [OF assms(1) _ _ rx, of en max_size Message_init] big
  obtain m' c' where "recvFromSocket en max_size net Message_init c = (m', c', Inl Length_error)"
    by (auto simp: Let_def simp del: le_bytes.simps)
  then show ?thesis by (simp add: replica_round_def)
qed

text \<open>The calls in that order: the first one of a thread, then all of another, then the rest.\<close>

definition interleaving :: "endian \<Rightarrow> nat \<Rightarrow> Message \<Rightarrow> nat \<Rightarrow> Message \<Rightarrow> repl_event list" where
  "interleaving en i m1 j m2 = Rl_message i # Rl_message j # Rl_piece i #
     replicate (length (message_pieces en m2)) (Rl_piece j)
     @ replicate (length (message_pieces en m1) - 1) (Rl_piece i)"

lemma interleaving_runs:
  assumes "\<forall>fd i. net_send (nets fd) i \<noteq> None" and "i \<noteq> j"
    and "rl_threads s i = Nt_commands fd o1 p1 b1 (cmd1 # cmds1) fds1" and "sendable cmd1"
    and "rl_threads s j = Nt_commands fd o2 p2 b2 (cmd2 # cmds2) fds2" and "sendable cmd2"
    and m: "m1 = command_message en (of_nat o1) cmd1" "m2 = command_message en (of_nat o2) cmd2"
  shows "\<exists>s' rest. repl_run en nets opts (interleaving en i m1 j m2) s = Some s'
    \<and> sock_tx (rl_socks s' fd) = sock_tx (rl_socks s fd) @ msg_type m1 # wire m2 @ rest"
proof -
  let ?a1 = "chunk_left fd o1 p1 b1 cmds1 fds1" and ?a2 = "chunk_left fd o2 p2 b2 cmds2 fds2"
  obtain ps where ps: "message_pieces en m1 = [msg_type m1] # ps" "ps \<noteq> []" by (simp add: message_pieces_def)
  let ?s1 = "set_thread i (Nt_sending fd (message_pieces en m1) ?a1) s"
  let ?s2 = "set_thread j (Nt_sending fd (message_pieces en m2) ?a2) ?s1"
  from send_all_good [of "nets fd" "[msg_type m1]" "rl_socks s fd"] assms(1) obtain c1 where
    c1: "send_all (nets fd) [msg_type m1] (rl_socks s fd) = (True, c1)" "sock_tx c1 = sock_tx (rl_socks s fd) @ [msg_type m1]"
    by blast
  let ?s3 = "set_thread i (Nt_sending fd ps ?a1) (?s2\<lparr>rl_socks := (rl_socks s)(fd := c1)\<rparr>)"
  have e1: "repl_exec en nets opts (Rl_message i) s = Some ?s1"
    using assms(3) next_message_good [OF assms(4)] by (simp add: m)
  have e2: "repl_exec en nets opts (Rl_message j) ?s1 = Some ?s2"
    using assms(2,5) next_message_good [OF assms(6)] by (simp add: m set_thread_def)
  have e3: "repl_exec en nets opts (Rl_piece i) ?s2 = Some ?s3"
    using assms(2) c1(1) ps by (simp add: set_thread_def pieces_left_def)
  have "rl_threads ?s3 j = Nt_sending fd (message_pieces en m2) ?a2" using assms(2) by (simp add: set_thread_def)
  from piece_run [OF assms(1) message_pieces_nonempty this, of en opts] obtain c2 where
    c2: "repl_run en nets opts (replicate (length (message_pieces en m2)) (Rl_piece j)) ?s3
        = Some (set_thread j ?a2 (?s3\<lparr>rl_socks := (rl_socks ?s3)(fd := c2)\<rparr>))"
      "sock_tx c2 = sock_tx (rl_socks ?s3 fd) @ wire m2" unfolding message_fields by blast
  let ?s4 = "set_thread j ?a2 (?s3\<lparr>rl_socks := (rl_socks ?s3)(fd := c2)\<rparr>)"
  have "rl_threads ?s4 i = Nt_sending fd ps ?a1" using assms(2) by (simp add: set_thread_def)
  from piece_run [OF assms(1) ps(2) this, of en opts] obtain s5 where
    s5: "repl_run en nets opts (replicate (length ps) (Rl_piece i)) ?s4 = Some s5"
      "sock_tx (rl_socks s5 fd) = sock_tx (rl_socks ?s4 fd) @ concat ps" by (auto simp: set_thread_def)
  have len: "length (message_pieces en m1) - 1 = length ps" by (simp add: ps(1))
  have "repl_run en nets opts (interleaving en i m1 j m2) s = Some s5"
    unfolding interleaving_def len by (simp only: repl_run.simps e1 e2 e3 option.case repl_run_append c2(1) s5(1) bind.bind_lunit)
  with s5(2) c2(2) c1(2) show ?thesis by (simp add: set_thread_def)
qed

text \<open>
  C34: nothing keeps two messages on one connection apart.  Two threads that notify the same listener
  send with several calls each and hold no lock: when two of them are each about to forward a command and
  the second message goes out whole after the first byte of the first one, which the code can do, then
  the replica, once it has taken the messages that came before, takes the magic number for the length
  of a payload and raises; it applies neither command.
\<close>

theorem interleaved_sends_raise:
  assumes "\<forall>fd i. net_send (nets fd) i \<noteq> None" and "\<forall>i. net_recv net' i \<noteq> None" and "max_size < 0x98 * 2 ^ 56"
    and "i \<noteq> j" and "rl_threads s i = Nt_commands fd o1 p1 b1 (cmd1 # cmds1) fds1" and "sendable cmd1"
    and "rl_threads s j = Nt_commands fd o2 p2 b2 (cmd2 # cmds2) fds2" and "sendable cmd2"
    and "sock_tx (rl_socks s fd) = concat (map wire ms)" and "list_all (carried_message en max_size accepted) ms"
    and m: "m1 = command_message en (of_nat o1) cmd1" "m2 = command_message en (of_nat o2) cmd2"
  shows "\<exists>s' cmds. repl_run en nets opts (interleaving en i m1 j m2) s = Some s' \<and> list_all (good max_size accepted) cmds
    \<and> (\<forall>w c. sock_rx c = sock_tx (rl_socks s' fd) \<longrightarrow>
         (\<exists>c'. replica_rounds (length ms) en' max_size net' L opts' sleep (w, c)
               = ((fold (apply_command L opts' sleep) cmds w, c'), None)
           \<and> (\<exists>c''. replica_round en' max_size net' L opts' sleep (fold (apply_command L opts' sleep) cmds w, c')
               = ((fold (apply_command L opts' sleep) cmds w, c''), Some Length_error))))"
proof -
  from interleaving_runs [OF assms(1,4-8) m, of opts] obtain s' rest where
    s': "repl_run en nets opts (interleaving en i m1 j m2) s = Some s'"
      "sock_tx (rl_socks s' fd) = concat (map wire ms) @ msg_type m1 # wire m2 @ rest" by (auto simp: assms(9))
  have "msg_magic m2 = 0x9798"
    by (simp add: m(2) command_message_def fromDataEntity_def Message_init_def Let_def split: option.split)
  note raises = interleaved_bytes_raise [OF assms(2) this assms(3), where ?m1.0 = m1 and rest = rest]
  from replica_applies_carried [OF assms(10,2), of "msg_type m1 # wire m2 @ rest" en' L opts' sleep] s' raises
  show ?thesis by metis
qed


definition example_notifying :: repl where
  "example_notifying = example_repl\<lparr>
     rl_socks := (\<lambda>fd. (example_sock [])\<lparr>sock_tx := wire (Message_init\<lparr>msg_type := ACK\<rparr>)\<rparr>),
     rl_threads := (\<lambda>i. Nt_idle)(0 := Nt_commands 3 0 40 (Some []) [[''DEL'', ''k''], [''DEL'', ''q'']] [],
       1 := Nt_commands 3 20 40 (Some []) [[''DEL'', ''q'']] [])\<rparr>"

theorem interleaved_sends_raise_witness:
  "\<exists>s' cmds. repl_run Little (\<lambda>fd. example_net) main_options
       (interleaving Little 0 (command_message Little 0 [''DEL'', ''k'']) 1 (command_message Little 20 [''DEL'', ''q'']))
       example_notifying = Some s' \<and> list_all (good 1000 []) cmds
    \<and> (\<exists>c' c''. replica_rounds 1 Big 1000 example_net mem_leveldb main_options id (mem_wrapper [], example_sock (sock_tx (rl_socks s' 3)))
           = ((fold (apply_command mem_leveldb main_options id) cmds (mem_wrapper []), c'), None)
         \<and> replica_round Big 1000 example_net mem_leveldb main_options id
             (fold (apply_command mem_leveldb main_options id) cmds (mem_wrapper []), c')
           = ((fold (apply_command mem_leveldb main_options id) cmds (mem_wrapper []), c''), Some Length_error))"
proof -
  let ?m1 = "command_message Little 0 [''DEL'', ''k'']" and ?m2 = "command_message Little 20 [''DEL'', ''q'']"
  have "sendable [''DEL'', ''k'']" "sendable [''DEL'', ''q'']" by (simp_all add: sendable_def)
  with interleaved_sends_raise [of "\<lambda>fd. example_net" example_net 1000 "0 :: nat" 1 example_notifying 3 0 40 "Some []"
      "[''DEL'', ''k'']" "[[''DEL'', ''q'']]" "[]" 20 40 "Some []" "[''DEL'', ''q'']" "[]" "[]"
      "[Message_init\<lparr>msg_type := ACK\<rparr>]" Little "[]" ?m1 ?m2 main_options Big mem_leveldb main_options "id :: nat aof \<Rightarrow> nat aof"]
  obtain s' cmds where s': "repl_run Little (\<lambda>fd. example_net) main_options
       (interleaving Little 0 (command_message Little 0 [''DEL'', ''k'']) 1 (command_message Little 20 [''DEL'', ''q'']))
       example_notifying = Some s'" "list_all (good 1000 []) cmds"
    and r: "\<And>w c. sock_rx c = sock_tx (rl_socks s' 3) \<Longrightarrow>
      \<exists>c'. replica_rounds 1 Big 1000 example_net mem_leveldb main_options (id :: nat aof \<Rightarrow> nat aof) (w, c)
           = ((fold (apply_command mem_leveldb main_options id) cmds w, c'), None)
         \<and> (\<exists>c''. replica_round Big 1000 example_net mem_leveldb main_options id (fold (apply_command mem_leveldb main_options id) cmds w, c')
           = ((fold (apply_command mem_leveldb main_options id) cmds w, c''), Some Length_error))"
    by (auto simp: example_net_good example_notifying_def carried_message_def simp del: replica_rounds.simps)
  with r [of "example_sock (sock_tx (rl_socks s' 3))" "mem_wrapper []"] show ?thesis
    by (auto simp: example_sock_def simp del: replica_rounds.simps)
qed

end
