(* ===== verification/Aof_Progress.thy ===== *)
theory Aof_Progress
  imports Log_Positions
begin

text \<open>
  The running log makes progress.  Every payload that the log has accepted reaches the file while
  producers go on appending: each turn of the writer lowers a measure of the bytes that the file still
  lacks and of where the thread is, however many payloads arrive in the meantime, and the writer always
  has a turn to take.
\<close>

section \<open>A running log\<close>

fun pc_running :: "writer_pc \<Rightarrow> bool" where
  "pc_running W_off \<longleftrightarrow> False"
| "pc_running W_final \<longleftrightarrow> False"
| "pc_running W_exit \<longleftrightarrow> False"
| "pc_running _ \<longleftrightarrow> True"

text \<open>An open log has a writer thread, which runs until the log is stopped.\<close>

definition open_started :: "'l aof \<Rightarrow> bool" where
  "open_started s \<longleftrightarrow> (aof_fd s \<longrightarrow> aof_started s \<and> (aof_stop s \<or> pc_running (aof_pc s)))"

lemma open_started_start: "aof_start base s \<Longrightarrow> open_started s"
  by (auto simp: aof_start_def Aof_construct_def openFile_def startWriter_def open_started_def)

lemma open_started_exec:
  assumes "open_started s" and "aof_exec opts ev s = Some t"
  shows "open_started t"
proof (cases ev)
  case (Writev r)
  with assms(2) obtain iovs where "aof_pc s = W_writing iovs" "writer_writev r s iovs = Some t" by (auto split: writer_pc.splits)
  then show ?thesis using assms(1) by (elim writer_writevE) (auto simp: open_started_def)
next
  case Collect
  with assms show ?thesis by (auto simp: open_started_def writer_collect_def Let_def split: if_splits prod.splits)
next
  case Wake
  with assms show ?thesis by (auto simp: open_started_def aof_op_defs split: list.splits if_splits)
qed (use assms in \<open>auto simp: open_started_def aof_op_defs split: if_splits\<close>)

definition log_running :: "string \<Rightarrow> options \<Rightarrow> 'l aof \<Rightarrow> bool" where
  "log_running base opts s \<longleftrightarrow> \<not> aof_stop s \<and> aof_fd s \<and> \<not> aof_lost s \<and> open_started s
     \<and> aof_inv opts base s \<and> positions_ok (\<lambda>p. p \<noteq> []) base s"

lemma log_running_reached:
  assumes "aof_start base s0" and "aof_run opts evs s0 = Some s" and "list_all (appends (\<lambda>p. p \<noteq> [])) evs"
    and "\<not> aof_stop s" and "aof_fd s" and "\<not> aof_lost s"
  shows "log_running base opts s"
proof -
  have "open_started s \<and> aof_inv opts base s \<and> positions_ok (\<lambda>p. p \<noteq> []) base s"
    if "open_started u" "aof_inv opts base u" "positions_ok (\<lambda>p. p \<noteq> []) base u" "aof_run opts evs u = Some s" for u
    using that assms(3)
  proof (induction evs arbitrary: u)
    case (Cons ev evs)
    then obtain v where v: "aof_exec opts ev u = Some v" "aof_run opts evs v = Some s" by (auto split: option.splits)
    from Cons.IH [OF open_started_exec [OF Cons.prems(1) v(1)] aof_exec_inv [OF Cons.prems(2) v(1)]
        positions_ok_exec [OF Cons.prems(3,2) _ _ v(1)] v(2)] Cons.prems(5) show ?case by simp
  qed simp
  from this [OF open_started_start aof_start_inv positions_ok_start assms(2)] assms(1,4-6) show ?thesis
    by (auto simp: log_running_def)
qed

section \<open>The measure\<close>

text \<open>
  \<open>n\<close> is the length that the file is to reach.  A call of \<^verbatim>\<open>writev\<close> that does not end the vectors brings
  it nearer by a byte at least; from the end of the vectors the thread needs at most four turns until
  it writes again.
\<close>

fun turns_to_write :: "writer_pc \<Rightarrow> nat" where
  "turns_to_write (W_writing iovs) = 1"
| "turns_to_write W_top = 2"
| "turns_to_write W_empty = 3"
| "turns_to_write W_stored = 3"
| "turns_to_write W_written = 4"
| "turns_to_write _ = 0"

definition turns_left :: "nat \<Rightarrow> 'l aof \<Rightarrow> nat" where
  "turns_left n s = (if n \<le> length (aof_file s) then 0
     else 4 * (n - length (aof_file s)) + turns_to_write (aof_pc s))"

text \<open>What the other threads may do: append, wake up, interrupt a \<^verbatim>\<open>writev\<close>, but not stop the log.\<close>

definition alongside :: "aof_event \<Rightarrow> bool" where
  "alongside ev \<longleftrightarrow> meanwhile ev \<and> ev \<noteq> Stop_request"

lemma running_keeps:
  assumes "log_running base opts s" and "writer_turn ev \<or> alongside ev" and "appends (\<lambda>p. p \<noteq> []) ev"
    and "aof_exec opts ev s = Some t"
  shows "log_running base opts t"
proof -
  have "\<not> aof_stop t \<and> aof_fd t \<and> \<not> aof_lost t"
  proof (cases ev)
    case (Writev r)
    with assms show ?thesis
      by (auto simp: log_running_def alongside_def is_bytes_def writer_writev_def writev_step_def Let_def
          split: writer_pc.splits writev_result.splits)
  next
    case Wake
    with assms show ?thesis by (auto simp: log_running_def aof_op_defs split: list.splits if_splits)
  qed (use assms in \<open>auto simp: log_running_def alongside_def aof_op_defs split: if_splits\<close>)
  with assms open_started_exec [OF _ assms(4)] aof_exec_inv [OF _ assms(4)] positions_ok_exec [OF _ _ _ assms(3,4)]
  show ?thesis unfolding log_running_def by blast
qed

lemma accepted_grows:
  assumes "aof_exec opts ev s = Some t"
  shows "\<exists>ps. aof_accepted t = aof_accepted s @ ps" and "length (aof_file s) \<le> length (aof_file t)"
  using assms writer_writev_fields(2) writer_writev_file(1)
  by (cases ev; fastforce simp: aof_op_defs split: list.splits if_splits writer_pc.splits)+


lemma running_complete:
  assumes "log_running base opts s"
  shows "base @ concat (aof_accepted s) = aof_file s @ concat (pending (aof_pc s)) @ concat (aof_queue s)"
  using assms by (simp add: log_running_def aof_inv_def log_complete_def)

lemma writev_progress:
  assumes "log_running base opts s" and "aof_pc s = W_writing iovs" and "is_bytes r" and "writer_writev r s iovs = Some t"
  shows "length (aof_file s) < length (aof_file t) \<and> turns_to_write (aof_pc t) \<le> 4"
proof -
  obtain k where k: "r = Wv_bytes k" "0 < k" using assms(3) by (cases r) (auto simp: is_bytes_def)
  have "iovs \<noteq> []" "list_all (\<lambda>p. p \<noteq> []) iovs"
    using assms(1,2) by (auto simp: log_running_def positions_ok_def batch_ok_def)
  then have "concat (take IOV_MAX_SLICE iovs) \<noteq> []" by (cases iovs) (auto simp: IOV_MAX_SLICE_def)
  with assms(1,4) k show ?thesis
    by (auto simp: log_running_def writer_writev_def writev_step_def Let_def)
qed

text \<open>As long as accepted bytes are missing from the file, a turn lowers the measure.\<close>

lemma turn_progress:
  assumes "log_running base opts s" and "writer_turn ev" and "aof_exec opts ev s = Some t"
    and "0 < max_batch_entries opts" and "0 < max_batch_bytes opts"
    and "n \<le> length (base @ concat (aof_accepted s))" and "length (aof_file s) < n"
  shows "turns_left n t < turns_left n s"
proof (cases ev)
  case (Writev r)
  with assms(2,3) obtain iovs where w: "aof_pc s = W_writing iovs" "writer_writev r s iovs = Some t" "is_bytes r"
    by (auto split: writer_pc.splits)
  from writev_progress [OF assms(1) w(1,3,2)] w(1) assms(7) show ?thesis by (auto simp: turns_left_def)
next
  case Collect
  with assms(3) have c: "aof_pc s = W_top" "t = writer_collect opts s" by (auto split: if_splits)
  with running_complete [OF assms(1)] assms(6,7) have "aof_queue s \<noteq> []" by auto
  moreover obtain b r where br: "take_batch opts 0 0 (aof_queue s) = (b, r)" by fastforce
  ultimately have "b \<noteq> []" using take_batch_progress assms(4,5) by blast
  with c br have "aof_pc t = W_writing b" by (simp add: writer_collect_def Let_def)
  with c assms(7) show ?thesis by (simp add: turns_left_def)
next
  case (Idle now)
  with assms show ?thesis by (auto simp: turns_left_def log_running_def writer_idle_def do_fsync_def split: if_splits)
next
  case Store_offset
  with assms show ?thesis by (auto simp: turns_left_def writer_store_offset_def split: if_splits)
next
  case (Sync now)
  with assms show ?thesis by (auto simp: turns_left_def log_running_def writer_sync_def do_fsync_def Let_def split: if_splits)
next
  case Finish
  with assms(1,3) show ?thesis by (auto simp: log_running_def open_started_def split: if_splits)
qed (use assms(2) in simp_all)

lemma prefix_reached: "xs @ ys = zs @ us \<Longrightarrow> length xs \<le> length zs \<Longrightarrow> \<exists>rest. zs = xs @ rest"
  by (auto simp: append_eq_append_conv2)

lemma alongside_turns:
  assumes "log_running base opts s" and "alongside ev" and "aof_exec opts ev s = Some t"
  shows "turns_left n t = turns_left n s"
proof (cases ev)
  case (Writev r)
  with assms show ?thesis
    by (auto simp: alongside_def turns_left_def log_running_def positions_ok_def batch_ok_def
        writer_writev_def writev_step_def split: writer_pc.splits if_splits)
next
  case Wake
  with assms show ?thesis by (auto simp: turns_left_def aof_op_defs split: list.splits if_splits)
qed (use assms in \<open>auto simp: alongside_def turns_left_def aof_op_defs split: if_splits\<close>)

lemma running_turn_enabled:
  assumes "log_running base opts s"
  shows "\<exists>ev. writer_turn ev \<and> aof_exec opts ev s \<noteq> None"
proof (cases "aof_pc s")
  case W_top
  then show ?thesis by (intro exI [of _ Collect]) simp
next
  case W_empty
  then show ?thesis by (intro exI [of _ "Idle 0"]) simp
next
  case (W_writing iovs)
  with assms show ?thesis
    by (intro exI [of _ "Writev (Wv_bytes 1)"])
      (auto simp: log_running_def is_bytes_def writer_writev_def writev_step_def Let_def)
next
  case W_written
  then show ?thesis by (intro exI [of _ Store_offset]) simp
next
  case W_stored
  then show ?thesis by (intro exI [of _ "Sync 0"]) simp
qed (use assms in \<open>auto simp: log_running_def open_started_def\<close>)

lemma running_run:
  assumes "list_all (\<lambda>ev. (writer_turn ev \<or> alongside ev) \<and> appends (\<lambda>p. p \<noteq> []) ev) evs"
    and "aof_run opts evs s = Some t" and "log_running base opts s" and "n \<le> length (base @ concat (aof_accepted s))"
    and "0 < max_batch_entries opts" and "0 < max_batch_bytes opts"
  shows "log_running base opts t \<and> (\<exists>ps. aof_accepted t = aof_accepted s @ ps)
    \<and> (n \<le> length (aof_file t) \<or> turns_left n t + length (filter writer_turn evs) \<le> turns_left n s)"
  using assms(1-4)
proof (induction evs arbitrary: s)
  case (Cons ev evs)
  then obtain u where u: "aof_exec opts ev s = Some u" "aof_run opts evs u = Some t" by (auto split: option.splits)
  from accepted_grows [OF u(1)] obtain ps where ps: "aof_accepted u = aof_accepted s @ ps" "length (aof_file s) \<le> length (aof_file u)"
    by blast
  have ru: "log_running base opts u" using running_keeps [OF Cons.prems(3) _ _ u(1)] Cons.prems(1) by simp
  from Cons.IH [OF _ u(2) ru] Cons.prems(1,4) ps(1) have t: "log_running base opts t" "\<exists>ps. aof_accepted t = aof_accepted u @ ps"
    "n \<le> length (aof_file t) \<or> turns_left n t + length (filter writer_turn evs) \<le> turns_left n u" by auto
  have "n \<le> length (aof_file t) \<or> turns_left n t + length (filter writer_turn (ev # evs)) \<le> turns_left n s"
  proof (cases "n \<le> length (aof_file s)")
    case True
    with ps(2) have "turns_left n u = 0" by (simp add: turns_left_def)
    with t(3) show ?thesis by (auto simp: turns_left_def split: if_splits)
  next
    case False
    show ?thesis
    proof (cases "writer_turn ev")
      case True
      with turn_progress [OF Cons.prems(3) True u(1) assms(5,6) Cons.prems(4)] False t(3) show ?thesis by auto
    next
      case other: False
      with alongside_turns [OF Cons.prems(3) _ u(1), of n] Cons.prems(1) t(3) show ?thesis by auto
    qed
  qed
  with t(1,2) ps(1) show ?case by auto
qed simp

section \<open>Properties\<close>

text \<open>
  C16: every accepted payload reaches the file.  Take a log that any run has led to and that has not been
  stopped, with payloads that are not empty and no failed write: from there on, in every interleaving of
  the writer with producers that go on appending, in which the calls of \<^verbatim>\<open>writev\<close> that are not interrupted
  write something, the writer always has a turn to take, and after a number of turns that depends on what
  the file lacked at the beginning only, all that had been accepted is in the file, in order.
\<close>

theorem accepted_reaches_file:
  assumes "aof_start base s0" and "aof_run opts es s0 = Some s" and "list_all (appends (\<lambda>p. p \<noteq> [])) es"
    and "\<not> aof_stop s" and "aof_fd s" and "\<not> aof_lost s"
    and "0 < max_batch_entries opts" and "0 < max_batch_bytes opts"
    and "list_all (\<lambda>ev. (writer_turn ev \<or> alongside ev) \<and> appends (\<lambda>p. p \<noteq> []) ev) evs" and "aof_run opts evs s = Some t"
  shows "(\<exists>ev. writer_turn ev \<and> aof_exec opts ev t \<noteq> None)
    \<and> (turns_left (length (base @ concat (aof_accepted s))) s \<le> length (filter writer_turn evs) \<longrightarrow>
        (\<exists>rest. aof_file t = base @ concat (aof_accepted s) @ rest))"
proof -
  let ?n = "length (base @ concat (aof_accepted s))"
  from running_run [OF assms(9,10) log_running_reached [OF assms(1-6)] order_refl assms(7,8)]
  obtain ps where t: "log_running base opts t" "aof_accepted t = aof_accepted s @ ps"
    "?n \<le> length (aof_file t) \<or> turns_left ?n t + length (filter writer_turn evs) \<le> turns_left ?n s" by blast
  have "\<exists>rest. aof_file t = base @ concat (aof_accepted s) @ rest"
    if "turns_left ?n s \<le> length (filter writer_turn evs)"
  proof -
    have "0 < turns_left ?n t" if "length (aof_file t) < ?n" using that by (simp add: turns_left_def)
    with that t(3) have "?n \<le> length (aof_file t)" by linarith
    moreover have "base @ concat (aof_accepted s) @ concat ps = aof_file t @ concat (pending (aof_pc t)) @ concat (aof_queue t)"
      using running_complete [OF t(1)] t(2) by simp
    ultimately show ?thesis using prefix_reached [of "base @ concat (aof_accepted s)"] by simp
  qed
  with running_turn_enabled [OF t(1)] show ?thesis by blast
qed


theorem accepted_reaches_file_witness:
  "\<exists>s t :: nat aof. aof_run main_options [Append_async ''a'', Append_blocking ''b''] example_aof = Some s
     \<and> aof_file s = ''base''
     \<and> aof_run main_options [Collect, Append_async ''c'', Writev Wv_EINTR, Writev (Wv_bytes 1), Writev (Wv_bytes 1),
         Store_offset, Sync 0, Collect, Writev (Wv_bytes 1), Store_offset, Sync 0, Collect] s = Some t
     \<and> (\<exists>ev. writer_turn ev \<and> aof_exec main_options ev t \<noteq> None)
     \<and> (\<exists>rest. aof_file t = ''base'' @ ''ab'' @ rest)"
proof -
  let ?es = "[Append_async ''a'', Append_blocking ''b'']"
  let ?evs = "[Collect, Append_async ''c'', Writev Wv_EINTR, Writev (Wv_bytes 1), Writev (Wv_bytes 1),
         Store_offset, Sync 0, Collect, Writev (Wv_bytes 1), Store_offset, Sync 0, Collect]"
  obtain s :: "nat aof" where s: "aof_run main_options ?es example_aof = Some s"
    and f: "aof_accepted s = [''a'', ''b'']" "aof_file s = ''base''" "\<not> aof_stop s" "aof_fd s" "\<not> aof_lost s"
      "aof_pc s = W_top" "aof_queue s = [''a'', ''b'']"
    by (simp add: aof_eval)
  obtain t where t: "aof_run main_options ?evs s = Some t"
    using f by (simp add: aof_eval)
  have m: "0 < max_batch_entries main_options" "0 < max_batch_bytes main_options"
    by (simp_all add: main_options_def default_options_def)
  have evs: "list_all (\<lambda>ev. (writer_turn ev \<or> alongside ev) \<and> appends (\<lambda>p. p \<noteq> []) ev) ?evs"
    "turns_left (length (''base'' @ concat (aof_accepted s))) s \<le> length (filter writer_turn ?evs)"
    by (simp_all add: alongside_def is_bytes_def turns_left_def f)
  have es: "list_all (appends (\<lambda>p. p \<noteq> [])) ?es" by simp
  from accepted_reaches_file [OF example_aof_start s es f(3-5) m evs(1) t] evs(2) have
    "\<exists>ev. writer_turn ev \<and> aof_exec main_options ev t \<noteq> None" "\<exists>rest. aof_file t = ''base'' @ concat (aof_accepted s) @ rest"
    by blast+
  with s t f(1,2) show ?thesis by (intro exI [of _ s] exI [of _ t]) simp
qed

end
