(* ===== verification/Redis_Service.thy ===== *)
theory Redis_Service
  imports Storage
begin

text \<open>
  The Redis front end under \<^verbatim>\<open>src/src/service\<close>: the session of a connection, \<^verbatim>\<open>RedisServiceImpl\<close>, the
  six command handlers and their registration.  The RPC framework decides which handler a request
  goes to and owns the connection; a handler is modelled as a function of the connection's session,
  the arguments and the storage wrapper, with the reply it leaves in \<^verbatim>\<open>output\<close>.  The contract is an
  abstract service over the expiring map, and the handlers are shown to implement it.
\<close>

section \<open>Sessions and replies\<close>

text \<open>\<^verbatim>\<open>ctx->get_session()\<close>: no session, or an \<^verbatim>\<open>AuthSession\<close> with its password.\<close>

record ctx =
  ctx_session :: "string option"

datatype reply =
    Reply_error string | Reply_status string | Reply_string string | Reply_null | Reply_integer int

definition AuthSession :: "string \<Rightarrow> string" where "AuthSession password = password"

section \<open>RedisServiceImpl\<close>

datatype command = Cmd_auth | Cmd_get | Cmd_set | Cmd_del | Cmd_ttl | Cmd_expire

text \<open>The handlers are enumerable, so that statements about all of them are decided by evaluation.\<close>

instantiation command :: enum
begin

definition enum_command :: "command list" where
  "enum_command = [Cmd_auth, Cmd_get, Cmd_set, Cmd_del, Cmd_ttl, Cmd_expire]"

definition enum_all_command :: "(command \<Rightarrow> bool) \<Rightarrow> bool" where
  "enum_all_command P \<longleftrightarrow> list_all P enum_class.enum"

definition enum_ex_command :: "(command \<Rightarrow> bool) \<Rightarrow> bool" where
  "enum_ex_command P \<longleftrightarrow> list_ex P enum_class.enum"

instance
proof
  show univ: "(UNIV :: command set) = set enum_class.enum"
    by (auto simp: enum_command_def intro: command.exhaust)
  show "distinct (enum_class.enum :: command list)" by (simp add: enum_command_def)
  fix P :: "command \<Rightarrow> bool"
  show "enum_class.enum_all P = Ball UNIV P" unfolding enum_all_command_def list_all_iff univ [symmetric] by (rule refl)
  show "enum_class.enum_ex P = Bex UNIV P" unfolding enum_ex_command_def list_ex_iff univ [symmetric] by (rule refl)
qed

end

record ('d, 'l) redis_service =
  rs_db :: "('d, 'l) wrapper"
  rs_handlers :: "string \<rightharpoonup> command"

definition RedisServiceImpl :: "('d, 'l) wrapper option \<Rightarrow> ('d, 'l) redis_service exn_or" where
  "RedisServiceImpl db =
     (case db of
        None \<Rightarrow> Inl (Runtime_error ''Database not initialized'')
      | Some w \<Rightarrow> Inr \<lparr>rs_db = w, rs_handlers = Map.empty\<rparr>)"

definition rs_Set ::
  "'d leveldb \<Rightarrow> options \<Rightarrow> ('l aof \<Rightarrow> 'l aof) \<Rightarrow> string \<Rightarrow> string \<Rightarrow> ('d, 'l) wrapper \<Rightarrow> bool \<times> ('d, 'l) wrapper" where
  "rs_Set L opts sleep key val w =
     (case put L opts sleep key val w of (False, w') \<Rightarrow> (False, w') | (True, w') \<Rightarrow> (True, w'))"

definition rs_Auth :: "string \<Rightarrow> bool" where
  "rs_Auth password = (if password \<noteq> ''123456'' then False else True)"

definition rs_Get :: "'d leveldb \<Rightarrow> u64 \<Rightarrow> string \<Rightarrow> string \<Rightarrow> ('d, 'l) wrapper \<Rightarrow> bool \<times> string \<times> ('d, 'l) wrapper" where
  "rs_Get L now key val w = get L now key val w"

definition rs_Del ::
  "'d leveldb \<Rightarrow> options \<Rightarrow> ('l aof \<Rightarrow> 'l aof) \<Rightarrow> string \<Rightarrow> ('d, 'l) wrapper \<Rightarrow> bool \<times> ('d, 'l) wrapper" where
  "rs_Del L opts sleep key w =
     (case remove L opts sleep key w of (False, w') \<Rightarrow> (False, w') | (True, w') \<Rightarrow> (True, w'))"

definition rs_Ttl :: "'d leveldb \<Rightarrow> u64 \<Rightarrow> string \<Rightarrow> ('d, 'l) wrapper \<Rightarrow> int" where
  "rs_Ttl L now key w = ttl L now key w"

definition rs_Expire ::
  "'d leveldb \<Rightarrow> options \<Rightarrow> ('l aof \<Rightarrow> 'l aof) \<Rightarrow> u64 \<Rightarrow> string \<Rightarrow> u64 \<Rightarrow> ('d, 'l) wrapper \<Rightarrow> bool \<times> ('d, 'l) wrapper" where
  "rs_Expire L opts sleep now key ts w = expire L opts sleep now key ts w"

definition AddCommandHandler :: "string \<Rightarrow> command \<Rightarrow> ('d, 'l) redis_service \<Rightarrow> ('d, 'l) redis_service" where
  "AddCommandHandler name handler rs = rs\<lparr>rs_handlers := (rs_handlers rs)(name \<mapsto> handler)\<rparr>"

definition init_redis_service :: "('d, 'l) wrapper option \<Rightarrow> ('d, 'l) redis_service exn_or" where
  "init_redis_service db =
     (case RedisServiceImpl db of
        Inl e \<Rightarrow> Inl e
      | Inr rs \<Rightarrow>
          let rs1 = AddCommandHandler ''auth'' Cmd_auth rs;
              rs2 = AddCommandHandler ''get'' Cmd_get rs1;
              rs3 = AddCommandHandler ''set'' Cmd_set rs2;
              rs4 = AddCommandHandler ''del'' Cmd_del rs3;
              rs5 = AddCommandHandler ''ttl'' Cmd_ttl rs4
          in Inr (AddCommandHandler ''expire'' Cmd_expire rs5))"

lemma init_redis_service_eq:
  "init_redis_service (Some w) = Inr \<lparr>rs_db = w, rs_handlers =
     [''auth'' \<mapsto> Cmd_auth, ''get'' \<mapsto> Cmd_get, ''set'' \<mapsto> Cmd_set, ''del'' \<mapsto> Cmd_del, ''ttl'' \<mapsto> Cmd_ttl,
      ''expire'' \<mapsto> Cmd_expire]\<rparr>"
  by (simp add: init_redis_service_def RedisServiceImpl_def AddCommandHandler_def Let_def)

section \<open>The handlers\<close>

text \<open>\<^verbatim>\<open>args.size() - 1\<close> printed with \<^verbatim>\<open>%lu\<close>.\<close>

definition arg_count :: "string list \<Rightarrow> string" where
  "arg_count args = to_string (unat (of_nat (length args) - 1 :: u64))"

definition auth_Run :: "string list \<Rightarrow> ctx \<Rightarrow> reply \<times> ctx" where
  "auth_Run args ctx =
     (if length args \<noteq> 2 then (Reply_error (''Expect 1 arg for 'auth', actually '' @ arg_count args), ctx)
      else
        let password = args ! 1
        in if rs_Auth password then (Reply_status ''OK'', ctx\<lparr>ctx_session := Some (AuthSession password)\<rparr>)
           else (Reply_error ''Invalid password for database'', ctx))"

definition get_Run ::
  "'d leveldb \<Rightarrow> u64 \<Rightarrow> string list \<Rightarrow> ctx \<Rightarrow> ('d, 'l) wrapper \<Rightarrow> reply \<times> ('d, 'l) wrapper" where
  "get_Run L now args ctx w =
     (case ctx_session ctx of
        None \<Rightarrow> (Reply_error ''No auth session'', w)
      | Some password \<Rightarrow>
          if password = [] then (Reply_error ''No user name'', w)
          else if length args \<noteq> 2 then (Reply_error (''Expect 1 arg for 'get', actually '' @ arg_count args), w)
          else
            (case rs_Get L now (args ! 1) [] w of
               (True, val, w') \<Rightarrow> (Reply_string val, w')
             | (False, _, w') \<Rightarrow> (Reply_null, w')))"

definition set_Run ::
  "string \<Rightarrow> 'd leveldb \<Rightarrow> options \<Rightarrow> ('l aof \<Rightarrow> 'l aof) \<Rightarrow> string list \<Rightarrow> ctx \<Rightarrow> ('d, 'l) wrapper
    \<Rightarrow> reply \<times> ('d, 'l) wrapper" where
  "set_Run model L opts sleep args ctx w =
     (if model \<noteq> ''master'' then (Reply_error ''slaver can not run 'set' command'', w)
      else case ctx_session ctx of
        None \<Rightarrow> (Reply_error ''No auth session'', w)
      | Some password \<Rightarrow>
          if password = [] then (Reply_error ''No user name'', w)
          else if length args \<noteq> 3 then (Reply_error (''Expect 2 args for 'set', actually '' @ arg_count args), w)
          else
            (case rs_Set L opts sleep (args ! 1) (args ! 2) w of
               (False, w') \<Rightarrow> (Reply_error (''Failed to set key '' @ CHR 0x27 # c_str (args ! 1) @ [CHR 0x27]), w')
             | (True, w') \<Rightarrow> (Reply_status ''OK'', w')))"


definition del_Run ::
  "string \<Rightarrow> 'd leveldb \<Rightarrow> options \<Rightarrow> ('l aof \<Rightarrow> 'l aof) \<Rightarrow> string list \<Rightarrow> ctx \<Rightarrow> ('d, 'l) wrapper
    \<Rightarrow> reply \<times> ('d, 'l) wrapper" where
  "del_Run model L opts sleep args ctx w =
     (if model \<noteq> ''master'' then (Reply_error ''slaver can not run 'del' command'', w)
      else case ctx_session ctx of
        None \<Rightarrow> (Reply_error ''No auth session'', w)
      | Some password \<Rightarrow>
          if password = [] then (Reply_error ''No user name'', w)
          else if length args \<noteq> 2 then (Reply_error (''Expect 1 arg for 'del', actually '' @ arg_count args), w)
          else
            (case rs_Del L opts sleep (args ! 1) w of
               (True, w') \<Rightarrow> (Reply_status ''OK'', w')
             | (False, w') \<Rightarrow> (Reply_null, w')))"

definition ttl_Run :: "'d leveldb \<Rightarrow> u64 \<Rightarrow> string list \<Rightarrow> ctx \<Rightarrow> ('d, 'l) wrapper \<Rightarrow> reply" where
  "ttl_Run L now args ctx w =
     (case ctx_session ctx of
        None \<Rightarrow> Reply_error ''No auth session''
      | Some password \<Rightarrow>
          if password = [] then Reply_error ''No user name''
          else if length args \<noteq> 2 then Reply_error (''Expect 1 arg for 'ttl', actually '' @ arg_count args)
          else Reply_integer (rs_Ttl L now (args ! 1) w))"

text \<open>The seconds are read as a signed number and passed on as an unsigned one.\<close>

definition expire_Run ::
  "'d leveldb \<Rightarrow> options \<Rightarrow> ('l aof \<Rightarrow> 'l aof) \<Rightarrow> u64 \<Rightarrow> string list \<Rightarrow> ctx \<Rightarrow> ('d, 'l) wrapper
    \<Rightarrow> reply \<times> ('d, 'l) wrapper" where
  "expire_Run L opts sleep now args ctx w =
     (case ctx_session ctx of
        None \<Rightarrow> (Reply_error ''No auth session'', w)
      | Some password \<Rightarrow>
          if password = [] then (Reply_error ''No user name'', w)
          else if length args \<noteq> 3 then (Reply_error (''Expect 2 arg for 'expire', actually '' @ arg_count args), w)
          else
            (case stoll (args ! 2) of
               Inl _ \<Rightarrow> (Reply_error ''Invalid expire time'', w)
             | Inr seconds \<Rightarrow>
                 (case rs_Expire L opts sleep now (args ! 1) (of_int seconds) w of
                    (True, w') \<Rightarrow> (Reply_integer 1, w')
                  | (False, w') \<Rightarrow> (Reply_integer 0, w'))))"

definition Run ::
  "string \<Rightarrow> 'd leveldb \<Rightarrow> options \<Rightarrow> ('l aof \<Rightarrow> 'l aof) \<Rightarrow> u64 \<Rightarrow> command \<Rightarrow> string list
    \<Rightarrow> ctx \<times> ('d, 'l) wrapper \<Rightarrow> reply \<times> ctx \<times> ('d, 'l) wrapper" where
  "Run model L opts sleep now command args st =
     (case st of (ctx, w) \<Rightarrow>
       case command of
         Cmd_auth \<Rightarrow> (case auth_Run args ctx of (r, ctx') \<Rightarrow> (r, ctx', w))
       | Cmd_get \<Rightarrow> (case get_Run L now args ctx w of (r, w') \<Rightarrow> (r, ctx, w'))
       | Cmd_set \<Rightarrow> (case set_Run model L opts sleep args ctx w of (r, w') \<Rightarrow> (r, ctx, w'))
       | Cmd_del \<Rightarrow> (case del_Run model L opts sleep args ctx w of (r, w') \<Rightarrow> (r, ctx, w'))
       | Cmd_ttl \<Rightarrow> (ttl_Run L now args ctx w, ctx, w)
       | Cmd_expire \<Rightarrow> (case expire_Run L opts sleep now args ctx w of (r, w') \<Rightarrow> (r, ctx, w')))"

lemmas run_defs = Run_def auth_Run_def get_Run_def set_Run_def del_Run_def ttl_Run_def expire_Run_def
  rs_Auth_def rs_Get_def rs_Set_def rs_Del_def rs_Ttl_def rs_Expire_def AuthSession_def

text \<open>A connection serves a sequence of requests, each at its time.\<close>

type_synonym request = "u64 \<times> command \<times> string list"

fun serve ::
  "string \<Rightarrow> 'd leveldb \<Rightarrow> options \<Rightarrow> ('l aof \<Rightarrow> 'l aof) \<Rightarrow> request list
    \<Rightarrow> ctx \<times> ('d, 'l) wrapper \<Rightarrow> reply list \<times> ctx \<times> ('d, 'l) wrapper" where
  "serve model L opts sleep [] st = ([], st)"
| "serve model L opts sleep ((now, command, args) # reqs) st =
     (case Run model L opts sleep now command args st of
        (r, st') \<Rightarrow> (case serve model L opts sleep reqs st' of (rs, st'') \<Rightarrow> (r # rs, st'')))"

section \<open>The abstract service\<close>

text \<open>
  The state of the contract is whether the connection is authenticated, and the expiring map.
  Reading a key that has expired removes it.
\<close>

definition wrong_args :: "command \<Rightarrow> string list \<Rightarrow> reply" where
  "wrong_args command args =
     Reply_error ((case command of
        Cmd_auth \<Rightarrow> ''Expect 1 arg for 'auth', actually ''
      | Cmd_get \<Rightarrow> ''Expect 1 arg for 'get', actually ''
      | Cmd_set \<Rightarrow> ''Expect 2 args for 'set', actually ''
      | Cmd_del \<Rightarrow> ''Expect 1 arg for 'del', actually ''
      | Cmd_ttl \<Rightarrow> ''Expect 1 arg for 'ttl', actually ''
      | Cmd_expire \<Rightarrow> ''Expect 2 arg for 'expire', actually '') @ arg_count args)"

definition arity :: "command \<Rightarrow> nat" where
  "arity command = (if command = Cmd_set \<or> command = Cmd_expire then 3 else 2)"

fun spec_exec :: "u64 \<Rightarrow> command \<Rightarrow> string list \<Rightarrow> store \<Rightarrow> reply \<times> store" where
  "spec_exec now Cmd_get args m =
     (case visible now m (args ! 1) of
        Some v \<Rightarrow> (Reply_string v, m)
      | None \<Rightarrow> (Reply_null, m(args ! 1 := None)))"
| "spec_exec now Cmd_set args m = (Reply_status ''OK'', m(args ! 1 \<mapsto> (args ! 2, - 1)))"
| "spec_exec now Cmd_del args m = (Reply_status ''OK'', m(args ! 1 := None))"
| "spec_exec now Cmd_ttl args m = (Reply_integer (spec_ttl now m (args ! 1)), m)"
| "spec_exec now Cmd_expire args m =
     (case stoll (args ! 2) of
        Inl _ \<Rightarrow> (Reply_error ''Invalid expire time'', m)
      | Inr seconds \<Rightarrow>
          (case m (args ! 1) of
             None \<Rightarrow> (Reply_integer 0, m)
           | Some (v, e) \<Rightarrow> (Reply_integer 1, m(args ! 1 \<mapsto> (v, now + of_int seconds)))))"
| "spec_exec now Cmd_auth args m = (Reply_null, m)"

definition spec_run :: "bool \<Rightarrow> u64 \<Rightarrow> command \<Rightarrow> string list \<Rightarrow> bool \<times> store \<Rightarrow> reply \<times> bool \<times> store" where
  "spec_run master now command args st =
     (case st of (auth, m) \<Rightarrow>
       if command = Cmd_auth then
         (if length args \<noteq> 2 then (wrong_args Cmd_auth args, auth, m)
          else if args ! 1 = ''123456'' then (Reply_status ''OK'', True, m)
          else (Reply_error ''Invalid password for database'', auth, m))
       else if \<not> master \<and> command = Cmd_set then (Reply_error ''slaver can not run 'set' command'', auth, m)
       else if \<not> master \<and> command = Cmd_del then (Reply_error ''slaver can not run 'del' command'', auth, m)
       else if \<not> auth then (Reply_error ''No auth session'', auth, m)
       else if length args \<noteq> arity command then (wrong_args command args, auth, m)
       else (case spec_exec now command args m of (r, m') \<Rightarrow> (r, auth, m')))"

fun spec_serve :: "bool \<Rightarrow> request list \<Rightarrow> bool \<times> store \<Rightarrow> reply list \<times> bool \<times> store" where
  "spec_serve master [] st = ([], st)"
| "spec_serve master ((now, command, args) # reqs) st =
     (case spec_run master now command args st of
        (r, st') \<Rightarrow> (case spec_serve master reqs st' of (rs, st'') \<Rightarrow> (r # rs, st'')))"

section \<open>Refinement\<close>

definition session_ok :: "ctx \<Rightarrow> bool" where
  "session_ok ctx \<longleftrightarrow> ctx_session ctx = None \<or> ctx_session ctx = Some ''123456''"

definition storable :: "request \<Rightarrow> bool" where
  "storable req = (case req of (now, command, args) \<Rightarrow> command = Cmd_set \<and> length args = 3 \<longrightarrow> TAB \<notin> set (args ! 2))"

definition service_abs :: "'d leveldb \<Rightarrow> ctx \<times> ('d, 'l) wrapper \<Rightarrow> bool \<times> store" where
  "service_abs L st = (ctx_session (fst st) \<noteq> None, store_view L (snd st))"

lemma get_exact:
  assumes "engine_ok L w"
  shows "\<exists>w'. get L now k [] w = (case visible now (store_view L w) k of Some v \<Rightarrow> (True, v, w') | None \<Rightarrow> (False, [], w'))
    \<and> engine_ok L w'
    \<and> store_view L w' = (case visible now (store_view L w) k of Some v \<Rightarrow> store_view L w | None \<Rightarrow> (store_view L w)(k := None))"
  using get_refines [OF assms, of now k] lazy_remove [OF assms, of k] assms
  by (auto simp: visible_def fun_upd_idem split: option.splits if_splits)


lemma put_exact:
  assumes "engine_ok L w" and "TAB \<notin> set v"
  shows "\<exists>w'. put L opts sleep k v w = (True, w') \<and> engine_ok L w' \<and> store_view L w' = (store_view L w)(k \<mapsto> (v, - 1))"
  using put_refines [OF assms, of opts sleep k] by (cases "put L opts sleep k v w") auto

lemma remove_exact:
  assumes "engine_ok L w"
  shows "\<exists>w'. remove L opts sleep k w = (True, w') \<and> engine_ok L w' \<and> store_view L w' = (store_view L w)(k := None)"
  using remove_refines [OF assms, of opts sleep k] by (cases "remove L opts sleep k w") auto

lemma expire_exact:
  assumes "engine_ok L w"
  shows "\<exists>w'. expire L opts sleep now k ts w = (store_view L w k \<noteq> None, w') \<and> engine_ok L w'
    \<and> store_view L w' = (case store_view L w k of None \<Rightarrow> store_view L w
        | Some (v, e) \<Rightarrow> (store_view L w)(k \<mapsto> (v, now + ts)))"
  using expire_refines [OF assms, of opts sleep now k ts] by (cases "expire L opts sleep now k ts w") auto

lemma session_cases:
  assumes "session_ok ctx"
  obtains "ctx_session ctx = None" | "ctx_session ctx = Some ''123456''"
  using assms by (auto simp: session_ok_def)

lemma run_refines:
  assumes "engine_ok L w" and "session_ok ctx" and "storable (now, command, args)"
    and "Run model L opts sleep now command args (ctx, w) = (r, ctx', w')"
  shows "engine_ok L w' \<and> session_ok ctx'
    \<and> spec_run (model = ''master'') now command args (service_abs L (ctx, w)) = (r, service_abs L (ctx', w'))"
proof (cases command)
  case Cmd_auth
  with assms show ?thesis
    by (auto simp: run_defs spec_run_def wrong_args_def service_abs_def session_ok_def Let_def split: if_splits)
next
  case Cmd_get
  from get_exact [OF assms(1), of now "args ! 1"] obtain w1 where w1:
    "get L now (args ! 1) [] w = (case visible now (store_view L w) (args ! 1) of Some v \<Rightarrow> (True, v, w1) | None \<Rightarrow> (False, [], w1))"
    "engine_ok L w1" "store_view L w1 = (case visible now (store_view L w) (args ! 1) of
       Some v \<Rightarrow> store_view L w | None \<Rightarrow> (store_view L w)(args ! 1 := None))" by blast
  from assms(2) show ?thesis
    by (cases rule: session_cases) (use Cmd_get assms w1 in \<open>auto simp: run_defs spec_run_def wrong_args_def
      service_abs_def session_ok_def arity_def split: if_splits option.splits\<close>)
next
  case Cmd_set
  then have "length args = 3 \<Longrightarrow> TAB \<notin> set (args ! 2)" using assms(3) by (simp add: storable_def)
  note put = put_exact [OF assms(1) this, of opts sleep "args ! 1"]
  from assms(2) show ?thesis
    by (cases rule: session_cases) (use Cmd_set assms put in \<open>auto simp: run_defs spec_run_def wrong_args_def
      service_abs_def session_ok_def arity_def split: if_splits\<close>)
next
  case Cmd_del
  from assms(2) show ?thesis
    by (cases rule: session_cases) (use Cmd_del assms remove_exact [OF assms(1), of opts sleep "args ! 1"] in \<open>auto simp: run_defs spec_run_def wrong_args_def
      service_abs_def session_ok_def arity_def split: if_splits\<close>)
next
  case Cmd_ttl
  from assms(2) show ?thesis
    by (cases rule: session_cases) (use Cmd_ttl assms ttl_refines [OF assms(1)] in \<open>auto simp: run_defs spec_run_def
      wrong_args_def service_abs_def session_ok_def arity_def split: if_splits\<close>)
next
  case Cmd_expire
  from assms(2) show ?thesis
  proof (cases rule: session_cases)
    case 2
    show ?thesis
    proof (cases "stoll (args ! 2)")
      case (Inr seconds)
      with 2 Cmd_expire assms expire_exact [OF assms(1), of opts sleep now "args ! 1" "of_int seconds"] show ?thesis
        by (auto simp: run_defs spec_run_def wrong_args_def service_abs_def session_ok_def arity_def
            split: if_splits option.splits)
    qed (use 2 Cmd_expire assms in \<open>auto simp: run_defs spec_run_def wrong_args_def service_abs_def
      session_ok_def arity_def split: if_splits\<close>)
  qed (use Cmd_expire assms in \<open>auto simp: run_defs spec_run_def service_abs_def session_ok_def\<close>)
qed


lemma serve_refines:
  assumes "engine_ok L w" and "session_ok ctx" and "list_all storable reqs"
    and "serve model L opts sleep reqs (ctx, w) = (rs, ctx', w')"
  shows "engine_ok L w' \<and> session_ok ctx'
    \<and> spec_serve (model = ''master'') reqs (service_abs L (ctx, w)) = (rs, service_abs L (ctx', w'))"
  using assms
proof (induction reqs arbitrary: ctx w rs)
  case (Cons req reqs)
  obtain now command args where req: "req = (now, command, args)" by (cases req)
  obtain r ctx1 w1 where 1: "Run model L opts sleep now command args (ctx, w) = (r, ctx1, w1)"
    by (cases "Run model L opts sleep now command args (ctx, w)") auto
  obtain rs1 where 2: "serve model L opts sleep reqs (ctx1, w1) = (rs1, ctx', w')" "rs = r # rs1"
    using Cons.prems(4) by (auto simp: req 1 split: prod.splits)
  from run_refines [OF Cons.prems(1,2) _ 1] Cons.prems(3) have
    s: "engine_ok L w1" "session_ok ctx1"
    "spec_run (model = ''master'') now command args (service_abs L (ctx, w)) = (r, service_abs L (ctx1, w1))"
    by (simp_all add: req)
  from Cons.IH [OF s(1,2) _ 2(1)] Cons.prems(3) s(3) 2(2) show ?case by (simp add: req)
qed simp

section \<open>Properties\<close>


definition example_requests :: "request list" where
  "example_requests =
    [(10, Cmd_auth, [''auth'', ''123456'']), (10, Cmd_set, [''set'', ''k'', ''v'']), (11, Cmd_get, [''get'', ''k'']),
     (11, Cmd_expire, [''expire'', ''k'', ''5'']), (12, Cmd_ttl, [''ttl'', ''k'']), (16, Cmd_get, [''get'', ''k'']),
     (16, Cmd_del, [''del''])]"

lemma digit_char_0: "digit_char 0 = CHR ''0''"
  by code_simp

lemma spec_example:
  "fst (spec_serve True example_requests (False, Map.empty)) =
    [Reply_status ''OK'', Reply_status ''OK'', Reply_string ''v'', Reply_integer 1, Reply_integer 4, Reply_null,
     Reply_error ''Expect 1 arg for 'del', actually 0'']"
  by (simp add: example_requests_def spec_run_def visible_def live_def spec_ttl_def arity_def wrong_args_def
      arg_count_def to_string.simps digit_char_0 stoll_def sto_signed_def read_number_def is_space_def is_digit_def
      digits_value_def digit_value_def)


definition no_login :: "request \<Rightarrow> bool" where
  "no_login req = (case req of (now, command, args) \<Rightarrow> \<not> (command = Cmd_auth \<and> length args = 2 \<and> args ! 1 = ''123456''))"

lemma run_unauthenticated:
  assumes "no_login (now, command, args)" and "ctx_session ctx = None"
  shows "\<exists>e. Run model L opts sleep now command args (ctx, w) = (Reply_error e, ctx, w)"
  using assms by (cases command) (auto simp: run_defs no_login_def Let_def)

lemma run_user_name:
  assumes "session_ok ctx"
  shows "session_ok (fst (snd (Run model L opts sleep now command args (ctx, w))))
    \<and> fst (Run model L opts sleep now command args (ctx, w)) \<noteq> Reply_error ''No user name''"
  using assms
  by (cases command; cases rule: session_cases)
    (auto simp: run_defs session_ok_def Let_def split: prod.splits bool.splits sum.splits)

lemma serve_user_name:
  "session_ok (fst st) \<Longrightarrow> Reply_error ''No user name'' \<notin> set (fst (serve model L opts sleep reqs st))"
proof (induction reqs arbitrary: st)
  case (Cons req reqs)
  obtain now command args where req: "req = (now, command, args)" by (cases req)
  obtain ctx w where st: "st = (ctx, w)" by (cases st)
  with Cons.prems run_user_name [of ctx model L opts sleep now command args w]
    Cons.IH [of "snd (Run model L opts sleep now command args (ctx, w))"]
  show ?case by (simp add: req st split: prod.splits) (metis snd_conv fst_conv)
qed simp

text \<open>
  C20: nothing without authentication: a connection on which no AUTH with the right password was sent
  leaves the database and the log exactly as they were, whatever it sends, and gets nothing but
  error replies; and no connection ever gets the reply \<^verbatim>\<open>No user name\<close>, because a session always
  carries the password.
\<close>

theorem no_access_without_auth:
  assumes "list_all no_login reqs"
  shows "\<exists>errs. serve model L opts sleep reqs (\<lparr>ctx_session = None\<rparr>, w) = (map Reply_error errs, \<lparr>ctx_session = None\<rparr>, w)
    \<and> Reply_error ''No user name'' \<notin> set (fst (serve model L opts sleep any (\<lparr>ctx_session = None\<rparr>, w)))"
proof -
  have "\<exists>errs. serve model L opts sleep reqs (\<lparr>ctx_session = None\<rparr>, w) = (map Reply_error errs, \<lparr>ctx_session = None\<rparr>, w)"
    using assms
  proof (induction reqs)
    case (Cons req reqs)
    obtain now command args where req: "req = (now, command, args)" by (cases req)
    from run_unauthenticated [of now command args "\<lparr>ctx_session = None\<rparr>" model L opts sleep w] Cons.prems obtain e where
      "Run model L opts sleep now command args (\<lparr>ctx_session = None\<rparr>, w) = (Reply_error e, \<lparr>ctx_session = None\<rparr>, w)"
      by (auto simp: req)
    moreover from Cons obtain errs where
      "serve model L opts sleep reqs (\<lparr>ctx_session = None\<rparr>, w) = (map Reply_error errs, \<lparr>ctx_session = None\<rparr>, w)" by auto
    ultimately show ?case by (intro exI [of _ "e # errs"]) (simp add: req)
  qed simp
  with serve_user_name [of "(\<lparr>ctx_session = None\<rparr>, w)" model L opts sleep any] show ?thesis by (auto simp: session_ok_def)
qed

theorem no_access_without_auth_witness:
  "\<exists>errs. serve ''master'' mem_leveldb main_options id [(1, Cmd_set, [''set'', ''k'', ''v'']), (1, Cmd_auth, [''auth'', ''x''])]
     (\<lparr>ctx_session = None\<rparr>, mem_wrapper []) = (map Reply_error errs, \<lparr>ctx_session = None\<rparr>, mem_wrapper [])"
  using no_access_without_auth [of "[(1, Cmd_set, [''set'', ''k'', ''v'']), (1, Cmd_auth, [''auth'', ''x''])]" "''master''"
      mem_leveldb main_options id "mem_wrapper []"]
  by (auto simp: no_login_def)


text \<open>
  On a node that is not the master SET and DEL are refused and change nothing, but EXPIRE is not
  guarded: an authenticated client of a replica gets 1, the replica's record changes and a SET
  command goes to the replica's log.
\<close>

lemma expire_logs:
  assumes "engine_ok L w" and "store_view L w k \<noteq> None" and "\<not> aof_stop (w_aof w)" and "sleep_ok opts sleep"
  shows "\<exists>v. aof_accepted (w_aof (snd (expire L opts sleep now k ts w)))
    = aof_accepted (w_aof w) @ [serializeToRESP [''SET'', k, v]]"
proof -
  have p: "w_aof (snd (put L opts sleep k v w)) = log_command opts sleep [''SET'', k, v] (w_aof w)" for v
    by (simp add: put_def Let_def case_prod_beta)
  obtain raw where "raw_view L (w_db w) k = Some raw" "raw \<noteq> []"
    using assms(2) decode_record_SomeD(1) by (cases "raw_view L (w_db w) k") (auto simp: store_view_def)
  then have "snd (Impl_get L k [] (w_db w)) \<noteq> []" by (simp add: Impl_get_raw)
  then show ?thesis using p log_command_accepts(1) [OF assms(3,4)] by (auto simp: expire_def Let_def)
qed

theorem replica_guard_misses_expire:
  assumes "model \<noteq> ''master''" and "engine_ok L w" and "store_view L w k = Some (v, e)"
    and "\<not> aof_stop (w_aof w)" and "sleep_ok opts sleep" and "stoll secs = Inr n"
  defines "ctx \<equiv> \<lparr>ctx_session = Some ''123456''\<rparr>"
  shows "set_Run model L opts sleep args ctx w = (Reply_error ''slaver can not run 'set' command'', w)
    \<and> del_Run model L opts sleep args ctx w = (Reply_error ''slaver can not run 'del' command'', w)
    \<and> (\<exists>w' p. expire_Run L opts sleep now [c, k, secs] ctx w = (Reply_integer 1, w')
         \<and> store_view L w' = (store_view L w)(k \<mapsto> (v, now + of_int n))
         \<and> aof_accepted (w_aof w') = aof_accepted (w_aof w) @ [serializeToRESP [''SET'', k, p]])"
proof -
  obtain b w' where x: "expire L opts sleep now k (of_int n) w = (b, w')" by fastforce
  with expire_refines [OF assms(2), of opts sleep now k "of_int n"] assms(3)
  have "b" "store_view L w' = (store_view L w)(k \<mapsto> (v, now + of_int n))" by simp_all
  moreover obtain p where "aof_accepted (w_aof w') = aof_accepted (w_aof w) @ [serializeToRESP [''SET'', k, p]]"
    using expire_logs [OF assms(2) _ assms(4,5), of k now "of_int n"] assms(3) x by auto
  ultimately show ?thesis
    using assms(1,6) x by (auto simp: set_Run_def del_Run_def expire_Run_def rs_Expire_def ctx_def)
qed

lemma stoll_5: "stoll ''5'' = Inr 5"
  by (simp add: stoll_def sto_signed_def read_number_def is_space_def is_digit_def digits_value_def digit_value_def)

lemma example_wrapper_log:
  "\<not> aof_stop (w_aof (mem_wrapper d))" "aof_accepted (w_aof (mem_wrapper d)) = []"
  "sleep_ok main_options (\<lambda>a. a\<lparr>aof_queue := []\<rparr>)"
  by (simp_all add: mem_wrapper_def example_aof_def startWriter_def sleep_ok_def has_space_def main_options_def
      default_options_def)

theorem replica_guard_misses_expire_witness:
  "\<exists>w' p. expire_Run mem_leveldb main_options (\<lambda>a. a\<lparr>aof_queue := []\<rparr>) 100 [''expire'', ''k'', ''5'']
       \<lparr>ctx_session = Some ''123456''\<rparr> (mem_wrapper [(''k'', ''v'' @ no_expiry)]) = (Reply_integer 1, w')
     \<and> store_view mem_leveldb w' ''k'' = Some (''v'', 105)
     \<and> aof_accepted (w_aof w') = [serializeToRESP [''SET'', ''k'', p]]"
proof -
  have "''replicate'' \<noteq> ''master''" by simp
  from replica_guard_misses_expire [OF this example_record_ok example_record example_wrapper_log(1,3) stoll_5,
      of "[]" 100 "''expire''"]
  show ?thesis by (auto simp: example_wrapper_log(2))
qed

text \<open>
  EXPIRE brings back a key whose time is over: as long as the record has not been removed, TTL
  reports -2 for it and EXPIRE answers 1, after which the old value can be read again.
\<close>

theorem expire_revives_expired:
  assumes "engine_ok L w" and "store_view L w k = Some (v, e)" and "e \<noteq> - 1" and "e \<le> now"
    and "stoll secs = Inr n" and "now < now + of_int n" and "now + of_int n \<noteq> - 1"
  defines "ctx \<equiv> \<lparr>ctx_session = Some ''123456''\<rparr>"
  shows "ttl_Run L now [c, k] ctx w = Reply_integer (- 2)
    \<and> (\<exists>w'. expire_Run L opts sleep now [c', k, secs] ctx w = (Reply_integer 1, w')
         \<and> fst (get_Run L now [c'', k] ctx w') = Reply_string v)"
proof -
  obtain b w' where x: "expire L opts sleep now k (of_int n) w = (b, w')" by fastforce
  with expire_refines [OF assms(1), of opts sleep now k "of_int n"] assms(2)
  have w': "b" "engine_ok L w'" "store_view L w' k = Some (v, now + of_int n)" by simp_all
  have "ttl L now k w = - 2"
    using ttl_refines [OF assms(1), of now k] assms(2-3) leD [OF assms(4)] by (simp add: spec_ttl_def live_def)
  moreover have "get L now k [] w' = (True, v, w')"
    using get_refines [OF w'(2), of now k] w'(3) assms(6) by (simp add: live_def)
  ultimately show ?thesis
    using x w'(1) assms(5)
    by (auto simp: ttl_Run_def expire_Run_def get_Run_def rs_Ttl_def rs_Expire_def rs_Get_def ctx_def)
qed

theorem expire_revives_expired_witness:
  "\<exists>w :: ((string \<times> string) list, nat) wrapper. ttl_Run mem_leveldb 106 [''ttl'', ''k''] \<lparr>ctx_session = Some ''123456''\<rparr> w = Reply_integer (- 2)
     \<and> (\<exists>w'. expire_Run mem_leveldb main_options id 106 [''expire'', ''k'', ''5''] \<lparr>ctx_session = Some ''123456''\<rparr> w
            = (Reply_integer 1, w')
          \<and> fst (get_Run mem_leveldb 106 [''get'', ''k''] \<lparr>ctx_session = Some ''123456''\<rparr> w') = Reply_string ''v'')"
proof -
  define w where "w = snd (expire mem_leveldb main_options id 100 ''k'' 5 (mem_wrapper [(''k'', ''v'' @ no_expiry)]))"
  from expire_refines [OF example_record_ok, of main_options id 100 "''k''" 5] example_record
  have "engine_ok mem_leveldb w" "store_view mem_leveldb w ''k'' = Some (''v'', 105)" by (simp_all add: w_def)
  from expire_revives_expired [OF this _ _ stoll_5, of 106 "''ttl''" main_options id "''expire''" "''get''"]
  show ?thesis by (intro exI [of _ w]) auto
qed

text \<open>
  Registration: without a database the service is not created; with one it has exactly the six
  handlers, each under its name, and no handler is left out.
\<close>

theorem service_registration:
  "init_redis_service None = (Inl (Runtime_error ''Database not initialized'') :: ('d, 'l) redis_service exn_or)
   \<and> (\<exists>rs. init_redis_service (Some w) = Inr rs \<and> rs_db rs = w
        \<and> rs_handlers rs = map_of [(''auth'', Cmd_auth), (''get'', Cmd_get), (''set'', Cmd_set), (''del'', Cmd_del),
             (''ttl'', Cmd_ttl), (''expire'', Cmd_expire)]
        \<and> (\<forall>c. \<exists>name. rs_handlers rs name = Some c))"
proof -
  let ?h = "[(''auth'', Cmd_auth), (''get'', Cmd_get), (''set'', Cmd_set), (''del'', Cmd_del), (''ttl'', Cmd_ttl),
    (''expire'', Cmd_expire)]"
  have "\<forall>c. \<exists>name \<in> set (map fst ?h). map_of ?h name = Some c" by code_simp
  then have all: "\<forall>c. \<exists>name. map_of ?h name = Some c" by blast
  obtain rs where rs: "init_redis_service (Some w) = Inr rs" "rs_db rs = w" "rs_handlers rs = map_of ?h"
  proof
    show "init_redis_service (Some w) = Inr \<lparr>rs_db = w, rs_handlers = map_of ?h\<rparr>"
      unfolding init_redis_service_eq by (auto simp: fun_eq_iff)
  qed simp_all
  have "init_redis_service None = (Inl (Runtime_error ''Database not initialized'') :: ('d, 'l) redis_service exn_or)"
    by (simp add: init_redis_service_def RedisServiceImpl_def)
  with rs all show ?thesis by (intro conjI exI [of _ rs]) simp_all
qed

end
