(* ===== verification/Server_System.thy ===== *)
theory Server_System
  imports Redis_Service Log_Replay
begin

text \<open>
  The running server: the connections of the clients, the handlers, the storage engine, the cleaner
  thread and the log writer, interleaved.  A request is one step (overlapping writes are treated in
  \<open>Log_Replay\<close>).  The server is shown to simulate an abstract service whose only state is who is
  logged in and the expiring map, and the log it writes is shown to hold that map.
\<close>

section \<open>The server\<close>

text \<open>Connections are numbered; \<open>sys_replies\<close> records the replies, with the connection they went to.\<close>

record ('d, 'l) system =
  sys_time :: u64
  sys_ctx :: "nat \<Rightarrow> ctx"
  sys_wrapper :: "('d, 'l) wrapper"
  sys_replies :: "(nat \<times> reply) list"

text \<open>
  What is asked of a request with the right number of arguments: values of SET without tabs, and
  lengths that the log's frames can carry (for EXPIRE, of the record that it writes).
\<close>

definition carried :: "u64 \<Rightarrow> command \<Rightarrow> string list \<Rightarrow> store \<Rightarrow> bool" where
  "carried t command args m \<longleftrightarrow> length args = arity command \<longrightarrow>
     (case command of
        Cmd_set \<Rightarrow> TAB \<notin> set (args ! 2) \<and> resp_ok [''SET'', args ! 1, args ! 2]
      | Cmd_del \<Rightarrow> resp_ok [''DEL'', args ! 1]
      | Cmd_expire \<Rightarrow>
          (case (stoll (args ! 2), m (args ! 1)) of
             (Inr n, Some (v, e)) \<Rightarrow> resp_ok [''SET'', args ! 1, v @ CHR 0x09 # to_string (unat (t + of_int n))]
           | _ \<Rightarrow> True)
      | _ \<Rightarrow> True)"

inductive system_step ::
  "string \<Rightarrow> 'd leveldb \<Rightarrow> options \<Rightarrow> ('l aof \<Rightarrow> 'l aof) \<Rightarrow> ('d, 'l) system \<Rightarrow> ('d, 'l) system \<Rightarrow> bool"
  for model L opts sleep where
  sys_connect: "system_step model L opts sleep s (s\<lparr>sys_ctx := (sys_ctx s)(c := \<lparr>ctx_session = None\<rparr>)\<rparr>)"
| sys_request: "accepting opts (w_aof (sys_wrapper s)) \<Longrightarrow>
    carried (sys_time s) command args (store_view L (sys_wrapper s)) \<Longrightarrow>
    Run model L opts sleep (sys_time s) command args (sys_ctx s c, sys_wrapper s) = (r, ctx', w') \<Longrightarrow>
    system_step model L opts sleep s
      (s\<lparr>sys_ctx := (sys_ctx s)(c := ctx'), sys_wrapper := w', sys_replies := sys_replies s @ [(c, r)]\<rparr>)"
| sys_clean: "(\<And>i. sys_time s \<le> clock i \<and> clock i \<le> t') \<Longrightarrow>
    system_step model L opts sleep s (s\<lparr>sys_time := t', sys_wrapper := ttl_cleaner L clock (sys_wrapper s)\<rparr>)"
| sys_tick: "sys_time s \<le> t' \<Longrightarrow> system_step model L opts sleep s (s\<lparr>sys_time := t'\<rparr>)"
| sys_log: "writer_event ev \<Longrightarrow> aof_exec opts ev (w_aof (sys_wrapper s)) = Some a \<Longrightarrow>
    system_step model L opts sleep s (s\<lparr>sys_wrapper := (sys_wrapper s)\<lparr>w_aof := a\<rparr>\<rparr>)"

inductive_cases system_stepE: "system_step model L opts sleep s s'"

definition system_start :: "'d leveldb \<Rightarrow> ('d, 'l) system \<Rightarrow> bool" where
  "system_start L s \<longleftrightarrow> engine_start L (sys_time s, sys_wrapper s) \<and> (\<forall>c. ctx_session (sys_ctx s c) = None)
     \<and> sys_replies s = []"

definition system_inv :: "'d leveldb \<Rightarrow> options \<Rightarrow> ('d, 'l) system \<Rightarrow> bool" where
  "system_inv L opts s \<longleftrightarrow> engine_inv L opts (sys_time s, sys_wrapper s) \<and> (\<forall>c. session_ok (sys_ctx s c))"

section \<open>The abstract service\<close>

text \<open>A key whose time is over may be forgotten at any moment, which a client can see only through EXPIRE.\<close>

record service =
  sv_time :: u64
  sv_auth :: "nat \<Rightarrow> bool"
  sv_map :: store
  sv_replies :: "(nat \<times> reply) list"

definition forgets :: "u64 \<Rightarrow> store \<Rightarrow> store \<Rightarrow> bool" where
  "forgets t m m' \<longleftrightarrow> (\<forall>k. m' k = m k \<or> m' k = None \<and> visible t m k = None)"

inductive service_step :: "bool \<Rightarrow> service \<Rightarrow> service \<Rightarrow> bool" for master where
  sv_connect: "service_step master s (s\<lparr>sv_auth := (sv_auth s)(c := False)\<rparr>)"
| sv_request: "spec_run master (sv_time s) command args (sv_auth s c, sv_map s) = (r, auth', m') \<Longrightarrow>
    service_step master s
      (s\<lparr>sv_auth := (sv_auth s)(c := auth'), sv_map := m', sv_replies := sv_replies s @ [(c, r)]\<rparr>)"
| sv_tick: "sv_time s \<le> t' \<Longrightarrow> service_step master s (s\<lparr>sv_time := t'\<rparr>)"
| sv_forget: "forgets (sv_time s) (sv_map s) m' \<Longrightarrow> service_step master s (s\<lparr>sv_map := m'\<rparr>)"

definition system_abs :: "'d leveldb \<Rightarrow> ('d, 'l) system \<Rightarrow> service" where
  "system_abs L s = \<lparr>sv_time = sys_time s, sv_auth = (\<lambda>c. ctx_session (sys_ctx s c) \<noteq> None),
     sv_map = store_view L (sys_wrapper s), sv_replies = sys_replies s\<rparr>"

section \<open>A request on the engine\<close>

lemma run_engine_step:
  assumes "engine_ok L w" and "accepting opts (w_aof w)" and "carried t command args (store_view L w)"
    and "Run model L opts sleep t command args (ctx, w) = (r, ctx', w')"
  shows "(engine_step L opts sleep)\<^sup>*\<^sup>* (t, w) (t, w')"
proof -
  consider "w' = w"
    | k v where "command = Cmd_set" "length args = 3" "k = args ! 1" "v = args ! 2" "w' = snd (put L opts sleep k v w)"
    | k where "command = Cmd_del" "length args = 2" "k = args ! 1" "w' = snd (remove L opts sleep k w)"
    | k ok v where "get L t k [] w = (ok, v, w')"
    | k n where "command = Cmd_expire" "length args = 3" "k = args ! 1" "stoll (args ! 2) = Inr n" "w' = snd (expire L opts sleep t k (of_int n) w)"
    using assms(4) by (cases command) (auto simp: run_defs Let_def split: if_splits option.splits sum.splits prod.splits bool.splits)
  then show ?thesis
  proof cases
    case 2
    with assms(2,3) step_set [of opts w v k L sleep t] show ?thesis by (auto simp: carried_def arity_def)
  next
    case 3
    with assms(2,3) step_del [of opts w k L sleep t] show ?thesis by (auto simp: carried_def arity_def)
  next
    case 4
    with step_get [of L opts sleep t w k] show ?thesis by auto
  next
    case 5
    show ?thesis
    proof (cases "store_view L w k")
      case None
      with 5 expire_absent [OF assms(1)] show ?thesis by simp
    next
      case (Some ve)
      then obtain v e where "store_view L w k = Some (v, e)" by (cases ve) auto
      with 5 assms(2,3) step_expire [of opts w L k v e t "of_int n" sleep] show ?thesis
        by (auto simp: carried_def arity_def)
    qed
  qed simp
qed

lemma carried_storable: "carried t command args m \<Longrightarrow> storable (t, command, args)"
  by (auto simp: carried_def storable_def arity_def)

text \<open>On the engine a step of the server is a run of engine steps.\<close>

lemma system_step_engine:
  assumes "system_step model L opts sleep s s'" and "engine_ok L (sys_wrapper s)"
  shows "(engine_step L opts sleep)\<^sup>*\<^sup>* (sys_time s, sys_wrapper s) (sys_time s', sys_wrapper s')"
  using assms
proof (cases rule: system_step.cases)
  case (sys_request command args c r ctx' w')
  with run_engine_step [OF assms(2) sys_request(2-4)] show ?thesis by simp
next
  case (sys_clean clock t')
  with step_clean [of "sys_time s" clock t' L opts sleep "sys_wrapper s"] show ?thesis by auto
next
  case (sys_tick t')
  with step_time [of "sys_time s" t' L opts sleep "sys_wrapper s"] show ?thesis by auto
next
  case (sys_log ev a)
  with step_log [of ev opts "sys_wrapper s" a L sleep "sys_time s"] show ?thesis by auto
qed simp

lemma system_step_inv:
  assumes "system_inv L opts s" and "system_step model L opts sleep s s'"
  shows "system_inv L opts s'"
proof -
  have ok: "engine_ok L (sys_wrapper s)" "\<And>c. session_ok (sys_ctx s c)"
    using assms(1) by (auto simp: system_inv_def engine_inv_def)
  have "engine_inv L opts (sys_time s', sys_wrapper s')"
    using whole.steps_inv [OF system_step_engine [OF assms(2) ok(1)]] assms(1) by (simp add: system_inv_def)
  moreover have "session_ok (sys_ctx s' c)" for c
    using assms(2)
  proof (cases rule: system_step.cases)
    case (sys_request command args d r ctx' w')
    with run_refines [OF ok(1,2) carried_storable [OF sys_request(3)] sys_request(4)] ok(2) show ?thesis by simp
  qed (use ok(2) in \<open>auto simp: session_ok_def\<close>)
  ultimately show ?thesis by (simp add: system_inv_def)
qed

section \<open>The simulation\<close>

lemma up_to_expiry_forgets:
  assumes "up_to_expiry t (raw_view L (w_db w')) (raw_view L (w_db w))"
  shows "forgets t (store_view L w) (store_view L w')"
  unfolding forgets_def
proof
  fix k
  show "store_view L w' k = store_view L w k \<or> store_view L w' k = None \<and> visible t (store_view L w) k = None"
    using assms [unfolded up_to_expiry_def, THEN spec [of _ k]] by (auto simp: store_view_def visible_raw)
qed

lemma system_step_sim:
  assumes "system_inv L opts s" and "system_step model L opts sleep s s'"
  shows "(service_step (model = ''master''))\<^sup>*\<^sup>* (system_abs L s) (system_abs L s')"
proof -
  let ?step = "service_step (model = ''master'')" and ?a = "system_abs L s"
  have ok: "engine_ok L (sys_wrapper s)" "\<And>c. session_ok (sys_ctx s c)"
    using assms(1) by (auto simp: system_inv_def engine_inv_def)
  from assms(2) show ?thesis
  proof (cases rule: system_step.cases)
    case (sys_connect c)
    then have "system_abs L s' = ?a\<lparr>sv_auth := (sv_auth ?a)(c := False)\<rparr>"
      by (auto simp: system_abs_def)
    then show ?thesis using sv_connect [of "model = ''master''" ?a c] by auto
  next
    case (sys_request command args c r ctx' w')
    from run_refines [OF ok(1,2) carried_storable [OF sys_request(3)] sys_request(4)]
    have "spec_run (model = ''master'') (sv_time ?a) command args (sv_auth ?a c, sv_map ?a)
        = (r, ctx_session ctx' \<noteq> None, store_view L w')"
      by (simp add: service_abs_def system_abs_def)
    note st = sv_request [OF this]
    have "system_abs L s' = ?a\<lparr>sv_auth := (sv_auth ?a)(c := ctx_session ctx' \<noteq> None), sv_map := store_view L w',
        sv_replies := sv_replies ?a @ [(c, r)]\<rparr>"
      using sys_request(1) by (auto simp: system_abs_def)
    with st show ?thesis by simp
  next
    case (sys_clean clock t')
    have "sys_time s \<le> t'" using sys_clean(2) [of 0] by (meson order.trans)
    then have "?step ?a (?a\<lparr>sv_time := t'\<rparr>)" by (intro sv_tick) (simp add: system_abs_def)
    moreover have "forgets t' (store_view L (sys_wrapper s)) (store_view L (sys_wrapper s'))"
      using up_to_expiry_forgets ttl_cleaner_parts(3) [where clock = clock, OF ok(1) sys_clean(2)] sys_clean(1) by simp
    then have "?step (?a\<lparr>sv_time := t'\<rparr>) (system_abs L s')"
      using sv_forget [of "?a\<lparr>sv_time := t'\<rparr>" "store_view L (sys_wrapper s')"] sys_clean(1) by (simp add: system_abs_def)
    ultimately show ?thesis by auto
  next
    case (sys_tick t')
    with sv_tick [of ?a t'] show ?thesis by (auto simp: system_abs_def)
  next
    case (sys_log ev a)
    then have "system_abs L s' = ?a" by (simp add: system_abs_def store_view_def fun_eq_iff)
    then show ?thesis by simp
  qed
qed

interpretation server: simulation "system_start L" "system_step model L opts sleep" "system_inv L opts"
    "service_step (model = ''master'')" "system_abs L"
  for L :: "'d leveldb" and model :: string and opts :: options and sleep :: "'l aof \<Rightarrow> 'l aof"
proof unfold_locales
  fix s :: "('d, 'l) system"
  assume "system_start L s"
  then show "system_inv L opts s"
    using whole.start_inv by (auto simp: system_start_def system_inv_def session_ok_def)
qed (fact system_step_inv system_step_sim)+

lemma system_run_engine:
  assumes "(system_step model L opts sleep)\<^sup>*\<^sup>* s s'" and "system_inv L opts s"
  shows "(engine_step L opts sleep)\<^sup>*\<^sup>* (sys_time s, sys_wrapper s) (sys_time s', sys_wrapper s')"
  using assms(1)
proof (induction rule: rtranclp_induct)
  case (step t u)
  have "engine_ok L (sys_wrapper t)"
    using server.steps_inv [OF step.hyps(1) assms(2)] by (simp add: system_inv_def engine_inv_def)
  from system_step_engine [OF step.hyps(2) this] step.IH show ?case by (meson rtranclp_trans)
qed simp

lemma system_log_run:
  assumes "list_all writer_event evs" and "aof_run opts evs (w_aof (sys_wrapper s)) = Some a"
  shows "(system_step model L opts sleep)\<^sup>*\<^sup>* s (s\<lparr>sys_wrapper := (sys_wrapper s)\<lparr>w_aof := a\<rparr>\<rparr>)"
  using assms
proof (induction evs arbitrary: s)
  case Nil
  then have "s\<lparr>sys_wrapper := (sys_wrapper s)\<lparr>w_aof := a\<rparr>\<rparr> = s" by simp
  then show ?case by simp
next
  case (Cons ev evs)
  then obtain a1 where a1: "aof_exec opts ev (w_aof (sys_wrapper s)) = Some a1" "aof_run opts evs a1 = Some a"
    by (auto split: option.splits)
  from Cons.IH [of "s\<lparr>sys_wrapper := (sys_wrapper s)\<lparr>w_aof := a1\<rparr>\<rparr>"] Cons.prems a1
    sys_log [of ev opts s a1 model L sleep] show ?case
    by (auto intro: converse_rtranclp_into_rtranclp)
qed

section \<open>An example run\<close>

text \<open>A client logs in and sets a key; then the writer puts the command on disk.\<close>

text \<open>A run for the examples: a client logs in and sets a key; then the writer catches up.\<close>

lemma server_request_example:
  "\<exists>(s0 :: ((string \<times> string) list, nat) system) s a0. system_start mem_leveldb s0
     \<and> (system_step ''master'' mem_leveldb main_options id)\<^sup>*\<^sup>* s0 s \<and> sys_time s = 5
     \<and> sys_replies s = [(0, Reply_status ''OK''), (0, Reply_status ''OK'')]
     \<and> visible 9 (store_view mem_leveldb (sys_wrapper s)) ''k'' = Some ''v''
     \<and> Aof_construct True 0 [] = Inr a0
     \<and> w_aof (sys_wrapper s) = push_payload (serializeToRESP [''SET'', ''k'', ''v'']) a0"
proof -
  let ?step = "system_step ''master'' mem_leveldb main_options id"
  obtain a0 :: "nat aof" where a0: "Aof_construct True 0 [] = Inr a0" by (simp add: Aof_construct_def openFile_def)
  define w0 where "w0 = \<lparr>w_db = Some ([] :: (string \<times> string) list), w_aof = a0\<rparr>"
  define w1 where "w1 = snd (put mem_leveldb main_options id ''k'' ''v'' w0)"
  define s0 where "s0 = \<lparr>sys_time = 5, sys_ctx = (\<lambda>c. \<lparr>ctx_session = None\<rparr>), sys_wrapper = w0, sys_replies = []\<rparr>"
  define s1 where "s1 = s0\<lparr>sys_ctx := (sys_ctx s0)(0 := \<lparr>ctx_session = Some ''123456''\<rparr>), sys_wrapper := w0,
    sys_replies := sys_replies s0 @ [(0, Reply_status ''OK'')]\<rparr>"
  define s2 where "s2 = s1\<lparr>sys_ctx := (sys_ctx s1)(0 := \<lparr>ctx_session = Some ''123456''\<rparr>), sys_wrapper := w1,
    sys_replies := sys_replies s1 @ [(0, Reply_status ''OK'')]\<rparr>"
  have ok: "engine_ok mem_leveldb w0" and raw: "raw_view mem_leveldb (w_db w0) = Map.empty"
    using mem_wrapper_empty by (auto simp: engine_ok_def w0_def mem_wrapper_def records_ok_def raw_view_def mem_leveldb_def)
  have acc: "accepting main_options (w_aof w0)"
    using a0 by (auto simp: w0_def accepting_def Aof_construct_def openFile_def startWriter_def main_options_def)
  have st: "system_start mem_leveldb s0"
    using ok raw a0 by (auto simp: system_start_def engine_start_def s0_def w0_def aof_start_def)
  have "?step s0 s1"
    unfolding s1_def by (rule sys_request [where command = Cmd_auth and args = "[''auth'', ''123456'']"])
      (use acc in \<open>simp_all add: s0_def run_defs carried_def\<close>)
  moreover have "?step s1 s2"
    unfolding s2_def by (rule sys_request [where command = Cmd_set and args = "[''set'', ''k'', ''v'']"])
      (use acc put_refines(1) [OF ok, of "''v''" main_options id "''k''"] in
        \<open>auto simp: s1_def s0_def run_defs carried_def resp_ok_def w1_def split: prod.splits\<close>)
  ultimately have "?step\<^sup>*\<^sup>* s0 s2" by (meson converse_rtranclp_into_rtranclp r_into_rtranclp)
  moreover have "visible 9 (store_view mem_leveldb w1) ''k'' = Some ''v''"
    using put_refines(3) [OF ok, of "''v''" main_options id "''k''"] by (simp add: w1_def visible_def live_def)
  moreover have "w_aof w1 = push_payload (serializeToRESP [''SET'', ''k'', ''v'']) a0"
    using put_parts(1) [OF ok acc, of id "''k''" "''v''", folded w1_def] by (simp add: w0_def)
  ultimately show ?thesis
    using st a0 by (intro exI [of _ s0] exI [of _ s2] exI [of _ a0]) (simp add: s2_def s1_def s0_def)
qed

lemma server_example:
  "\<exists>(s0 :: ((string \<times> string) list, nat) system) s. system_start mem_leveldb s0
     \<and> (system_step ''master'' mem_leveldb main_options id)\<^sup>*\<^sup>* s0 s \<and> sys_time s = 5
     \<and> sys_replies s = [(0, Reply_status ''OK''), (0, Reply_status ''OK'')]
     \<and> visible 9 (store_view mem_leveldb (sys_wrapper s)) ''k'' = Some ''v''
     \<and> aof_queue (w_aof (sys_wrapper s)) = [] \<and> pending (aof_pc (w_aof (sys_wrapper s))) = []
     \<and> \<not> aof_lost (w_aof (sys_wrapper s))"
proof -
  let ?p = "serializeToRESP [''SET'', ''k'', ''v'']"
  let ?evs = "[Collect, Writev (Wv_bytes (length ?p)), Store_offset, Sync 0]"
  obtain s0 s :: "((string \<times> string) list, nat) system" and a0 where
    s: "system_start mem_leveldb s0" "(system_step ''master'' mem_leveldb main_options id)\<^sup>*\<^sup>* s0 s"
    and e: "sys_time s = 5" "sys_replies s = [(0, Reply_status ''OK''), (0, Reply_status ''OK'')]"
      "visible 9 (store_view mem_leveldb (sys_wrapper s)) ''k'' = Some ''v''"
    and a0: "Aof_construct True 0 [] = Inr a0" "w_aof (sys_wrapper s) = push_payload ?p a0"
    using server_request_example by blast
  obtain a where a: "aof_run main_options ?evs (w_aof (sys_wrapper s)) = Some a"
    and f: "aof_queue a = []" "pending (aof_pc a) = []" "\<not> aof_lost a"
    using a0 by (auto simp: Aof_construct_def openFile_def aof_eval serializeToRESP_def)
  let ?s = "s\<lparr>sys_wrapper := (sys_wrapper s)\<lparr>w_aof := a\<rparr>\<rparr>"
  have "(system_step ''master'' mem_leveldb main_options id)\<^sup>*\<^sup>* s0 ?s"
    using s(2) system_log_run [OF _ a] by (auto intro: rtranclp_trans)
  moreover have "store_view mem_leveldb (sys_wrapper ?s) = store_view mem_leveldb (sys_wrapper s)"
    by (simp add: fun_eq_iff store_view_def)
  ultimately show ?thesis using s(1) e f by (intro exI [of _ s0] exI [of _ ?s]) simp
qed

section \<open>Properties\<close>

text \<open>
  The running server is the abstract service.  Whatever the clients of all connections send, however
  requests, cleaner passes, writer steps and the clock are interleaved, and on a master and a replica
  alike, the replies so far, who is logged in and the stored map are those of a run of the abstract
  service.
\<close>

theorem server_refines_service:
  assumes "system_start L s0" and "(system_step model L opts sleep)\<^sup>*\<^sup>* s0 s"
  shows "(service_step (model = ''master''))\<^sup>*\<^sup>*
      \<lparr>sv_time = sys_time s0, sv_auth = (\<lambda>c. False), sv_map = Map.empty, sv_replies = []\<rparr>
      \<lparr>sv_time = sys_time s, sv_auth = (\<lambda>c. ctx_session (sys_ctx s c) \<noteq> None),
        sv_map = store_view L (sys_wrapper s), sv_replies = sys_replies s\<rparr>
    \<and> engine_ok L (sys_wrapper s)"
proof -
  have "store_view L (sys_wrapper s0) = Map.empty"
    using assms(1) by (auto simp: system_start_def engine_start_def store_view_def)
  with server.run_sim [OF assms] assms(1) show ?thesis
    by (simp add: system_abs_def system_start_def system_inv_def engine_inv_def)
qed

theorem server_refines_service_witness:
  "\<exists>(s0 :: ((string \<times> string) list, nat) system) s. system_start mem_leveldb s0
     \<and> (system_step ''master'' mem_leveldb main_options id)\<^sup>*\<^sup>* s0 s
     \<and> (\<exists>a m. (service_step True)\<^sup>*\<^sup>* \<lparr>sv_time = sys_time s0, sv_auth = (\<lambda>c. False), sv_map = Map.empty, sv_replies = []\<rparr>
          \<lparr>sv_time = 5, sv_auth = a, sv_map = m, sv_replies = [(0, Reply_status ''OK''), (0, Reply_status ''OK'')]\<rparr>
          \<and> visible 9 m ''k'' = Some ''v'')"
proof -
  obtain s0 s :: "((string \<times> string) list, nat) system" where
    s: "system_start mem_leveldb s0" "(system_step ''master'' mem_leveldb main_options id)\<^sup>*\<^sup>* s0 s"
    and e: "sys_time s = 5" "sys_replies s = [(0, Reply_status ''OK''), (0, Reply_status ''OK'')]"
      "visible 9 (store_view mem_leveldb (sys_wrapper s)) ''k'' = Some ''v''"
    using server_example by blast
  from server_refines_service [OF s] s e show ?thesis by auto
qed




end
