(* ===== verification/Config.thy ===== *)
theory Config
  imports Cxx_Numbers
begin

text \<open>
  The configuration of \<^verbatim>\<open>src/src/common/config.h\<close> and \<^verbatim>\<open>config.cpp\<close>: registered fields with their
  storage, the reader of the configuration file, and the fields the program registers.  A storage
  pointer is the name of the variable it points to; the variables are a map.  Reading a
  floating-point number is left to the parameter \<open>stod\<close>: no registered field has that type.
\<close>

section \<open>Fields\<close>

datatype 'f cfg_val =
    V_string string | V_bool bool | V_int16 "16 word" | V_int32 "32 word" | V_int64 "64 word" | V_double 'f

type_synonym 'f cfg_mem = "string \<rightharpoonup> 'f cfg_val"

record field =
  fd_type :: string
  fd_name :: string
  fd_storage :: string
  fd_defval :: string
  fd_valmutable :: bool

text \<open>The assignment by type that the constructor and \<^verbatim>\<open>set_value\<close> make.\<close>

definition assign_value ::
  "(string \<Rightarrow> 'f exn_or) \<Rightarrow> string \<Rightarrow> string \<Rightarrow> string \<Rightarrow> 'f cfg_mem \<Rightarrow> 'f cfg_mem exn_or" where
  "assign_value stod type storage str mem =
     (if type = ''std::string'' then Inr (mem(storage \<mapsto> V_string str))
      else if type = ''bool'' then Inr (mem(storage \<mapsto> V_bool (str = ''true'' \<or> str = ''1'')))
      else if type = ''int16_t'' then
        (case stoi str of Inl e \<Rightarrow> Inl e | Inr v \<Rightarrow> Inr (mem(storage \<mapsto> V_int16 (of_int v))))
      else if type = ''int32_t'' then
        (case stoi str of Inl e \<Rightarrow> Inl e | Inr v \<Rightarrow> Inr (mem(storage \<mapsto> V_int32 (of_int v))))
      else if type = ''int64_t'' then
        (case stoll str of Inl e \<Rightarrow> Inl e | Inr v \<Rightarrow> Inr (mem(storage \<mapsto> V_int64 (of_int v))))
      else if type = ''double'' then
        (case stod str of Inl e \<Rightarrow> Inl e | Inr v \<Rightarrow> Inr (mem(storage \<mapsto> V_double v)))
      else Inr mem)"

definition Field ::
  "(string \<Rightarrow> 'f exn_or) \<Rightarrow> string \<Rightarrow> string \<Rightarrow> string \<Rightarrow> string \<Rightarrow> bool \<Rightarrow> 'f cfg_mem \<Rightarrow> (field \<times> 'f cfg_mem) exn_or" where
  "Field stod ftype fname fstorage fdefval fvalmutable mem =
     (case assign_value stod ftype fstorage fdefval mem of
        Inl e \<Rightarrow> Inl e
      | Inr mem' \<Rightarrow> Inr (\<lparr>fd_type = ftype, fd_name = fname, fd_storage = fstorage, fd_defval = fdefval,
                        fd_valmutable = fvalmutable\<rparr>, mem'))"

definition set_value :: "(string \<Rightarrow> 'f exn_or) \<Rightarrow> field \<Rightarrow> string \<Rightarrow> 'f cfg_mem \<Rightarrow> 'f cfg_mem exn_or" where
  "set_value stod f str_value mem = assign_value stod (fd_type f) (fd_storage f) str_value mem"

text \<open>The registry: the map of fields, once there is one, and the variables.\<close>

record 'f registry =
  reg_map :: "(string \<rightharpoonup> field) option"
  reg_mem :: "'f cfg_mem"

text \<open>\<^verbatim>\<open>std::map::insert\<close> keeps an entry that is there already; the default is stored in any case.\<close>

definition Register ::
  "(string \<Rightarrow> 'f exn_or) \<Rightarrow> string \<Rightarrow> string \<Rightarrow> string \<Rightarrow> bool \<Rightarrow> 'f registry \<Rightarrow> 'f registry exn_or" where
  "Register stod ftype fname fdefval fvalmutable r =
     (let m = (case reg_map r of None \<Rightarrow> Map.empty | Some m \<Rightarrow> m)
      in case Field stod ftype fname fname fdefval fvalmutable (reg_mem r) of
        Inl e \<Rightarrow> Inl e
      | Inr (f, mem) \<Rightarrow>
          Inr (r\<lparr>reg_map := Some (case m fname of None \<Rightarrow> m(fname \<mapsto> f) | Some _ \<Rightarrow> m), reg_mem := mem\<rparr>))"

fun register_all :: "(string \<Rightarrow> 'f exn_or) \<Rightarrow> (string \<times> string \<times> string) list \<Rightarrow> 'f registry \<Rightarrow> 'f registry exn_or" where
  "register_all stod [] r = Inr r"
| "register_all stod ((ftype, fname, fdefval) # fs) r =
     (case Register stod ftype fname fdefval False r of Inl e \<Rightarrow> Inl e | Inr r' \<Rightarrow> register_all stod fs r')"

text \<open>The fields of the program, in the order of their definitions.\<close>

definition blp_fields :: "(string \<times> string \<times> string) list" where
  "blp_fields = [(''int16_t'', ''port'', ''6479''), (''int16_t'', ''replica_port'', ''6480''),
     (''std::string'', ''replicate_host'', ''127.0.0.1''), (''std::string'', ''model'', ''master'')]"

definition blp_registry :: "(string \<Rightarrow> 'f exn_or) \<Rightarrow> 'f registry exn_or" where
  "blp_registry stod = register_all stod blp_fields \<lparr>reg_map = None, reg_mem = Map.empty\<rparr>"

section \<open>Reading the file\<close>

definition is_blank :: "char \<Rightarrow> bool" where
  "is_blank c \<longleftrightarrow> c = CHR '' '' \<or> c = CHR 0x09"

fun find_first_not_blank :: "string \<Rightarrow> nat option" where
  "find_first_not_blank [] = None"
| "find_first_not_blank (c # s) = (if is_blank c then map_option Suc (find_first_not_blank s) else Some 0)"

definition find_last_not_blank :: "string \<Rightarrow> nat option" where
  "find_last_not_blank s = map_option (\<lambda>i. length s - 1 - i) (find_first_not_blank (rev s))"

definition trim :: "string \<Rightarrow> string" where
  "trim str =
     (case find_first_not_blank str of
        None \<Rightarrow> []
      | Some first \<Rightarrow>
          (case find_last_not_blank str of
             None \<Rightarrow> []
           | Some final \<Rightarrow> substr str first (final - first + 1)))"

text \<open>
  The stream output of vectors, over the output \<open>elem\<close> of one element: a separator after every
  element but the one at position \<^verbatim>\<open>v.size() - 1\<close>, which is the largest number for an empty vector.
\<close>

fun print_from :: "('a \<Rightarrow> string) \<Rightarrow> 'a list \<Rightarrow> nat \<Rightarrow> u64 \<Rightarrow> string" where
  "print_from elem [] i final = []"
| "print_from elem (x # xs) i final =
     elem x @ (if of_nat i \<noteq> final then '', '' else []) @ print_from elem xs (i + 1) final"

definition print_vector :: "('a \<Rightarrow> string) \<Rightarrow> 'a list \<Rightarrow> string" where
  "print_vector elem v = print_from elem v 0 (of_nat (length v) - 1)"

text \<open>The lines \<^verbatim>\<open>getline\<close> returns: split at line feeds; a last line without one counts if it has a character.\<close>

function getlines :: "string \<Rightarrow> string list" where
  "getlines s =
     (if s = [] then []
      else takeWhile (\<lambda>c. c \<noteq> CHR 0x0A) s # getlines (tl (dropWhile (\<lambda>c. c \<noteq> CHR 0x0A) s)))"
  by pat_completeness auto
termination
proof (relation "measure length")
  fix s :: string
  assume s: "s \<noteq> []"
  define d where "d = dropWhile (\<lambda>c. c \<noteq> CHR 0x0A) s"
  have "length d \<le> length s" unfolding d_def by (rule length_dropWhile_le)
  with s have "length (tl d) < length s" by (cases d) auto
  then show "(tl (dropWhile (\<lambda>c. c \<noteq> CHR 0x0A) s), s) \<in> measure length" by (simp add: d_def)
qed simp

declare getlines.simps [simp del]

definition config_line ::
  "(string \<Rightarrow> 'f exn_or) \<Rightarrow> string \<Rightarrow> 'f registry \<Rightarrow> 'f registry exn_or" where
  "config_line stod line r =
     (if line = [] \<or> hd line = CHR ''#'' \<or> hd line = CHR '';'' then Inr r
      else case str_find (CHR ''='') line of
        None \<Rightarrow> Inr r
      | Some pos \<Rightarrow>
          let key = trim (take pos line); val = trim (drop (pos + 1) line)
          in case reg_map r of
            None \<Rightarrow> Inr r
          | Some m \<Rightarrow>
              (case m key of
                 None \<Rightarrow> Inr r
               | Some f \<Rightarrow>
                   (case set_value stod f val (reg_mem r) of Inl e \<Rightarrow> Inl e | Inr mem \<Rightarrow> Inr (r\<lparr>reg_mem := mem\<rparr>))))"

fun config_lines :: "(string \<Rightarrow> 'f exn_or) \<Rightarrow> string list \<Rightarrow> 'f registry \<Rightarrow> 'f registry exn_or" where
  "config_lines stod [] r = Inr r"
| "config_lines stod (line # lines) r =
     (case config_line stod line r of Inl e \<Rightarrow> Inl e | Inr r' \<Rightarrow> config_lines stod lines r')"

text \<open>\<open>content\<close> is what the file holds, if it can be opened.\<close>

definition config_init ::
  "(string \<Rightarrow> 'f exn_or) \<Rightarrow> string \<Rightarrow> string option \<Rightarrow> 'f registry \<Rightarrow> ('f registry \<times> bool) exn_or" where
  "config_init stod filename content r =
     (case content of
        None \<Rightarrow> Inl (Runtime_error (''Unable to open config file: '' @ filename))
      | Some s \<Rightarrow> (case config_lines stod (getlines s) r of Inl e \<Rightarrow> Inl e | Inr r' \<Rightarrow> Inr (r', True)))"

section \<open>Printing vectors\<close>

lemma print_from_eq:
  assumes "i + length v < 2 ^ 64" and "i + length v = n"
  shows "print_from elem v i (of_nat n - 1) = concat (map (\<lambda>x. elem x @ '', '') (butlast v)) @ (if v = [] then [] else elem (last v))"
  using assms
proof (induction v arbitrary: i)
  case (Cons x xs)
  have "(of_nat n - 1 :: u64) = of_nat (n - 1)" using Cons.prems by (simp add: of_nat_diff)
  moreover have "(of_nat i = (of_nat (n - 1) :: u64)) \<longleftrightarrow> i = n - 1"
    using Cons.prems by (intro word_of_nat_eq_iff [THEN trans]) (simp add: take_bit_nat_eq_self)
  ultimately have "(of_nat i \<noteq> (of_nat n - 1 :: u64)) \<longleftrightarrow> xs \<noteq> []" using Cons.prems by auto
  then show ?case using Cons.IH [of "i + 1"] Cons.prems by auto
qed simp

text \<open>A separator stands between any two neighbours and nowhere else.\<close>

lemma print_vector_eq:
  "length v < 2 ^ 64 \<Longrightarrow>
   print_vector elem v = concat (map (\<lambda>x. elem x @ '', '') (butlast v)) @ (if v = [] then [] else elem (last v))"
  by (simp add: print_vector_def print_from_eq)

section \<open>Trimming\<close>

lemma find_first_not_blank_eq:
  "find_first_not_blank s = (if list_all is_blank s then None else Some (length (takeWhile is_blank s)))"
  by (induction s) auto

lemma find_last_not_blank_eq:
  "find_last_not_blank s =
     (if list_all is_blank s then None else Some (length s - 1 - length (takeWhile is_blank (rev s))))"
  by (simp add: find_last_not_blank_def find_first_not_blank_eq)

lemma trim_blank: "list_all is_blank s \<Longrightarrow> trim s = []"
  by (simp add: trim_def find_first_not_blank_eq)

lemma trim_core:
  assumes "list_all is_blank a" and "list_all is_blank b" and "m \<noteq> []" and "\<not> is_blank (hd m)" and "\<not> is_blank (last m)"
  shows "trim (a @ m @ b) = m"
proof -
  have nb: "\<not> list_all is_blank (a @ m @ b)" using assms(3,4) by (cases m) auto
  have "takeWhile is_blank (a @ m @ b) = a"
    using assms(1,3,4) by (cases m) (auto simp: list_all_iff takeWhile_append2)
  moreover have "takeWhile is_blank (rev (a @ m @ b)) = rev b"
    using assms(2,3,5) takeWhile_append2 [of "rev b" is_blank]
    by (cases m rule: rev_cases) (auto simp: list_all_iff)
  ultimately have "trim (a @ m @ b) = substr (a @ m @ b) (length a) (length m)"
    using nb assms(3) by (cases m) (auto simp: trim_def find_first_not_blank_eq find_last_not_blank_eq)
  then show ?thesis by (simp add: substr_def)
qed

lemma trim_shape:
  "\<exists>a b. s = a @ trim s @ b \<and> list_all is_blank a \<and> list_all is_blank b
    \<and> (trim s = [] \<or> \<not> is_blank (hd (trim s)) \<and> \<not> is_blank (last (trim s)))"
proof (cases "list_all is_blank s")
  case True
  then show ?thesis by (intro exI [of _ s] exI [of _ "[]"]) (simp add: trim_blank)
next
  case False
  define a where "a = takeWhile is_blank s"
  define m1 where "m1 = dropWhile is_blank s"
  define b where "b = rev (takeWhile is_blank (rev m1))"
  define m where "m = rev (dropWhile is_blank (rev m1))"
  have s: "s = a @ m1" by (simp add: a_def m1_def)
  have m1: "m1 = m @ b"
    by (metis b_def m_def rev_append rev_rev_ident takeWhile_dropWhile_id)
  have ne: "m1 \<noteq> []" "\<not> is_blank (hd m1)"
    using False hd_dropWhile [of is_blank s] by (auto simp: m1_def list_all_iff dropWhile_eq_Nil_conv)
  have "\<not> list_all is_blank (rev m1)" using ne by (cases m1) auto
  then have "dropWhile is_blank (rev m1) \<noteq> []" by (auto simp: list_all_iff dropWhile_eq_Nil_conv)
  then have m: "m \<noteq> []" "\<not> is_blank (last m)"
    using hd_dropWhile [of is_blank "rev m1"] by (auto simp: m_def last_rev)
  have blanks: "list_all is_blank a" "list_all is_blank b"
    by (auto simp: a_def b_def list_all_iff dest: set_takeWhileD)
  have "hd m1 = hd m" using m1 m by simp
  then have "trim (a @ m @ b) = m" using m ne blanks by (intro trim_core) auto
  with s m1 m ne blanks \<open>hd m1 = hd m\<close> show ?thesis by (intro exI [of _ a] exI [of _ b]) auto
qed


lemma blank_no_equals: "list_all is_blank s \<Longrightarrow> CHR ''='' \<notin> set s"
  by (induction s) (auto simp: is_blank_def)

section \<open>The registered fields\<close>

lemma stoi_defaults: "stoi ''6479'' = Inr 6479" "stoi ''6480'' = Inr 6480"
  by (simp_all add: stoi_def sto_signed_def read_number_def is_space_def is_digit_def digits_value_def digit_value_def)

definition blp_field :: "string \<Rightarrow> string \<Rightarrow> string \<Rightarrow> field" where
  "blp_field ftype fname fdefval =
     \<lparr>fd_type = ftype, fd_name = fname, fd_storage = fname, fd_defval = fdefval, fd_valmutable = False\<rparr>"

definition blp_map :: "string \<rightharpoonup> field" where
  "blp_map = [''port'' \<mapsto> blp_field ''int16_t'' ''port'' ''6479'',
     ''replica_port'' \<mapsto> blp_field ''int16_t'' ''replica_port'' ''6480'',
     ''replicate_host'' \<mapsto> blp_field ''std::string'' ''replicate_host'' ''127.0.0.1'',
     ''model'' \<mapsto> blp_field ''std::string'' ''model'' ''master'']"

lemma blp_registry_eq:
  "blp_registry stod = Inr \<lparr>reg_map = Some blp_map,
     reg_mem = [''port'' \<mapsto> V_int16 6479, ''replica_port'' \<mapsto> V_int16 6480,
       ''replicate_host'' \<mapsto> V_string ''127.0.0.1'', ''model'' \<mapsto> V_string ''master'']\<rparr>"
  by (simp add: blp_registry_def blp_fields_def Register_def Field_def assign_value_def stoi_defaults blp_map_def
      blp_field_def Let_def)

section \<open>Properties\<close>

text \<open>
  C28: what a line does: an empty line, a comment, a line without an equals sign and a line whose key
  is not registered change nothing; for a registered key, with any blanks around the key and the
  value, exactly the value between the blanks is assigned to the field, or the failed conversion is
  raised.
\<close>

theorem config_line_assigns:
  assumes "list_all is_blank a" "list_all is_blank b" "list_all is_blank c" "list_all is_blank d"
    and "key \<noteq> []" "\<not> is_blank (hd key)" "\<not> is_blank (last key)" "CHR ''='' \<notin> set key"
    and "val = [] \<or> \<not> is_blank (hd val) \<and> \<not> is_blank (last val)"
    and "a @ key = [] \<or> hd (a @ key) \<noteq> CHR ''#'' \<and> hd (a @ key) \<noteq> CHR '';''"
    and "reg_map r = Some m"
  shows "config_line stod (a @ key @ b @ CHR ''='' # c @ val @ d) r =
      (case m key of
         None \<Rightarrow> Inr r
       | Some f \<Rightarrow> (case set_value stod f val (reg_mem r) of Inl e \<Rightarrow> Inl e | Inr mem \<Rightarrow> Inr (r\<lparr>reg_mem := mem\<rparr>)))
    \<and> config_line stod (CHR ''#'' # t) r = Inr r \<and> config_line stod (CHR '';'' # t) r = Inr r
    \<and> config_line stod [] r = Inr r \<and> (CHR ''='' \<notin> set t \<longrightarrow> config_line stod t r = Inr r)"
proof -
  let ?pre = "a @ key @ b" and ?post = "c @ val @ d"
  have eq: "CHR ''='' \<notin> set ?pre" using blank_no_equals [OF assms(1)] blank_no_equals [OF assms(2)] assms(8) by simp
  have line: "a @ key @ b @ CHR ''='' # c @ val @ d = ?pre @ CHR ''='' # ?post" by simp
  have f: "str_find (CHR ''='') (?pre @ CHR ''='' # ?post) = Some (length ?pre)"
    by (rule str_find_append [OF eq])
  have td: "take (length ?pre) (?pre @ CHR ''='' # ?post) = ?pre" "drop (length ?pre + 1) (?pre @ CHR ''='' # ?post) = ?post"
    by simp_all
  have k: "trim ?pre = key" using assms by (intro trim_core) auto
  have v: "trim ?post = val"
  proof (cases "val = []")
    case True
    with assms(3,4) show ?thesis by (simp add: trim_blank)
  next
    case False
    with assms(3,4,9) show ?thesis by (intro trim_core) auto
  qed
  have h: "hd (?pre @ CHR ''='' # ?post) = hd (a @ key)"
    using assms(5) by (simp add: hd_append)
  have "config_line stod (a @ key @ b @ CHR ''='' # c @ val @ d) r =
      (case m key of
         None \<Rightarrow> Inr r
       | Some f \<Rightarrow> (case set_value stod f val (reg_mem r) of Inl e \<Rightarrow> Inl e | Inr mem \<Rightarrow> Inr (r\<lparr>reg_mem := mem\<rparr>)))"
    unfolding line config_line_def h f option.case td Let_def k v assms(11) using assms(5,10) by simp
  moreover have "CHR ''='' \<notin> set t \<longrightarrow> config_line stod t r = Inr r"
    by (simp add: config_line_def str_find_None_iff [THEN iffD2])
  ultimately show ?thesis by (simp add: config_line_def)
qed

theorem config_line_assigns_witness:
  "config_line (\<lambda>s. Inl Invalid_argument) '' model = replicate '' \<lparr>reg_map = Some blp_map, reg_mem = Map.empty\<rparr>
     = (Inr \<lparr>reg_map = Some blp_map, reg_mem = [''model'' \<mapsto> V_string ''replicate'']\<rparr> :: nat registry exn_or)"
  using config_line_assigns [of "'' ''" "'' ''" "'' ''" "'' ''" "''model''" "''replicate''"
      "\<lparr>reg_map = Some blp_map, reg_mem = Map.empty :: nat cfg_mem\<rparr>" blp_map "\<lambda>s. Inl Invalid_argument" "[]"]
  by (simp add: is_blank_def blp_map_def blp_field_def set_value_def assign_value_def)

text \<open>
  C29: the ports are 16-bit signed: a port number below 32768 is kept, one from 32768 to 65535 becomes
  negative (its bit pattern is the number); a text that is not a number raises.
\<close>

theorem port_is_signed_16:
  assumes "reg_map r = Some blp_map" and "n < 65536" and "key = ''port'' \<or> key = ''replica_port''"
  shows "\<exists>w. config_line stod (key @ ''='' @ to_string n) r = Inr (r\<lparr>reg_mem := (reg_mem r)(key \<mapsto> V_int16 w)\<rparr>)
    \<and> unat w = n \<and> sint w = (if n < 32768 then int n else int n - 65536)
    \<and> config_line stod (key @ ''=x'') r = Inl Invalid_argument"
proof -
  have dig: "\<not> is_blank ch" if "ch \<in> set (to_string n)" for ch
    using to_string_digits [OF that] by (auto simp: is_digit_def is_blank_def)
  have tr: "trim (to_string n) = to_string n"
    using trim_core [of "[]" "[]" "to_string n"] dig [OF hd_in_set] dig [OF last_in_set] by simp
  have kb: "trim ''port'' = ''port''" "trim ''replica_port'' = ''replica_port''" "trim ''x'' = ''x''"
    using trim_core [of "[]" "[]" "''port''"] trim_core [of "[]" "[]" "''replica_port''"] trim_core [of "[]" "[]" "''x''"]
    by (simp_all add: is_blank_def)
  have st: "stoi (to_string n) = Inr (int n)" "stoi ''x'' = Inl Invalid_argument"
    using assms(2) by (simp add: stoi_to_string)
      (simp add: stoi_def sto_signed_def read_number_def is_space_def is_digit_def)
  let ?w = "of_int (int n) :: 16 word"
  have u: "unat ?w = n" using assms(2) by (simp add: unat_of_nat)
  moreover have "int n div 32768 = (if n < 32768 then 0 else 1)" using assms(2) by auto
  then have "sint ?w = (if n < 32768 then int n else int n - 65536)"
    using assms(2) by (auto simp: signed_of_nat signed_take_bit_eq_take_bit_minus take_bit_eq_mod bit_iff_odd)
  moreover have "config_line stod (key @ ''='' @ to_string n) r = Inr (r\<lparr>reg_mem := (reg_mem r)(key \<mapsto> V_int16 ?w)\<rparr>)"
    using assms(1,3) by (auto simp: config_line_def kb tr blp_map_def blp_field_def set_value_def assign_value_def st)
  moreover have "config_line stod (key @ ''=x'') r = Inl Invalid_argument"
    using assms(1,3) by (auto simp: config_line_def kb blp_map_def blp_field_def set_value_def assign_value_def st)
  ultimately show ?thesis by blast
qed


theorem port_is_signed_16_witness:
  "\<exists>w. config_line (\<lambda>s. Inl Invalid_argument) (''port='' @ to_string 40000) \<lparr>reg_map = Some blp_map, reg_mem = Map.empty\<rparr>
      = (Inr \<lparr>reg_map = Some blp_map, reg_mem = [''port'' \<mapsto> V_int16 w]\<rparr> :: nat registry exn_or)
    \<and> sint w = - 25536"
  using port_is_signed_16 [of "\<lparr>reg_map = Some blp_map, reg_mem = Map.empty :: nat cfg_mem\<rparr>" 40000 "''port''"
      "\<lambda>s. Inl Invalid_argument"] by auto

text \<open>
  The configuration file that comes with the program: it loads, and its \<^verbatim>\<open>replicate_port\<close> line is
  ignored, whatever it says, because the field is registered as \<^verbatim>\<open>replica_port\<close>; the replication
  port stays at its default.
\<close>

definition shipped_conf :: "string \<Rightarrow> string" where
  "shipped_conf replicate_port =
     ''# BLP Configuration File'' @ LF #
     ''# This file contains the configuration settings for the BLP service.'' @ LF #
     LF #
     ''port = 6479'' @ LF #
     ''replicate_port = '' @ replicate_port @ LF #
     ''replicate_host = 127.0.0.1'' @ [LF]"

lemma getlines_line: "LF \<notin> set l \<Longrightarrow> getlines (l @ LF # s) = l # getlines s"
proof -
  assume l: "LF \<notin> set l"
  then have "takeWhile (\<lambda>c. c \<noteq> LF) (l @ LF # s) = l" "dropWhile (\<lambda>c. c \<noteq> LF) (l @ LF # s) = LF # s"
    by (induction l) auto
  then show ?thesis by (subst getlines.simps) simp
qed

lemma getlines_shipped:
  assumes "LF \<notin> set p"
  shows "getlines (shipped_conf p) = [''# BLP Configuration File'',
     ''# This file contains the configuration settings for the BLP service.'', [], ''port = 6479'',
     ''replicate_port = '' @ p, ''replicate_host = 127.0.0.1'']"
proof -
  have e: "getlines [] = []" by (simp add: getlines.simps)
  have n: "LF \<notin> set ''# BLP Configuration File''"
    "LF \<notin> set ''# This file contains the configuration settings for the BLP service.''"
    "LF \<notin> set ''port = 6479''" "LF \<notin> set ''replicate_host = 127.0.0.1''" "LF \<notin> set (''replicate_port = '' @ p)"
    using assms by simp_all
  have b: "getlines (LF # s) = [] # getlines s" for s using getlines_line [of "[]" s] by simp
  have r: "getlines (''replicate_port = '' @ p @ LF # s) = (''replicate_port = '' @ p) # getlines s" for s
    using getlines_line [OF n(5), of s] by (simp only: append.assoc)
  show ?thesis
    unfolding shipped_conf_def by (simp only: getlines_line [OF n(1)] getlines_line [OF n(2)] getlines_line [OF n(3)]
      getlines_line [OF n(4)] b r e)
qed

theorem shipped_config_ignores_replicate_port:
  assumes "LF \<notin> set p" and "reg_map r = Some blp_map"
  shows "config_init stod filename (Some (shipped_conf p)) r =
    Inr (r\<lparr>reg_mem := (reg_mem r)(''port'' \<mapsto> V_int16 6479, ''replicate_host'' \<mapsto> V_string ''127.0.0.1'')\<rparr>, True)"
proof -
  have t: "trim ''port '' = ''port''" "trim '' 6479'' = ''6479''" "trim ''replicate_port '' = ''replicate_port''"
    "trim ''replicate_host '' = ''replicate_host''" "trim '' 127.0.0.1'' = ''127.0.0.1''"
    using trim_core [of "[]" "'' ''" "''port''"] trim_core [of "'' ''" "[]" "''6479''"]
      trim_core [of "[]" "'' ''" "''replicate_port''"] trim_core [of "[]" "'' ''" "''replicate_host''"]
      trim_core [of "'' ''" "[]" "''127.0.0.1''"]
    by (simp_all add: is_blank_def)
  have "config_line stod (''replicate_port = '' @ p) r' = Inr r'" if "reg_map r' = Some blp_map" for r'
    using that by (simp add: config_line_def t blp_map_def)
  then show ?thesis
    using assms(2)
    by (simp add: config_init_def getlines_shipped [OF assms(1)] config_line_def t blp_map_def blp_field_def
        set_value_def assign_value_def stoi_defaults)
qed

theorem shipped_config_ignores_replicate_port_witness:
  "config_init (\<lambda>s. Inl Invalid_argument) ''blp.conf'' (Some (shipped_conf ''7000''))
      \<lparr>reg_map = Some blp_map, reg_mem = [''replica_port'' \<mapsto> V_int16 6480]\<rparr>
    = (Inr (\<lparr>reg_map = Some blp_map, reg_mem = [''replica_port'' \<mapsto> V_int16 6480, ''port'' \<mapsto> V_int16 6479,
         ''replicate_host'' \<mapsto> V_string ''127.0.0.1'']\<rparr>, True) :: (nat registry \<times> bool) exn_or)"
  using shipped_config_ignores_replicate_port [of "''7000''"
      "\<lparr>reg_map = Some blp_map, reg_mem = [''replica_port'' \<mapsto> V_int16 6480] :: nat cfg_mem\<rparr>"] by simp

end
