(* ===== verification/Blp_Main.thy ===== *)
theory Blp_Main
  imports Redis_Service Replication Config Aof_Shutdown
begin

text \<open>
  The start of the program, \<^verbatim>\<open>src/src/blp.cpp\<close>: configuration, log, database, Redis service and the
  replication role, with every way \<^verbatim>\<open>main\<close> can end before it serves.  What the machine provides is an
  argument: the environment variable, the files, and whether the RPC server starts on a port.
\<close>

section \<open>The program's start\<close>

record main_env =
  me_home :: "string option"            \<comment> \<open>\<^verbatim>\<open>getenv("BLP_HOME")\<close>\<close>
  me_conf :: "string \<Rightarrow> string option"   \<comment> \<open>the contents of a readable file\<close>
  me_log :: "string \<Rightarrow> bool \<times> string"    \<comment> \<open>whether the log opens, and its contents\<close>
  me_start :: "int \<Rightarrow> bool"             \<comment> \<open>\<^verbatim>\<open>redis_server.Start(port, ...) == 0\<close>\<close>
  me_clock :: nat

datatype role = Master_role u16 | Replica_role string u16

record ('f, 'd, 'l) process =
  pr_config :: "'f registry"
  pr_service :: "('d, 'l) redis_service"
  pr_role :: role

text \<open>
  \<^verbatim>\<open>main\<close> ends with a null pointer handed to \<^verbatim>\<open>std::string\<close> (undefined), with an exception nobody
  catches, with a return code, or it serves.
\<close>

datatype ('f, 'd, 'l) main_result =
    Main_undefined | Main_terminates cxx_exn | Main_returns int | Main_serves "('f, 'd, 'l) process"

definition main_role :: "'f registry \<Rightarrow> role option" where
  "main_role r =
     (case (reg_mem r ''model'', reg_mem r ''replica_port'') of
        (Some (V_string model), Some (V_int16 replica_port)) \<Rightarrow>
          if model = ''master'' then Some (Master_role replica_port)
          else if model = ''replicate'' then Some (Replica_role ''127.0.0.1'' replica_port)
          else None
      | _ \<Rightarrow> None)"

definition main_port :: "'f registry \<Rightarrow> int" where
  "main_port r = (case reg_mem r ''port'' of Some (V_int16 port) \<Rightarrow> sint port | _ \<Rightarrow> 0)"

definition blp_main ::
  "(string \<Rightarrow> 'f exn_or) \<Rightarrow> 'd leveldb \<Rightarrow> main_env \<Rightarrow> ('f, 'd, 'l) main_result" where
  "blp_main stod L env =
     (case blp_registry stod of
        Inl e \<Rightarrow> Main_terminates e
      | Inr r0 \<Rightarrow>
      (case me_home env of
        None \<Rightarrow> Main_undefined
      | Some home \<Rightarrow>
      let conf_file = home @ ''/conf/blp.conf'' in
      (case config_init stod conf_file (me_conf env conf_file) r0 of
        Inl e \<Rightarrow> Main_terminates e
      | Inr (r, False) \<Rightarrow> Main_returns (- 1)
      | Inr (r, True) \<Rightarrow>
      let aof_file = home @ ''/data/appendonly.aof'' in
      (case Aof_construct (fst (me_log env aof_file)) (me_clock env) (snd (me_log env aof_file)) of
        Inl e \<Rightarrow> Main_terminates e
      | Inr a \<Rightarrow>
      (case init_db L (home @ ''/data/db'') a of
        None \<Rightarrow> Main_returns (- 1)
      | Some w \<Rightarrow>
      (case init_redis_service (Some w) of
        Inl e \<Rightarrow> Main_terminates e
      | Inr service \<Rightarrow>
      if \<not> me_start env (main_port r) then Main_returns (- 1)
      else (case main_role r of
        None \<Rightarrow> Main_returns (- 1)
      | Some role \<Rightarrow> Main_serves \<lparr>pr_config = r, pr_service = service, pr_role = role\<rparr>)))))))"

text \<open>
  The end: when the RPC server is asked to quit, \<^verbatim>\<open>main\<close> stops the log, waiting for its writer, and
  returns 0, which destroys the log object.
\<close>

definition main_quit :: "('l aof \<Rightarrow> 'l aof) \<Rightarrow> 'l aof \<Rightarrow> 'l aof \<times> int" where
  "main_quit join a = (let a1 = Aof_stop main_options join a in (Aof_destroy main_options join a1, 0))"

section \<open>The configuration keeps its types\<close>

definition config_ok :: "'f registry \<Rightarrow> bool" where
  "config_ok r \<longleftrightarrow> reg_map r = Some blp_map
     \<and> (\<exists>p. reg_mem r ''port'' = Some (V_int16 p)) \<and> (\<exists>p. reg_mem r ''replica_port'' = Some (V_int16 p))
     \<and> (\<exists>h. reg_mem r ''replicate_host'' = Some (V_string h)) \<and> (\<exists>m. reg_mem r ''model'' = Some (V_string m))"

lemma blp_mapD:
  "blp_map key = Some f \<Longrightarrow>
     fd_storage f = key \<and>
     ((key = ''port'' \<or> key = ''replica_port'') \<and> fd_type f = ''int16_t''
      \<or> (key = ''replicate_host'' \<or> key = ''model'') \<and> fd_type f = ''std::string'')"
  by (auto simp: blp_map_def blp_field_def split: if_splits)

lemma set_value_shape:
  assumes "blp_map key = Some f" and "set_value stod f v mem = Inr mem'"
  shows "\<exists>x. mem' = mem(key \<mapsto> x) \<and>
    ((key = ''port'' \<or> key = ''replica_port'') \<and> (\<exists>w. x = V_int16 w)
     \<or> (key = ''replicate_host'' \<or> key = ''model'') \<and> (\<exists>s. x = V_string s))"
  using blp_mapD [OF assms(1)] assms(2)
  by (auto simp: set_value_def assign_value_def split: sum.splits)

lemma config_line_ok:
  assumes "config_ok r" and "config_line stod line r = Inr r'"
  shows "config_ok r'"
proof (cases "r' = r")
  case False
  have m: "reg_map r = Some blp_map" using assms(1) by (simp add: config_ok_def)
  from assms(2) False m obtain key f v mem where
    "blp_map key = Some f" "set_value stod f v (reg_mem r) = Inr mem" and r': "r' = r\<lparr>reg_mem := mem\<rparr>"
    by (auto simp: config_line_def Let_def split: if_splits option.splits sum.splits)
  from set_value_shape [OF this(1,2)] assms(1) r' show ?thesis
    by (auto simp: config_ok_def)
qed (use assms(1) in simp)

lemma config_lines_ok: "config_ok r \<Longrightarrow> config_lines stod lines r = Inr r' \<Longrightarrow> config_ok r'"
  by (induction lines arbitrary: r) (auto split: sum.splits intro: config_line_ok)


text \<open>What has happened when the program serves.\<close>

lemma blp_main_servesD:
  assumes "blp_main stod L env = Main_serves p" and "me_home env = Some home"
  shows "\<exists>a w. Aof_construct (fst (me_log env (home @ ''/data/appendonly.aof''))) (me_clock env)
             (snd (me_log env (home @ ''/data/appendonly.aof''))) = Inr a
    \<and> init_db L (home @ ''/data/db'') a = Some w \<and> init_redis_service (Some w) = Inr (pr_service p)
    \<and> me_start env (main_port (pr_config p)) \<and> main_role (pr_config p) = Some (pr_role p)"
proof -
  obtain r0 where r0: "blp_registry stod = Inr r0" by (simp add: blp_registry_eq)
  note m = assms(1) [unfolded blp_main_def r0 assms(2) Let_def, simplified]
  obtain r where c: "config_init stod (home @ ''/conf/blp.conf'') (me_conf env (home @ ''/conf/blp.conf'')) r0 = Inr (r, True)"
    using m by (cases "config_init stod (home @ ''/conf/blp.conf'') (me_conf env (home @ ''/conf/blp.conf'')) r0")
      (auto split: bool.splits)
  obtain a :: "'c aof" where a: "Aof_construct (fst (me_log env (home @ ''/data/appendonly.aof''))) (me_clock env)
       (snd (me_log env (home @ ''/data/appendonly.aof''))) = Inr a"
    using m by (cases "Aof_construct (fst (me_log env (home @ ''/data/appendonly.aof''))) (me_clock env)
       (snd (me_log env (home @ ''/data/appendonly.aof''))) :: 'c aof exn_or") (auto simp: c)
  obtain w where w: "init_db L (home @ ''/data/db'') a = Some w"
    using m by (cases "init_db L (home @ ''/data/db'') a") (auto simp: c a)
  obtain rs where rs: "init_redis_service (Some w) = Inr rs"
    using m by (cases "init_redis_service (Some w)") (auto simp: c a w)
  from m have "me_start env (main_port r)" "main_role r = Some (pr_role p)" "pr_config p = r" "pr_service p = rs"
    by (auto simp: c a w rs split: if_splits option.splits)
  with a w rs show ?thesis by auto
qed

section \<open>Properties\<close>



lemma config_init_True:
  "blp_registry stod = Inr r0 \<Longrightarrow> config_init stod filename content r0 = Inr (r, b) \<Longrightarrow> b"
  by (auto simp: config_init_def split: option.splits sum.splits)


definition example_main_env :: main_env where
  "example_main_env = \<lparr>me_home = Some ''/b'', me_conf = (\<lambda>f. Some []), me_log = (\<lambda>f. (True, [])),
     me_start = (\<lambda>port. port = 6479), me_clock = 0\<rparr>"


end
