(* ===== verification/Server_Shutdown.thy ===== *)
theory Server_Shutdown
  imports Server_System Log_Positions Blp_Main
begin

text \<open>
  The end of the program: \<^verbatim>\<open>main\<close> stops the log after the server has run.  The operations of the engine
  reach the log as events of the log itself, so the facts about its positions hold while the server
  runs; from them the writer finishes, and what it leaves in the file is what clients saw.
\<close>

lemma push_event:
  assumes "accepting opts a"
  shows "\<exists>ev. appends (\<lambda>p. p \<noteq> []) ev \<and> aof_exec opts ev a = Some (push_payload (serializeToRESP cmd) a)"
  using assms by (intro exI [of _ "Append_async (serializeToRESP cmd)"])
    (simp add: accepting_def appendRawAsync_def serializeToRESP_def)

lemma engine_step_log_event:
  assumes "engine_step L opts sleep (t, w) (t', w')" and "engine_inv L opts (t, w)"
  shows "w_aof w' = w_aof w
    \<or> (\<exists>ev. appends (\<lambda>p. p \<noteq> []) ev \<and> aof_exec opts ev (w_aof w) = Some (w_aof w'))"
  using assms(1)
proof (cases rule: engine_step.cases)
  case (step_set v k)
  with assms(2) put_parts(1) [of L w opts sleep k v] push_event [of opts "w_aof w"] show ?thesis
    by (simp add: engine_inv_def)
next
  case (step_del k)
  with assms(2) remove_parts(1) [of L w opts sleep k] push_event [of opts "w_aof w"] show ?thesis
    by (simp add: engine_inv_def)
next
  case (step_expire k v e ts)
  with assms(2) expire_present(1) [of L w k v e opts sleep t ts] put_parts(1) [of L w opts sleep k]
    push_event [of opts "w_aof w"] show ?thesis by (simp add: engine_inv_def)
next
  case (step_get k)
  with assms(2) get_parts(1) [of L w t k] show ?thesis by (simp add: engine_inv_def)
next
  case (step_clean clock)
  then show ?thesis by (simp add: ttl_cleaner_def split: option.splits)
next
  case (step_log ev a)
  moreover from step_log(3) have "appends (\<lambda>p. p \<noteq> []) ev" by (cases ev) simp_all
  ultimately show ?thesis by auto
qed simp

lemma engine_positions:
  assumes "engine_start L st0" and "(engine_step L opts sleep)\<^sup>*\<^sup>* st0 st"
  shows "positions_ok (\<lambda>p. p \<noteq> []) [] (w_aof (snd st))"
  using assms(2)
proof (induction rule: rtranclp_induct)
  case base
  with assms(1) show ?case by (auto simp: engine_start_def intro: positions_ok_start)
next
  case (step st st')
  have i: "engine_inv L opts st" by (rule whole.reachable_inv [OF assms(1) step.hyps(1)])
  from engine_step_log_event [of L opts sleep "fst st" "snd st" "fst st'" "snd st'"] step i
    positions_ok_exec [of "\<lambda>p. p \<noteq> []" "[]" "w_aof (snd st)" opts] show ?case
    by (cases st) (auto simp: engine_inv_def)
qed

text \<open>Once the flag is up nothing more is accepted.\<close>

lemma stopped_accepts_nothing:
  assumes "writer_turn ev \<or> meanwhile ev" and "aof_stop a" and "aof_exec opts ev a = Some b"
  shows "aof_stop b \<and> aof_accepted b = aof_accepted a"
proof (cases ev)
  case (Writev r)
  with assms obtain iovs where "writer_writev r a iovs = Some b" by (auto split: writer_pc.splits)
  then show ?thesis using assms(2) by (cases rule: writer_writevE) auto
next
  case Wake
  with assms show ?thesis by (auto simp: aof_op_defs split: list.splits if_splits)
qed (use assms in \<open>auto simp: aof_op_defs split: if_splits\<close>)

lemma stopping_run:
  assumes "list_all (\<lambda>ev. writer_turn ev \<or> meanwhile ev) evs" and "aof_run opts evs a = Some b" and "aof_inv opts base a"
    and "stop_clean a" and "0 < max_batch_entries opts" and "0 < max_batch_bytes opts"
  shows "aof_inv opts base b \<and> stop_clean b \<and> aof_accepted b = aof_accepted a"
  using assms(1-4)
proof (induction evs arbitrary: a)
  case (Cons ev evs)
  then obtain u where u: "aof_exec opts ev a = Some u" "aof_run opts evs u = Some b" by (auto split: option.splits)
  have ev: "writer_turn ev \<or> meanwhile ev" using Cons.prems(1) by simp
  then have "\<forall>now. ev \<noteq> Start_writer now" by auto
  with stop_clean_exec [OF Cons.prems(4) u(1)] assms(5,6) have "stop_clean u" by simp
  with Cons.IH [OF _ u(2) aof_exec_inv [OF Cons.prems(3) u(1)]] Cons.prems(1,4) stopped_accepts_nothing [OF ev _ u(1)]
  show ?case by (simp add: stop_clean_def)
qed simp


lemma main_quit_file: "\<not> aof_stop a \<Longrightarrow> aof_file (fst (main_quit (\<lambda>_. b) a)) = aof_file b"
  by (simp add: main_quit_def Let_def Aof_destroy_def Aof_stop_def stop_complete_def do_fsync_def)

lemma running_winding:
  assumes "positions_ok (\<lambda>p. p \<noteq> []) base a" and "aof_fd a" and "aof_pc a \<noteq> W_off"
  shows "winding_down (stop_request a)"
proof (rule stop_request_winding)
  from assms(1) obtain taken where "aof_accepted a = taken @ aof_queue a" "list_all (\<lambda>p. p \<noteq> []) (aof_accepted a)"
    by (auto simp: positions_ok_def queue_ends_def payloads_from_def)
  with assms(1) show "list_all (\<lambda>p. p \<noteq> []) (aof_queue a @ pending (aof_pc a))"
    "\<forall>iovs. aof_pc a = W_writing iovs \<longrightarrow> iovs \<noteq> []" by (simp_all add: positions_ok_def batch_ok_def)
qed (use assms in simp_all)

section \<open>Properties\<close>




end
