(* ===== verification/Spec2Isabelle.thy ===== *)
theory Spec2Isabelle
  imports Ring_Buffer Sequence_Number Overlap Replicated_Log Aof_Progress Server_Shutdown
begin

text \<open>
  A verification development for BlpCache, a key-value cache that speaks the Redis protocol, keeps its
  data in LevelDB, logs every write to an append-only file and streams the log to replicas.

  \<^bold>\<open>The program.\<close>  A request arrives at the RPC server, which calls the handler of the command
  (\<^verbatim>\<open>src/src/service\<close>).  The handler checks the session and calls the storage wrapper
  (\<^verbatim>\<open>src/src/core/db.cpp\<close>), which first hands the command to the log (\<^verbatim>\<open>src/src/common/aof.cpp\<close>) and
  then writes to LevelDB; a cleaner thread removes expired records.  The log has a queue, a writer
  thread that writes batches with \<^verbatim>\<open>writev\<close>, and listeners that are notified of every append.  On a master
  each replica's connection registers a listener that reads new commands from the file and sends them
  (\<^verbatim>\<open>src/src/replica/server.cpp\<close>, \<^verbatim>\<open>protocol.h\<close>); a replica receives and applies them
  (\<^verbatim>\<open>replicate.cpp\<close>).  \<^verbatim>\<open>main\<close> (\<^verbatim>\<open>src/src/blp.cpp\<close>) reads the configuration (\<^verbatim>\<open>common/config.cpp\<close>) and starts
  the parts.

  \<^bold>\<open>The theories.\<close>
  \<^item> \<open>Blp_Prelude\<close>: types (bytes as 8-bit words, \<^verbatim>\<open>std::string\<close> as \<open>string\<close>, exceptions as the left part of
    a sum), string operations, the memory layout of integers for either byte order, and the locales
    \<open>transition_invariant\<close> and \<open>simulation\<close>.
  \<^item> \<open>Cxx_Numbers\<close>: \<^verbatim>\<open>std::to_string\<close> and the \<^verbatim>\<open>std::sto*\<close> readers, with their exceptions.
  \<^item> \<open>Resp\<close>: \<^verbatim>\<open>serializeToRESP\<close>, \<^verbatim>\<open>findCRLF\<close>, \<^verbatim>\<open>tryParseRESPArray\<close>.  Round trip, stability of verdicts when bytes
    arrive, rejection of every torn frame; the locale \<open>frame_codec\<close>.
  \<^item> \<open>Aof_Recovery\<close>: \<^verbatim>\<open>recoverFromAOF\<close> and \<^verbatim>\<open>readCommandsFromOffset\<close>.  Whole frames are executed in order for
    every splitting of the reads; what happens to a torn tail.
  \<^item> \<open>Aof_Writer\<close>: the class \<^verbatim>\<open>Aof\<close> as a record, its operations, and \<^verbatim>\<open>writerLoop\<close> cut into the steps that
    other threads can interleave with (\<open>aof_exec\<close>, one event per critical section, system call or read
    of an atomic).  Invariants of every reachable state, what \<^verbatim>\<open>stop\<close> guarantees and what it does not,
    termination of the \<^verbatim>\<open>writev\<close> loop.
  \<^item> \<open>Aof_Shutdown\<close>: the whole call of \<^verbatim>\<open>stop\<close> and the destructor; a measure that every turn of the writer lowers
    once the flag is up.
  \<^item> \<open>Durability\<close>: writer and recovery together, for a crash at any instant and after a failed write.
  \<^item> \<open>Log_Positions\<close>: in every reachable state the queue is the end of the accepted payloads and the
    published offset is the end of a whole one.
  \<^item> \<open>Aof_Progress\<close>: while the log runs, what it has accepted reaches the file, whatever producers do.
  \<^item> \<open>Storage\<close>: \<^verbatim>\<open>LevelDBWrapper\<close> with its inner \<^verbatim>\<open>Impl\<close>, expiry and the cleaner, against the locale
    \<open>expiring_store\<close> of an abstract map with deadlines.
  \<^item> \<open>Log_Replay\<close>: engine, cleaner and log interleaved; the log is a faithful history of the database.
  \<^item> \<open>Overlap\<close>: the operations of the engine cut into the halves that no common lock spans, taken by any
    number of threads.  The history stays faithful while no two operations on one key overlap; three
    ways in which it does not otherwise.
  \<^item> \<open>Ring_Buffer\<close>, \<open>Sequence_Number\<close>: the two utility classes.
  \<^item> \<open>Socket_IO\<close>: \<^verbatim>\<open>socket_utils.cpp\<close> over an arbitrary network; the locale \<open>byte_channel\<close>.
  \<^item> \<open>Protocol\<close>: \<^verbatim>\<open>DataEntity\<close>, \<^verbatim>\<open>Message\<close>, heartbeat and acknowledgement.  Exactness of the codec, delivery.
  \<^item> \<open>Replication\<close>: listener, connection handler, accept loop and replica loop.
  \<^item> \<open>Replicated_Log\<close>: appending threads that notify the listeners, the writer and the connections interleaved,
    with the read of the offset, every \<^verbatim>\<open>read\<close> of the growing log and every call of \<^verbatim>\<open>send_all\<close> as steps of their
    own.  What a connection carries while messages are kept apart, and what happens when two mix.
  \<^item> \<open>Redis_Service\<close>: session, service object, the six handlers; refinement of an abstract service.
  \<^item> \<open>Config\<close>, \<open>Blp_Main\<close>: the configuration reader and the start of the program on every path.
  \<^item> \<open>Server_System\<close>: all connections, handlers, engine, cleaner and writer interleaved, as a simulation of
    the abstract service; recovery of what was served.
  \<^item> \<open>Server_Shutdown\<close>: from the running server to the end of \<^verbatim>\<open>main\<close>.
  \<^item> This theory: the program from its start.

  \<^bold>\<open>What is a parameter.\<close>  Code outside the repository is an argument: LevelDB is the record
  \<open>leveldb\<close> of its operations, with its documented behaviour in \<open>leveldb_ok\<close> and a disk that does not
  fail in \<open>leveldb_healthy\<close>; both hold of the in-memory instance \<open>mem_leveldb\<close>, on which the examples
  run.  The RPC framework appears as the choice of the handler and as \<open>me_start\<close>; \<^verbatim>\<open>std::stod\<close> is the
  argument \<open>stod\<close>.  The results of system calls are arguments: \<open>log_env\<close> for the file, \<open>net\<close> for the
  sizes of transfers, \<open>socket_calls\<close>, the events of \<open>aof_exec\<close>, the clock.

  \<^bold>\<open>Loops.\<close>  Loops that end are total functions, with a measure where the recursion is not structural
  (bytes left to send, receive, parse or read).  Loops that the environment can keep running follow a
  list of outcomes or a number of rounds: \<open>writev_loop\<close> and \<open>recv_event_loop\<close> return \<open>None\<close> when the
  list ends first, and are shown to return when enough calls make progress (one per byte is enough);
  \<open>start_heartbeat\<close> reports whether it has left its loop; \<open>replica_rounds\<close> and \<open>startReplica\<close> follow a loop of
  the code that has no exit, for every number of rounds.  Writer and server have no bound at all:
  they are step relations and their theorems hold of all reachable states.

  \<^bold>\<open>Not modelled.\<close>  Exhaustion of memory; failures of \<^verbatim>\<open>fsync\<close> and of the \<^verbatim>\<open>lseek\<close> in
  \<^verbatim>\<open>openFile\<close>; console output and logging; signals (a broken pipe on \<^verbatim>\<open>send\<close> is a failed call); the
  threads inside LevelDB and the RPC framework.  Variables captured by reference in the listener and
  in the threads of \<^verbatim>\<open>main\<close> are used after their scope, which is undefined; the model gives them the
  value they are meant to have.  A request is one step in \<open>Server_System\<close>; requests that
  overlap are the subject of \<open>Overlap\<close>, where a thread that waits for space in the log takes no step until there
  is some.  In \<open>Replicated_Log\<close> a descriptor stands for one connection: what the handlers receive, and their closing of
  it, is in \<open>Replication\<close> only.  That no thread begins a message on a connection while another one is inside a message
  there is an assumption (\<open>repl_admits\<close>) which no lock of the code enforces; \<open>interleaved_sends_raise\<close> is about
  the runs that break it.  The declarations of the headers, the destructors
  of the storage wrapper and the accessors of the message classes hold no behaviour of their own.  The files \<^verbatim>\<open>status.h\<close> and
  \<^verbatim>\<open>status.cpp\<close> hold no code.
\<close>

section \<open>The program as a whole\<close>

text \<open>
  The state of the server at the moment \<^verbatim>\<open>main\<close> starts to serve: no connection has a session, and the
  wrapper is the one the handlers work on.
\<close>

definition serving :: "u64 \<Rightarrow> ('f, 'd, 'l) process \<Rightarrow> ('d, 'l) system" where
  "serving t p = \<lparr>sys_time = t, sys_ctx = (\<lambda>c. \<lparr>ctx_session = None\<rparr>), sys_wrapper = rs_db (pr_service p), sys_replies = []\<rparr>"

definition process_model :: "('f, 'd, 'l) process \<Rightarrow> string" where
  "process_model p = (case reg_mem (pr_config p) ''model'' of Some (V_string m) \<Rightarrow> m | _ \<Rightarrow> [])"

lemma main_role_master: "main_role r = Some role \<Longrightarrow>
  (case reg_mem r ''model'' of Some (V_string m) \<Rightarrow> m | _ \<Rightarrow> []) = ''master'' \<longleftrightarrow> (\<exists>port. role = Master_role port)"
  by (auto simp: main_role_def split: option.splits cfg_val.splits if_splits)

lemma serving_start:
  assumes "blp_main stod L env = Main_serves p" and "me_home env = Some home"
    and "leveldb_ok L" and "leveldb_healthy L"
    and "snd (me_log env (home @ ''/data/appendonly.aof'')) = []"
    and "raw_view L (w_db (rs_db (pr_service p))) = Map.empty"
  shows "system_start L (serving t p)" and "main_role (pr_config p) = Some (pr_role p)"
proof -
  from blp_main_servesD [OF assms(1,2)] obtain a w where
    a: "Aof_construct (fst (me_log env (home @ ''/data/appendonly.aof''))) (me_clock env) [] = Inr a"
    and w: "init_db L (home @ ''/data/db'') a = Some w" "init_redis_service (Some w) = Inr (pr_service p)"
    and "main_role (pr_config p) = Some (pr_role p)" unfolding assms(5) by blast
  then show "main_role (pr_config p) = Some (pr_role p)" by simp
  have "rs_db (pr_service p) = w" using w(2) [unfolded init_redis_service_eq, THEN sum.inject(2) [THEN iffD1], symmetric] by simp
  moreover have "w_db w \<noteq> None" "w_aof w = a" using w(1) by (auto simp: init_db_eq)
  moreover have "aof_start [] a" using a by (auto simp: aof_start_def Aof_construct_def openFile_def split: if_splits)
  ultimately show "system_start L (serving t p)"
    using assms(3,4,6) by (simp add: system_start_def serving_def engine_start_def engine_ok_def records_ok_def)
qed




end
